(* ===== verification/Prelude.thy ===== *)
theory Prelude
  imports Main "HOL-Library.Word"
begin

section \<open>Prelude: Go values, failures and shared lemmas\<close>

text \<open>
  What the components share: the failures of a Go program as values, the machine integers of
  the code, the conversion of an \<^verbatim>\<open>int\<close> through \<^verbatim>\<open>float64\<close> that two of the programs use to
  take a minimum or a maximum, and generic lemmas on lists and maps. The named collections
  \<open>go_defs\<close> (small wrappers that proofs always unfold) and \<open>frame\<close> (what an operation
  leaves alone) carry the component proofs.
\<close>

named_theorems go_defs
named_theorems frame

subsection \<open>Failures\<close>

text \<open>
  A run-time panic, or a call of \<^verbatim>\<open>log.Fatal\<close>, ends the process. Operations that can end this
  way return a value of type \<open>go_error + 'a\<close>.
\<close>

datatype go_error =
    IndexOutOfRange
  | NilDereference
  | NilMapWrite
  | SyncFatal          \<comment> \<open>unlock of an unlocked mutex\<close>
  | LogFatal string
  | PanicErr string    \<comment> \<open>\<^verbatim>\<open>panic(err)\<close>\<close>

type_synonym 'a result = "go_error + 'a"

definition is_ok :: "'a result \<Rightarrow> bool" where
  "is_ok r = (case r of Inl _ \<Rightarrow> False | Inr _ \<Rightarrow> True)"

lemma is_ok_simps [simp]: "is_ok (Inr x)" "\<not> is_ok (Inl e)"
  by (simp_all add: is_ok_def)

lemma is_ok_iff: "is_ok r \<longleftrightarrow> (\<exists>x. r = Inr x)"
  by (cases r) auto

definition bind_result :: "'a result \<Rightarrow> ('a \<Rightarrow> 'b result) \<Rightarrow> 'b result" where
  "bind_result r f = (case r of Inl e \<Rightarrow> Inl e | Inr x \<Rightarrow> f x)"

lemma bind_result_simps [simp]:
  "bind_result (Inl e) f = Inl e" "bind_result (Inr x) f = f x"
  by (simp_all add: bind_result_def)

lemma bind_result_Inr_iff:
  "bind_result r f = Inr y \<longleftrightarrow> (\<exists>x. r = Inr x \<and> f x = Inr y)"
  by (cases r) auto

text \<open>A slice read \<^verbatim>\<open>xs[i]\<close> with a Go \<^verbatim>\<open>int\<close> index.\<close>

definition slice_get :: "'a list \<Rightarrow> int \<Rightarrow> 'a result" where
  "slice_get xs i =
     (if 0 \<le> i \<and> i < int (length xs) then Inr (xs ! nat i) else Inl IndexOutOfRange)"

lemma slice_get_ok [simp]:
  "0 \<le> i \<Longrightarrow> i < int (length xs) \<Longrightarrow> slice_get xs i = Inr (xs ! nat i)"
  by (simp add: slice_get_def)

lemma slice_get_of_nat [simp]: "n < length xs \<Longrightarrow> slice_get xs (int n) = Inr (xs ! n)"
  by (simp add: slice_get_def)

lemma slice_get_Inr_iff:
  "slice_get xs i = Inr x \<longleftrightarrow> 0 \<le> i \<and> i < int (length xs) \<and> x = xs ! nat i"
  by (auto simp: slice_get_def)

subsection \<open>Machine integers\<close>

text \<open>
  Go's \<^verbatim>\<open>int\<close> has 64 bits on the platforms the programs target. Amounts of money and balances
  are kept at that width; terms, log indices, priorities and counters, which the programs only
  ever advance one by one, are \<^typ>\<open>int\<close> or \<^typ>\<open>nat\<close>.
\<close>

type_synonym goint = "64 word"

subsection \<open>Integers through float64\<close>

text \<open>
  \<open>f64 n\<close> is \<^verbatim>\<open>float64(n)\<close> read back as an integer: exact up to \<open>2^53\<close> in magnitude, otherwise
  rounded to 53 significant bits, ties to even.
\<close>

fun bit_len :: "nat \<Rightarrow> nat" where
  "bit_len n = (if n = 0 then 0 else Suc (bit_len (n div 2)))"

declare bit_len.simps [simp del]

definition round_bits :: "nat \<Rightarrow> nat \<Rightarrow> nat" where
  "round_bits k n =
     (let q = n div 2 ^ k; r = n mod 2 ^ k
      in (if 2 * r < 2 ^ k then q
          else if 2 * r > 2 ^ k then q + 1
          else if even q then q else q + 1) * 2 ^ k)"

definition f64 :: "int \<Rightarrow> int" where
  "f64 n =
     (if \<bar>n\<bar> \<le> 2 ^ 53 then n
      else sgn n * int (round_bits (bit_len (nat \<bar>n\<bar>) - 53) (nat \<bar>n\<bar>)))"

lemma f64_exact [simp]: "\<bar>n\<bar> \<le> 2 ^ 53 \<Longrightarrow> f64 n = n"
  by (simp add: f64_def)

text \<open>\<^verbatim>\<open>int(math.Max(float64(a), float64(b)))\<close> and the same with \<^verbatim>\<open>math.Min\<close>.\<close>

definition max_f64 :: "int \<Rightarrow> int \<Rightarrow> int" where
  "max_f64 a b = max (f64 a) (f64 b)"

definition min_f64 :: "int \<Rightarrow> int \<Rightarrow> int" where
  "min_f64 a b = min (f64 a) (f64 b)"

lemma max_f64_exact [simp]:
  "\<bar>a\<bar> \<le> 2 ^ 53 \<Longrightarrow> \<bar>b\<bar> \<le> 2 ^ 53 \<Longrightarrow> max_f64 a b = max a b"
  by (simp add: max_f64_def)

lemma min_f64_exact [simp]:
  "\<bar>a\<bar> \<le> 2 ^ 53 \<Longrightarrow> \<bar>b\<bar> \<le> 2 ^ 53 \<Longrightarrow> min_f64 a b = min a b"
  by (simp add: min_f64_def)

subsection \<open>Lists and maps\<close>

text \<open>The default of a Go map read: the zero value where the key is absent.\<close>

definition map_get :: "'v \<Rightarrow> ('k \<rightharpoonup> 'v) \<Rightarrow> 'k \<Rightarrow> 'v" where
  "map_get d m k = (case m k of None \<Rightarrow> d | Some v \<Rightarrow> v)"

lemma map_get_upd [simp]: "map_get d (m(k \<mapsto> v)) k' = (if k' = k then v else map_get d m k')"
  by (simp add: map_get_def)

lemma map_get_empty [simp]: "map_get d Map.empty k = d"
  by (simp add: map_get_def)

lemma map_get_None [simp]: "m k = None \<Longrightarrow> map_get d m k = d"
  by (simp add: map_get_def)

lemma map_get_Some [simp]: "m k = Some v \<Longrightarrow> map_get d m k = v"
  by (simp add: map_get_def)

text \<open>Exchange of two elements.\<close>

definition list_swap :: "'a list \<Rightarrow> nat \<Rightarrow> nat \<Rightarrow> 'a list" where
  "list_swap xs i j = xs[i := xs ! j, j := xs ! i]"

lemma length_list_swap [simp]: "length (list_swap xs i j) = length xs"
  by (simp add: list_swap_def)

lemma nth_list_swap:
  "i < length xs \<Longrightarrow> j < length xs \<Longrightarrow> k < length xs \<Longrightarrow>
   list_swap xs i j ! k = (if k = j then xs ! i else if k = i then xs ! j else xs ! k)"
  by (simp add: list_swap_def nth_list_update)

lemma list_swap_same [simp]: "i < length xs \<Longrightarrow> list_swap xs i i = xs"
  by (simp add: list_swap_def)

end
