(* ===== verification/Go_Heap.thy ===== *)
theory Go_Heap
  imports Prelude "HOL-Library.Multiset"
begin

section \<open>The standard library's container/heap\<close>

text \<open>
  The multicast demo keeps its hold-back queue in a slice that \<^verbatim>\<open>container/heap\<close> of Go's
  standard library orders through the five methods of \<^verbatim>\<open>heap.Interface\<close>. The routines are
  written once here, over the methods as arguments, as the library writes them: \<open>heap_up\<close>
  and \<open>heap_down\<close> are its loops, \<open>heap_Push\<close>, \<open>heap_Pop\<close>, \<open>heap_Remove\<close> and \<open>heap_Fix\<close>
  its exported functions. The locale \<open>heap_interface\<close> states what an implementation of the
  interface promises, and shows that the routines then keep the heap order, the contents and
  the least element at the root.
\<close>

subsection \<open>The routines\<close>

function heap_up ::
  "('h \<Rightarrow> nat \<Rightarrow> nat \<Rightarrow> bool) \<Rightarrow> ('h \<Rightarrow> nat \<Rightarrow> nat \<Rightarrow> 'h) \<Rightarrow> 'h \<Rightarrow> nat \<Rightarrow> 'h" where
  "heap_up lt swp h j =
     (let i = (j - 1) div 2
      in if i = j \<or> \<not> lt h j i then h else heap_up lt swp (swp h i j) i)"
  by pat_completeness auto
termination
  by (relation "measure (\<lambda>(lt, swp, h, j). j)") auto

declare heap_up.simps [simp del]

text \<open>The loop of \<^verbatim>\<open>down\<close>: it returns the heap and the index where it stopped.\<close>

function heap_down_loop ::
  "('h \<Rightarrow> nat \<Rightarrow> nat \<Rightarrow> bool) \<Rightarrow> ('h \<Rightarrow> nat \<Rightarrow> nat \<Rightarrow> 'h) \<Rightarrow> 'h \<Rightarrow> nat \<Rightarrow> nat \<Rightarrow> 'h \<times> nat" where
  "heap_down_loop lt swp h i n =
     (let j1 = 2 * i + 1
      in if j1 \<ge> n then (h, i)
         else let j = (if j1 + 1 < n \<and> lt h (j1 + 1) j1 then j1 + 1 else j1)
              in if \<not> lt h j i then (h, i)
                 else heap_down_loop lt swp (swp h i j) j n)"
  by pat_completeness auto
termination
  by (relation "measure (\<lambda>(lt, swp, h, i, n). n - i)") auto

declare heap_down_loop.simps [simp del]

definition heap_down ::
  "('h \<Rightarrow> nat \<Rightarrow> nat \<Rightarrow> bool) \<Rightarrow> ('h \<Rightarrow> nat \<Rightarrow> nat \<Rightarrow> 'h) \<Rightarrow> 'h \<Rightarrow> nat \<Rightarrow> nat \<Rightarrow> 'h \<times> bool" where
  "heap_down lt swp h i0 n = (let (h', i) = heap_down_loop lt swp h i0 n in (h', i > i0))"

definition heap_Push where
  "heap_Push len lt swp push h x = (let h' = push h x in heap_up lt swp h' (len h' - 1))"

definition heap_Pop where
  "heap_Pop len lt swp pop h =
     (let n = len h - 1; h' = swp h 0 n
      in pop (fst (heap_down lt swp h' 0 n)))"

definition heap_Fix where
  "heap_Fix len lt swp h i =
     (let (h', moved) = heap_down lt swp h i (len h)
      in if moved then h' else heap_up lt swp h' i)"

definition heap_Remove where
  "heap_Remove len lt swp pop h i =
     (let n = len h - 1
      in pop (if n \<noteq> i
              then (let (h', moved) = heap_down lt swp (swp h i n) i n
                    in if moved then h' else heap_up lt swp h' i)
              else h))"

text \<open>Whatever the methods do, exchanges that keep the length keep it through the loops.\<close>

lemma heap_up_len:
  assumes "\<And>h i j. len (swp h i j) = len h"
  shows "len (heap_up lt swp h j) = len h"
proof (induction j arbitrary: h rule: less_induct)
  case (less j)
  show ?case
    using less [of "(j - 1) div 2"] assms by (subst heap_up.simps) (auto simp: Let_def not_le)
qed

lemma heap_down_len:
  assumes "\<And>h i j. len (swp h i j) = len h"
  shows "len (fst (heap_down lt swp h i n)) = len h"
proof -
  have "len (fst (heap_down_loop lt swp h i n)) = len h" for i
  proof (induction "n - i" arbitrary: h i rule: less_induct)
    case less
    show ?case using less assms by (subst heap_down_loop.simps) (auto simp: Let_def)
  qed
  then show ?thesis by (simp add: heap_down_def split: prod.split)  (metis fst_conv)
qed

subsection \<open>Heap order on a list\<close>

definition parent :: "nat \<Rightarrow> nat" where
  "parent c = (c - 1) div 2"

lemma parent_less: "0 < c \<Longrightarrow> parent c < c"
  by (simp add: parent_def)

lemma parent_le: "parent c \<le> c"
  by (simp add: parent_def)

lemma parent_zero [simp]: "parent 0 = 0"
  by (simp add: parent_def)

lemma parent_eq_iff: "0 < c \<Longrightarrow> parent c = i \<longleftrightarrow> c = 2 * i + 1 \<or> c = 2 * i + 2"
  by (auto simp: parent_def)


definition heap_ok :: "('x \<Rightarrow> 'k::linorder) \<Rightarrow> 'x list \<Rightarrow> nat \<Rightarrow> bool" where
  "heap_ok key xs n \<longleftrightarrow> (\<forall>c. 0 < c \<and> c < n \<longrightarrow> key (xs ! parent c) \<le> key (xs ! c))"

text \<open>The order may fail between \<open>i\<close> and its children only.\<close>

definition heap_ok_down :: "('x \<Rightarrow> 'k::linorder) \<Rightarrow> 'x list \<Rightarrow> nat \<Rightarrow> nat \<Rightarrow> bool" where
  "heap_ok_down key xs n i \<longleftrightarrow> (\<forall>c. 0 < c \<and> c < n \<longrightarrow>
     (parent c \<noteq> i \<longrightarrow> key (xs ! parent c) \<le> key (xs ! c)) \<and>
     (parent c = i \<and> 0 < i \<longrightarrow> key (xs ! parent i) \<le> key (xs ! c)))"

text \<open>The order may fail between \<open>i\<close> and its parent only.\<close>

definition heap_ok_up :: "('x \<Rightarrow> 'k::linorder) \<Rightarrow> 'x list \<Rightarrow> nat \<Rightarrow> nat \<Rightarrow> bool" where
  "heap_ok_up key xs n i \<longleftrightarrow> (\<forall>c. 0 < c \<and> c < n \<longrightarrow>
     (c \<noteq> i \<longrightarrow> key (xs ! parent c) \<le> key (xs ! c)) \<and>
     (parent c = i \<and> 0 < i \<longrightarrow> key (xs ! parent i) \<le> key (xs ! c)))"

text \<open>The order may fail on both sides of \<open>i\<close>.\<close>

definition heap_ok_at :: "('x \<Rightarrow> 'k::linorder) \<Rightarrow> 'x list \<Rightarrow> nat \<Rightarrow> nat \<Rightarrow> bool" where
  "heap_ok_at key xs n i \<longleftrightarrow> (\<forall>c. 0 < c \<and> c < n \<longrightarrow>
     (c \<noteq> i \<and> parent c \<noteq> i \<longrightarrow> key (xs ! parent c) \<le> key (xs ! c)) \<and>
     (parent c = i \<and> 0 < i \<longrightarrow> key (xs ! parent i) \<le> key (xs ! c)))"

lemma heap_ok_imp_at: "heap_ok key xs n \<Longrightarrow> heap_ok_at key xs n i"
  unfolding heap_ok_def heap_ok_at_def
proof (intro allI impI conjI)
  fix c
  assume h: "\<forall>c. 0 < c \<and> c < n \<longrightarrow> key (xs ! parent c) \<le> key (xs ! c)"
    and c: "0 < c \<and> c < n"
  show "key (xs ! parent c) \<le> key (xs ! c)" using h c by blast
  assume i: "parent c = i \<and> 0 < i"
  then have "0 < i \<and> i < n" using c parent_less [of c] by linarith
  then have "key (xs ! parent i) \<le> key (xs ! i)" using h by blast
  moreover have "key (xs ! i) \<le> key (xs ! c)" using h c i by blast
  ultimately show "key (xs ! parent i) \<le> key (xs ! c)" by simp
qed

lemma heap_ok_at_update:
  "heap_ok_at key xs n i \<Longrightarrow> n \<le> length xs \<Longrightarrow> heap_ok_at key (xs[i := x]) n i"
  unfolding heap_ok_at_def
proof (intro allI impI conjI)
  fix c
  assume h: "\<forall>c. 0 < c \<and> c < n \<longrightarrow>
      (c \<noteq> i \<and> parent c \<noteq> i \<longrightarrow> key (xs ! parent c) \<le> key (xs ! c)) \<and>
      (parent c = i \<and> 0 < i \<longrightarrow> key (xs ! parent i) \<le> key (xs ! c))"
    and c: "0 < c \<and> c < n"
  show "key (xs[i := x] ! parent c) \<le> key (xs[i := x] ! c)" if "c \<noteq> i \<and> parent c \<noteq> i"
    using h c that by simp
  assume i: "parent c = i \<and> 0 < i"
  then have "i \<noteq> c" "parent i \<noteq> i" using c parent_less [of c] parent_less [of i] by linarith+
  then show "key (xs[i := x] ! parent i) \<le> key (xs[i := x] ! c)"
    using h c i by simp
qed

lemma heap_ok_root_le:
  "heap_ok key xs n \<Longrightarrow> c < n \<Longrightarrow> key (xs ! 0) \<le> key (xs ! c)"
proof (induction c rule: less_induct)
  case (less c)
  show ?case
  proof (cases "c = 0")
    case False
    then have "parent c < c" "parent c < n" using less.prems parent_less [of c] by linarith+
    then have "key (xs ! 0) \<le> key (xs ! parent c)" using less by blast
    also have "\<dots> \<le> key (xs ! c)" using less.prems False by (simp add: heap_ok_def)
    finally show ?thesis .
  qed simp
qed

lemma heap_ok_take: "heap_ok key xs n \<Longrightarrow> m \<le> n \<Longrightarrow> heap_ok key xs m"
  by (simp add: heap_ok_def)

lemma heap_ok_butlast:
  assumes l: "length xs = Suc n" and ok: "heap_ok key xs n"
  shows "heap_ok key (butlast xs) n"
  unfolding heap_ok_def
proof (intro allI impI)
  fix c assume c: "0 < c \<and> c < n"
  then have "parent c < n" using parent_less [of c] by linarith
  then show "key (butlast xs ! parent c) \<le> key (butlast xs ! c)"
    using ok c l by (simp add: heap_ok_def nth_butlast)
qed

subsection \<open>One exchange\<close>

lemma heap_ok_up_swap:
  assumes h: "heap_ok_up key xs n j" and j: "0 < j" "j < n" "n \<le> length xs"
    and lt: "key (xs ! j) < key (xs ! parent j)"
  shows "heap_ok_up key (list_swap xs (parent j) j) n (parent j)"
proof -
  let ?p = "parent j"
  let ?ys = "list_swap xs ?p j"
  have p: "?p < j" "?p < length xs" "j < length xs" using j parent_less [of j] by linarith+
  have nth: "k < n \<Longrightarrow> ?ys ! k = (if k = j then xs ! ?p else if k = ?p then xs ! j else xs ! k)"
    for k using p j by (simp add: nth_list_swap)
  have ok: "0 < c \<Longrightarrow> c < n \<Longrightarrow> c \<noteq> j \<Longrightarrow> key (xs ! parent c) \<le> key (xs ! c)" for c
    using h by (simp add: heap_ok_up_def)
  have ok2: "0 < c \<Longrightarrow> c < n \<Longrightarrow> parent c = j \<Longrightarrow> key (xs ! ?p) \<le> key (xs ! c)" for c
    using h j by (simp add: heap_ok_up_def)
  show ?thesis
    unfolding heap_ok_up_def
  proof (intro allI impI conjI)
    fix c assume c: "0 < c \<and> c < n" and cp: "c \<noteq> ?p"
    have q: "parent c < c" "parent c < n" using c parent_less [of c] by linarith+
    show "key (?ys ! parent c) \<le> key (?ys ! c)"
    proof (cases "c = j")
      case True
      then show ?thesis using lt p c q by (simp add: nth)
    next
      case False
      then show ?thesis
        using ok [of c] ok2 [of c] c q lt p cp by (auto simp: nth intro: order_trans less_imp_le)
    qed
  next
    fix c assume c: "0 < c \<and> c < n" and cp: "parent c = ?p \<and> 0 < ?p"
    have g: "parent ?p < ?p" "?p < n" using cp p j parent_less [of ?p] by linarith+
    then have gp: "key (xs ! parent ?p) \<le> key (xs ! ?p)" using ok [of ?p] cp p by simp
    have "?p < c" using c cp parent_less [of c] by linarith
    then show "key (?ys ! parent ?p) \<le> key (?ys ! c)"
      using gp g c cp p ok [of c] by (auto simp: nth intro: order_trans)
  qed
qed

lemma heap_ok_down_swap:
  assumes h: "heap_ok_at key xs n i" and j: "0 < j" "parent j = i" "j < n" "n \<le> length xs"
    and least: "\<And>c. 0 < c \<Longrightarrow> c < n \<Longrightarrow> parent c = i \<Longrightarrow> key (xs ! j) \<le> key (xs ! c)"
    and lt: "key (xs ! j) < key (xs ! i)"
  shows "heap_ok_down key (list_swap xs i j) n j"
proof -
  let ?ys = "list_swap xs i j"
  have i: "i < j" "i < length xs" "j < length xs" using j parent_less [of j] by linarith+
  have nth: "k < n \<Longrightarrow> ?ys ! k = (if k = j then xs ! i else if k = i then xs ! j else xs ! k)"
    for k using i j by (simp add: nth_list_swap)
  have ok: "0 < c \<Longrightarrow> c < n \<Longrightarrow> c \<noteq> i \<Longrightarrow> parent c \<noteq> i \<Longrightarrow>
      key (xs ! parent c) \<le> key (xs ! c)" for c
    using h by (simp add: heap_ok_at_def)
  have up: "0 < i \<Longrightarrow> key (xs ! parent i) \<le> key (xs ! j)"
    using h j by (simp add: heap_ok_at_def)
  show ?thesis
    unfolding heap_ok_down_def
  proof (intro allI impI conjI)
    fix c assume c: "0 < c \<and> c < n" and cj: "parent c \<noteq> j"
    have q: "parent c < c" "parent c < n" using c parent_less [of c] by linarith+
    show "key (?ys ! parent c) \<le> key (?ys ! c)"
    proof (cases "parent c = i")
      case True
      then show ?thesis using least [of c] lt c q i by (auto simp: nth)
    next
      case False
      then show ?thesis using up ok [of c] c q i cj j by (auto simp: nth)
    qed
  next
    fix c assume c: "0 < c \<and> c < n" and cj: "parent c = j \<and> 0 < j"
    then have "j < c" using parent_less [of c] by linarith
    then show "key (?ys ! parent j) \<le> key (?ys ! c)"
      using ok [of c] c cj i j by (auto simp: nth)
  qed
qed

lemma heap_ok_down_imp_at: "heap_ok_down key xs n i \<Longrightarrow> heap_ok_at key xs n i"
  by (simp add: heap_ok_down_def heap_ok_at_def)

lemma heap_ok_at_stop:
  assumes "heap_ok_at key xs n i"
    and "\<And>c. 0 < c \<Longrightarrow> c < n \<Longrightarrow> parent c = i \<Longrightarrow> key (xs ! i) \<le> key (xs ! c)"
  shows "heap_ok_up key xs n i"
  using assms unfolding heap_ok_at_def heap_ok_up_def by metis

lemma heap_ok_down_stop:
  assumes "heap_ok_down key xs n i"
    and "\<And>c. 0 < c \<Longrightarrow> c < n \<Longrightarrow> parent c = i \<Longrightarrow> key (xs ! i) \<le> key (xs ! c)"
  shows "heap_ok key xs n"
  using assms unfolding heap_ok_down_def heap_ok_def by metis

lemma heap_ok_up_stop:
  assumes "heap_ok_up key xs n j"
    and "0 < j \<Longrightarrow> j < n \<Longrightarrow> key (xs ! parent j) \<le> key (xs ! j)"
  shows "heap_ok key xs n"
  using assms unfolding heap_ok_up_def heap_ok_def by metis

text \<open>After the exchange with the last place, which \<^verbatim>\<open>Pop\<close> and \<^verbatim>\<open>Remove\<close> start with.\<close>

lemma heap_ok_at_swap_last:
  assumes h: "heap_ok key xs (Suc n)" and i: "i \<le> n" "n < length xs"
  shows "heap_ok_at key (list_swap xs i n) n i"
proof -
  have at: "heap_ok_at key (xs[i := xs ! n]) n i"
    using heap_ok_imp_at [OF heap_ok_take [OF h], of n i] heap_ok_at_update i by fastforce
  have "list_swap xs i n ! k = xs[i := xs ! n] ! k" if "k < n" for k
    using that i by (simp add: list_swap_def)
  moreover have "parent c < n" if "c < n" for c
    using that parent_le [of c] by linarith
  moreover have "parent i < n" if "c < n" "parent c = i" "0 < i" for c
    using that parent_le [of c] parent_less [of i] by linarith
  ultimately show ?thesis using at unfolding heap_ok_at_def by (metis (no_types, lifting))
qed

lemma mset_list_swap: "i < length xs \<Longrightarrow> j < length xs \<Longrightarrow> mset (list_swap xs i j) = mset xs"
  by (simp add: list_swap_def mset_swap)

lemma drop_list_swap: "i < n \<Longrightarrow> j < n \<Longrightarrow> drop n (list_swap xs i j) = drop n xs"
  by (simp add: list_swap_def)

subsection \<open>What an implementation of the interface promises\<close>

text \<open>
  \<open>elems\<close> reads the slice as a list, \<open>key\<close> is the order \<open>Less\<close> decides, \<open>strip\<close> forgets
  what the implementation stores in an element for its own bookkeeping, and \<open>wf\<close> is the
  bookkeeping invariant that every method keeps.
\<close>

locale heap_interface =
  fixes Len :: "'h \<Rightarrow> nat"
    and Less :: "'h \<Rightarrow> nat \<Rightarrow> nat \<Rightarrow> bool"
    and Swap :: "'h \<Rightarrow> nat \<Rightarrow> nat \<Rightarrow> 'h"
    and Push :: "'h \<Rightarrow> 'm \<Rightarrow> 'h"
    and Pop :: "'h \<Rightarrow> 'h \<times> 'm"
    and elems :: "'h \<Rightarrow> 'x list"
    and strip :: "'m \<Rightarrow> 'x"
    and key :: "'x \<Rightarrow> 'k::linorder"
    and wf :: "'h \<Rightarrow> bool"
  assumes Len_elems: "Len h = length (elems h)"
    and Less_key: "i < Len h \<Longrightarrow> j < Len h \<Longrightarrow> Less h i j \<longleftrightarrow> key (elems h ! i) < key (elems h ! j)"
    and elems_Swap: "i < Len h \<Longrightarrow> j < Len h \<Longrightarrow> elems (Swap h i j) = list_swap (elems h) i j"
    and wf_Swap: "wf h \<Longrightarrow> i < Len h \<Longrightarrow> j < Len h \<Longrightarrow> wf (Swap h i j)"
    and elems_Push: "elems (Push h x) = elems h @ [strip x]"
    and wf_Push: "wf h \<Longrightarrow> wf (Push h x)"
    and elems_Pop: "elems h \<noteq> [] \<Longrightarrow> elems (fst (Pop h)) = butlast (elems h)"
    and strip_Pop: "elems h \<noteq> [] \<Longrightarrow> strip (snd (Pop h)) = last (elems h)"
    and wf_Pop: "wf h \<Longrightarrow> elems h \<noteq> [] \<Longrightarrow> wf (fst (Pop h))"
begin

lemma Len_Swap [simp]: "i < Len h \<Longrightarrow> j < Len h \<Longrightarrow> Len (Swap h i j) = Len h"
  by (simp add: Len_elems elems_Swap)

text \<open>A run of exchanges inside the first \<open>n\<close> places keeps the contents and the rest.\<close>

definition rearranged :: "nat \<Rightarrow> 'h \<Rightarrow> 'h \<Rightarrow> bool" where
  "rearranged n h h' \<longleftrightarrow>
     mset (elems h') = mset (elems h) \<and> drop n (elems h') = drop n (elems h) \<and> (wf h \<longrightarrow> wf h')"

lemma rearranged_refl [simp]: "rearranged n h h"
  by (simp add: rearranged_def)

lemma rearranged_trans: "rearranged n h1 h2 \<Longrightarrow> rearranged n h2 h3 \<Longrightarrow> rearranged n h1 h3"
  by (simp add: rearranged_def)

lemma rearranged_Len: "rearranged n h h' \<Longrightarrow> Len h' = Len h"
  by (metis rearranged_def Len_elems size_mset)

lemma rearranged_Swap:
  "i < n \<Longrightarrow> j < n \<Longrightarrow> n \<le> Len h \<Longrightarrow> rearranged n h (Swap h i j)"
  by (simp add: rearranged_def elems_Swap mset_list_swap drop_list_swap wf_Swap Len_elems)

lemma heap_up_correct:
  assumes "heap_ok_up key (elems h) n j" "j < n" "n \<le> Len h"
  shows "heap_ok key (elems (heap_up Less Swap h j)) n \<and> rearranged n h (heap_up Less Swap h j)"
  using assms
proof (induction j arbitrary: h rule: less_induct)
  case (less j)
  have eq: "heap_up Less Swap h j =
      (if parent j = j \<or> \<not> Less h j (parent j) then h
       else heap_up Less Swap (Swap h (parent j) j) (parent j))"
    by (subst heap_up.simps) (simp add: parent_def Let_def)
  have b: "parent j \<le> j" "parent j < Len h" "j < Len h"
    using less.prems parent_le [of j] by linarith+
  show ?case
  proof (cases "parent j = j \<or> \<not> Less h j (parent j)")
    case True
    have "heap_ok key (elems h) n"
      using less.prems(1)
    proof (rule heap_ok_up_stop)
      assume "0 < j"
      then have "\<not> Less h j (parent j)" using True parent_less [of j] by simp
      then show "key (elems h ! parent j) \<le> key (elems h ! j)" using b by (simp add: Less_key)
    qed
    with True show ?thesis by (simp add: eq)
  next
    case False
    then have "0 < j" by (auto intro: gr0I)
    then have j: "0 < j" "parent j < j" using parent_less by blast+
    from False have lt: "key (elems h ! j) < key (elems h ! parent j)" using b Less_key by blast
    let ?h = "Swap h (parent j) j"
    have "heap_ok_up key (elems ?h) n (parent j)"
      using heap_ok_up_swap [OF less.prems(1) j(1) less.prems(2) _ lt] less.prems(3) b
      by (simp add: elems_Swap Len_elems)
    then have "heap_ok key (elems (heap_up Less Swap ?h (parent j))) n \<and>
        rearranged n ?h (heap_up Less Swap ?h (parent j))"
      using less.IH [of "parent j" ?h] j less.prems b by simp
    moreover have "rearranged n h ?h" using rearranged_Swap less.prems j b by simp
    ultimately show ?thesis using False by (auto simp: eq intro: rearranged_trans)
  qed
qed

lemma heap_down_step:
  assumes n: "n \<le> Len h" and i: "i < Len h"
  obtains (stop) "heap_down_loop Less Swap h i n = (h, i)"
      "\<And>c. 0 < c \<Longrightarrow> c < n \<Longrightarrow> parent c = i \<Longrightarrow> key (elems h ! i) \<le> key (elems h ! c)"
    | (move) j where "0 < j" "parent j = i" "j < n"
      "\<And>c. 0 < c \<Longrightarrow> c < n \<Longrightarrow> parent c = i \<Longrightarrow> key (elems h ! j) \<le> key (elems h ! c)"
      "key (elems h ! j) < key (elems h ! i)"
      "heap_down_loop Less Swap h i n = heap_down_loop Less Swap (Swap h i j) j n"
proof -
  define j where "j = (if 2 * i + 2 < n \<and> Less h (2 * i + 2) (2 * i + 1) then 2 * i + 2 else 2 * i + 1)"
  have eq: "heap_down_loop Less Swap h i n =
      (if 2 * i + 1 \<ge> n \<or> \<not> Less h j i then (h, i) else heap_down_loop Less Swap (Swap h i j) j n)"
    by (subst heap_down_loop.simps) (simp add: j_def Let_def)
  show thesis
  proof (cases "2 * i + 1 \<ge> n")
    case True
    then show thesis by (intro stop) (auto simp: eq parent_eq_iff)
  next
    case False
    have j: "0 < j" "parent j = i" "j < n" using False by (auto simp: j_def parent_def)
    have least: "key (elems h ! j) \<le> key (elems h ! c)" if "0 < c" "c < n" "parent c = i" for c
      using that False n i by (auto simp: parent_eq_iff j_def Less_key)
    have lt: "Less h j i \<longleftrightarrow> key (elems h ! j) < key (elems h ! i)" using j n i by (simp add: Less_key)
    show thesis
    proof (cases "Less h j i")
      case True
      then show thesis using False lt by (intro move [OF j least]) (simp_all add: eq)
    next
      case False
      then have "key (elems h ! i) \<le> key (elems h ! j)" using lt by simp
      then show thesis using False least by (intro stop) (auto simp: eq intro: order_trans)
    qed
  qed
qed

lemma heap_down_move:
  assumes at: "heap_ok_at key (elems h) n i" and n: "n \<le> Len h"
    and j: "0 < j" "parent j = i" "j < n"
    and least: "\<And>c. 0 < c \<Longrightarrow> c < n \<Longrightarrow> parent c = i \<Longrightarrow> key (elems h ! j) \<le> key (elems h ! c)"
    and lt: "key (elems h ! j) < key (elems h ! i)"
  shows "heap_ok_down key (elems (Swap h i j)) n j"
proof -
  have "i < j" using j parent_less by blast
  then have eq: "elems (Swap h i j) = list_swap (elems h) i j" using j n by (simp add: elems_Swap)
  have len: "n \<le> length (elems h)" using n by (simp add: Len_elems)
  show ?thesis unfolding eq by (rule heap_ok_down_swap [OF at j len least lt])
qed

lemma heap_down_loop_correct:
  assumes "heap_ok_down key (elems h) n i" "i < Len h" "n \<le> Len h"
    and "heap_down_loop Less Swap h i n = (h', i')"
  shows "heap_ok key (elems h') n \<and> rearranged n h h' \<and> i \<le> i'"
  using assms
proof (induction "n - i" arbitrary: h i rule: less_induct)
  case less
  from less.prems(3,2) show ?case
  proof (cases rule: heap_down_step)
    case stop
    then have "h' = h" "i' = i" using less.prems(4) by simp_all
    moreover have "heap_ok key (elems h) n" using less.prems(1) stop(2) by (rule heap_ok_down_stop)
    ultimately show ?thesis by simp
  next
    case (move j)
    have ij: "i < j" using move parent_less by blast
    have "heap_ok_down key (elems (Swap h i j)) n j"
      using heap_down_move [OF heap_ok_down_imp_at [OF less.prems(1)] less.prems(3) move(1-5)] .
    moreover have "heap_down_loop Less Swap (Swap h i j) j n = (h', i')"
      using move(6) less.prems(4) by simp
    ultimately have "heap_ok key (elems h') n \<and> rearranged n (Swap h i j) h' \<and> j \<le> i'"
      using less.hyps [of j "Swap h i j"] less.prems move(3) ij by simp
    moreover have "rearranged n h (Swap h i j)" using rearranged_Swap less.prems(3) ij move(3) by simp
    ultimately show ?thesis using ij by (auto intro: rearranged_trans)
  qed
qed

text \<open>
  \<^verbatim>\<open>down\<close> from an index whose element is arbitrary: either it moves and repairs the order, or
  the order can fail towards the parent only.
\<close>

lemma heap_down_correct:
  assumes at: "heap_ok_at key (elems h) n i" "i < Len h" "n \<le> Len h"
    and eq: "heap_down Less Swap h i n = (h', moved)"
  shows "rearranged n h h' \<and>
         (if moved then heap_ok key (elems h') n else h' = h \<and> heap_ok_up key (elems h) n i)"
  using at(3,2)
proof (cases rule: heap_down_step)
  case stop
  then show ?thesis using eq heap_ok_at_stop [OF at(1)] by (auto simp: heap_down_def)
next
  case (move j)
  obtain i' where i': "heap_down_loop Less Swap (Swap h i j) j n = (h', i')" "moved \<longleftrightarrow> i < i'"
    using eq move(6) by (auto simp: heap_down_def split: prod.splits)
  have ij: "i < j" using move parent_less by blast
  have "heap_ok_down key (elems (Swap h i j)) n j"
    using heap_down_move [OF at(1,3) move(1-5)] .
  then have "heap_ok key (elems h') n \<and> rearranged n (Swap h i j) h' \<and> j \<le> i'"
    using heap_down_loop_correct [OF _ _ _ i'(1)] at move(3) ij by simp
  moreover have "rearranged n h (Swap h i j)" using rearranged_Swap at(3) ij move(3) by simp
  ultimately show ?thesis using i'(2) ij by (auto intro: rearranged_trans)
qed

text \<open>\<^verbatim>\<open>down\<close>, and \<^verbatim>\<open>up\<close> where it did not move: the repair step of \<^verbatim>\<open>Fix\<close> and \<^verbatim>\<open>Remove\<close>.\<close>

lemma heap_repair:
  assumes "heap_ok_at key (elems h) n i" "i < n" "n \<le> Len h"
    and "heap_down Less Swap h i n = (h', moved)"
  shows "rearranged n h (if moved then h' else heap_up Less Swap h' i) \<and>
         heap_ok key (elems (if moved then h' else heap_up Less Swap h' i)) n"
  using heap_down_correct [OF assms(1) _ assms(3,4)] heap_up_correct [of h' n i] assms(2,3)
  by (auto split: if_splits)

lemma heap_Fix_correct:
  assumes "heap_ok_at key (elems h) (Len h) i" "i < Len h"
  shows "rearranged (Len h) h (heap_Fix Len Less Swap h i) \<and>
         heap_ok key (elems (heap_Fix Len Less Swap h i)) (Len h)"
  using heap_repair [OF assms order_refl] by (auto simp: heap_Fix_def split: prod.split)

lemma heap_Push_correct:
  assumes ok: "heap_ok key (elems h) (Len h)"
  shows "heap_ok key (elems (heap_Push Len Less Swap Push h x)) (Suc (Len h))"
    and "mset (elems (heap_Push Len Less Swap Push h x)) = add_mset (strip x) (mset (elems h))"
    and "wf h \<Longrightarrow> wf (heap_Push Len Less Swap Push h x)"
proof -
  let ?h = "Push h x"
  have len: "Len ?h = Suc (Len h)" by (simp add: Len_elems elems_Push)
  have "heap_ok_up key (elems ?h) (Suc (Len h)) (Len h)"
    unfolding heap_ok_up_def
  proof (intro allI impI conjI)
    fix c assume c: "0 < c \<and> c < Suc (Len h)"
    have "parent c < Len h" using c parent_less [of c] by linarith
    then show "key (elems ?h ! parent c) \<le> key (elems ?h ! c)" if "c \<noteq> Len h"
      using ok c that by (simp add: heap_ok_def elems_Push nth_append Len_elems)
    show "key (elems ?h ! parent (Len h)) \<le> key (elems ?h ! c)" if "parent c = Len h \<and> 0 < Len h"
      using that \<open>parent c < Len h\<close> by simp
  qed
  then have "heap_ok key (elems (heap_up Less Swap ?h (Len h))) (Suc (Len h)) \<and>
      rearranged (Suc (Len h)) ?h (heap_up Less Swap ?h (Len h))"
    using heap_up_correct [of ?h "Suc (Len h)" "Len h"] len by simp
  then show "heap_ok key (elems (heap_Push Len Less Swap Push h x)) (Suc (Len h))"
    and "mset (elems (heap_Push Len Less Swap Push h x)) = add_mset (strip x) (mset (elems h))"
    and "wf h \<Longrightarrow> wf (heap_Push Len Less Swap Push h x)"
    by (simp_all add: heap_Push_def Let_def len rearranged_def elems_Push wf_Push)
qed

text \<open>\<^verbatim>\<open>Pop\<close> of the interface after the first \<open>n\<close> of \<open>n + 1\<close> places have been rearranged.\<close>

lemma Pop_rearranged:
  assumes r: "rearranged n h h'" and n: "Len h = Suc n" and ok: "heap_ok key (elems h') n"
  shows "strip (snd (Pop h')) = elems h ! n"
    and "heap_ok key (elems (fst (Pop h'))) n" and "Len (fst (Pop h')) = n"
    and "mset (elems h) = add_mset (elems h ! n) (mset (elems (fst (Pop h'))))"
    and "wf h \<Longrightarrow> wf (fst (Pop h'))"
proof -
  have l: "length (elems h') = Suc n" "length (elems h) = Suc n"
    using rearranged_Len [OF r] n by (simp_all add: Len_elems)
  then have ne: "elems h' \<noteq> []" by auto
  have "drop n (elems h') = drop n (elems h)" using r by (simp add: rearranged_def)
  then have nth: "elems h' ! n = elems h ! n"
    using l by (metis Cons_nth_drop_Suc lessI list.inject)
  have last: "last (elems h') = elems h ! n" using ne l nth by (simp add: last_conv_nth)
  have elems: "elems (fst (Pop h')) = butlast (elems h')" using ne by (rule elems_Pop)
  show "strip (snd (Pop h')) = elems h ! n" using strip_Pop [OF ne] last by simp
  show "heap_ok key (elems (fst (Pop h'))) n"
    using heap_ok_butlast [OF l(1) ok] by (simp add: elems)
  show "Len (fst (Pop h')) = n" using l by (simp add: Len_elems elems)
  have "mset (elems h') = add_mset (last (elems h')) (mset (butlast (elems h')))"
    using ne by (metis append_butlast_last_id mset_append mset_single_iff_right union_mset_add_mset_right
        add.right_neutral mset.simps)
  then show "mset (elems h) = add_mset (elems h ! n) (mset (elems (fst (Pop h'))))"
    using r by (simp add: rearranged_def elems last)
  show "wf (fst (Pop h'))" if "wf h" using that r wf_Pop ne by (simp add: rearranged_def)
qed

lemma heap_Pop_correct:
  assumes ok: "heap_ok key (elems h) (Len h)" and ne: "0 < Len h"
    and eq: "heap_Pop Len Less Swap Pop h = (h', x)"
  shows "strip x = elems h ! 0"
    and "heap_ok key (elems h') (Len h')" and "Len h = Suc (Len h')"
    and "mset (elems h) = add_mset (strip x) (mset (elems h'))"
    and "wf h \<Longrightarrow> wf h'"
proof -
  obtain n where n: "Len h = Suc n" using ne gr0_implies_Suc by blast
  let ?h = "Swap h 0 n"
  obtain h2 moved where d: "heap_down Less Swap ?h 0 n = (h2, moved)" by fastforce
  have lh: "Len ?h = Suc n" using n by simp
  have sw: "elems ?h = list_swap (elems h) 0 n" using n by (simp add: elems_Swap)
  have "heap_ok_at key (elems ?h) n 0"
    unfolding sw using heap_ok_at_swap_last ok n by (metis Len_elems le0 lessI)
  from heap_down_correct [OF this _ _ d] have r: "rearranged n ?h h2" and h2: "heap_ok key (elems h2) n"
    using lh heap_ok_up_stop by (auto split: if_splits)
  have pop: "h' = fst (Pop h2)" "x = snd (Pop h2)"
    using eq n d by (auto simp: heap_Pop_def Let_def)
  have m: "mset (elems ?h) = mset (elems h)" using n by (simp add: sw mset_list_swap Len_elems)
  have nth: "elems ?h ! n = elems h ! 0" using n by (simp add: sw nth_list_swap Len_elems)
  note P = Pop_rearranged [OF r lh h2]
  show "strip x = elems h ! 0" using P(1) nth pop by simp
  then show "mset (elems h) = add_mset (strip x) (mset (elems h'))" using P(4) nth m pop by simp
  show "heap_ok key (elems h') (Len h')" "Len h = Suc (Len h')" using P(2,3) n pop by simp_all
  show "wf h'" if "wf h" using P(5) that wf_Swap n pop by simp
qed

lemma heap_Remove_correct:
  assumes ok: "heap_ok key (elems h) (Len h)" and i: "i < Len h"
    and eq: "heap_Remove Len Less Swap Pop h i = (h', x)"
  shows "strip x = elems h ! i"
    and "heap_ok key (elems h') (Len h')" and "Len h = Suc (Len h')"
    and "mset (elems h) = add_mset (strip x) (mset (elems h'))"
    and "wf h \<Longrightarrow> wf h'"
proof -
  obtain n where n: "Len h = Suc n" using i by (cases "Len h") auto
  define h1 where "h1 = (if n \<noteq> i then Swap h i n else h)"
  define h2 where "h2 = (if n \<noteq> i then (let (g, moved) = heap_down Less Swap h1 i n
      in if moved then g else heap_up Less Swap g i) else h)"
  have lh: "Len h1 = Suc n" using n i by (simp add: h1_def)
  have "rearranged n h1 h2 \<and> heap_ok key (elems h2) n"
  proof (cases "n = i")
    case True
    then show ?thesis using ok n heap_ok_take by (fastforce simp: h1_def h2_def)
  next
    case False
    then have "elems h1 = list_swap (elems h) i n" using n i by (simp add: h1_def elems_Swap)
    then have "heap_ok_at key (elems h1) n i"
      using heap_ok_at_swap_last [of key "elems h" n i] ok n i by (simp add: Len_elems)
    then show ?thesis
      using heap_repair [of h1 n i] False i n lh by (auto simp: h2_def split: prod.split)
  qed
  then have r: "rearranged n h1 h2" and h2: "heap_ok key (elems h2) n" by simp_all
  have pop: "h' = fst (Pop h2)" "x = snd (Pop h2)"
    using eq n by (auto simp: heap_Remove_def h1_def h2_def Let_def)
  have m: "mset (elems h1) = mset (elems h)" and nth: "elems h1 ! n = elems h ! i"
    using n i by (simp_all add: h1_def elems_Swap mset_list_swap nth_list_swap Len_elems)
  note P = Pop_rearranged [OF r lh h2]
  show "strip x = elems h ! i" using P(1) nth pop by simp
  then show "mset (elems h) = add_mset (strip x) (mset (elems h'))" using P(4) nth m pop by simp
  show "heap_ok key (elems h') (Len h')" "Len h = Suc (Len h')" using P(2,3) n pop by simp_all
  show "wf h'" if "wf h" using P(5) that wf_Swap n i pop by (simp add: h1_def split: if_splits)
qed

end

end
