(* ===== verification/Message_PQ.thy ===== *)
theory Message_PQ
  imports Go_Heap
begin

section \<open>Multicast: messages and the hold-back queue\<close>

text \<open>
  \<^verbatim>\<open>multicast-demo/types/message.go\<close> and \<^verbatim>\<open>priority_queue.go\<close>. The queue is a slice of pointers
  to messages; no two places hold the same pointer and no pointer is kept elsewhere, so the
  slice is a list of message values and a pointer into it is a position. Every message stores
  its own position in \<open>Index\<close>; \<^verbatim>\<open>Update\<close> and \<^verbatim>\<open>Remove\<close> go through that field, as the code
  does, and \<open>pq_wf\<close> is the invariant that makes this right.
\<close>

subsection \<open>Messages\<close>

record Message =
  Id_m :: string
  Sender :: int
  Priority :: int
  Index :: int
  NodeId :: string
  RNodeId :: string
  Status :: string
  IsDeliverable :: bool
  IsDeposit :: bool
  Names :: "string list"
  Amount :: goint

text \<open>The order of delivery: priority first, then the number of the sending node.\<close>

datatype isis_key = Key (key_prio: int) (key_sender: int)

instantiation isis_key :: linorder
begin

definition less_eq_isis_key :: "isis_key \<Rightarrow> isis_key \<Rightarrow> bool" where
  "less_eq_isis_key a b \<longleftrightarrow>
     key_prio a < key_prio b \<or> key_prio a = key_prio b \<and> key_sender a \<le> key_sender b"

definition less_isis_key :: "isis_key \<Rightarrow> isis_key \<Rightarrow> bool" where
  "less_isis_key a b \<longleftrightarrow>
     key_prio a < key_prio b \<or> key_prio a = key_prio b \<and> key_sender a < key_sender b"

instance
  by standard (auto simp: less_eq_isis_key_def less_isis_key_def isis_key.expand)

end

lemma Key_less: "Key p s < Key q t \<longleftrightarrow> p < q \<or> p = q \<and> s < t"
  by (simp add: less_isis_key_def)

lemma Key_less_eq: "Key p s \<le> Key q t \<longleftrightarrow> p < q \<or> p = q \<and> s \<le> t"
  by (simp add: less_eq_isis_key_def)

definition msg_key :: "Message \<Rightarrow> isis_key" where
  "msg_key m = Key (Priority m) (Sender m)"

definition no_index :: "Message \<Rightarrow> Message" where
  "no_index m = m\<lparr>Index := 0\<rparr>"

lemma no_index_simps [simp]:
  "Id_m (no_index m) = Id_m m" "Sender (no_index m) = Sender m" "Priority (no_index m) = Priority m"
  "NodeId (no_index m) = NodeId m" "RNodeId (no_index m) = RNodeId m" "Status (no_index m) = Status m"
  "IsDeliverable (no_index m) = IsDeliverable m" "IsDeposit (no_index m) = IsDeposit m"
  "Names (no_index m) = Names m" "Amount (no_index m) = Amount m"
  "no_index (m\<lparr>Index := k\<rparr>) = no_index m" "msg_key (no_index m) = msg_key m"
  by (simp_all add: no_index_def msg_key_def)

subsection \<open>The methods of heap.Interface\<close>

type_synonym MessagePQ = "Message list"

definition pq_Len :: "MessagePQ \<Rightarrow> nat" where
  "pq_Len pq = length pq"

definition pq_Less :: "MessagePQ \<Rightarrow> nat \<Rightarrow> nat \<Rightarrow> bool" where
  "pq_Less pq i j =
     (if Priority (pq ! i) < Priority (pq ! j) \<or>
         (Priority (pq ! i) = Priority (pq ! j) \<and> Sender (pq ! i) < Sender (pq ! j))
      then True else False)"

definition pq_Swap :: "MessagePQ \<Rightarrow> nat \<Rightarrow> nat \<Rightarrow> MessagePQ" where
  "pq_Swap pq i j =
     (let pq1 = pq[i := pq ! j, j := pq ! i];
          pq2 = pq1[i := (pq1 ! i)\<lparr>Index := int i\<rparr>]
      in pq2[j := (pq2 ! j)\<lparr>Index := int j\<rparr>])"

definition pq_Push :: "MessagePQ \<Rightarrow> Message \<Rightarrow> MessagePQ" where
  "pq_Push pq x = (let n = length pq; msg = x\<lparr>Index := int n\<rparr> in pq @ [msg])"

text \<open>Called on a non-empty queue only; the code would panic on an empty one.\<close>

definition pq_Pop :: "MessagePQ \<Rightarrow> MessagePQ \<times> Message" where
  "pq_Pop pq = (let n = length pq; msg = (pq ! (n - 1))\<lparr>Index := - 1\<rparr> in (take (n - 1) pq, msg))"

text \<open>The position of the pointer that \<^verbatim>\<open>FindById\<close> returns; \<open>None\<close> is nil.\<close>

fun pq_FindById :: "MessagePQ \<Rightarrow> string \<Rightarrow> nat option" where
  "pq_FindById [] x = None"
| "pq_FindById (item # pq) x =
     (if Id_m item = x then Some 0 else map_option Suc (pq_FindById pq x))"

subsection \<open>Calls of container/heap\<close>

definition pq_heap_Push :: "MessagePQ \<Rightarrow> Message \<Rightarrow> MessagePQ" where
  "pq_heap_Push = heap_Push pq_Len pq_Less pq_Swap pq_Push"

definition pq_heap_Pop :: "MessagePQ \<Rightarrow> MessagePQ \<times> Message" where
  "pq_heap_Pop = heap_Pop pq_Len pq_Less pq_Swap pq_Pop"

text \<open>
  \<^verbatim>\<open>Update\<close> and \<^verbatim>\<open>Remove\<close> of the message at position \<open>k\<close>. An \<open>Index\<close> outside the slice makes
  \<^verbatim>\<open>heap.Fix\<close> and \<^verbatim>\<open>heap.Remove\<close> panic, but for \<^verbatim>\<open>heap.Fix(pq, -1)\<close>, which does nothing.
\<close>

definition pq_Update :: "MessagePQ \<Rightarrow> nat \<Rightarrow> int \<Rightarrow> MessagePQ result" where
  "pq_Update pq k priority =
     (let message = pq ! k; pq1 = pq[k := message\<lparr>Priority := priority\<rparr>]; i = Index message
      in if i = - 1 then Inr pq1
         else if i < 0 \<or> int (length pq1) \<le> i then Inl IndexOutOfRange
         else Inr (heap_Fix pq_Len pq_Less pq_Swap pq1 (nat i)))"

definition pq_Remove :: "MessagePQ \<Rightarrow> nat \<Rightarrow> MessagePQ result" where
  "pq_Remove pq k =
     (let i = Index (pq ! k)
      in if i < 0 \<or> int (length pq) \<le> i then Inl IndexOutOfRange
         else Inr (fst (heap_Remove pq_Len pq_Less pq_Swap pq_Pop pq (nat i))))"

subsection \<open>The interface is implemented\<close>

definition pq_wf :: "MessagePQ \<Rightarrow> bool" where
  "pq_wf pq \<longleftrightarrow> (\<forall>i < length pq. Index (pq ! i) = int i)"

lemma length_pq_Swap [simp]: "length (pq_Swap pq i j) = length pq"
  by (simp add: pq_Swap_def Let_def)

lemma pq_Swap_no_index:
  "i < length pq \<Longrightarrow> j < length pq \<Longrightarrow>
   map no_index (pq_Swap pq i j) = list_swap (map no_index pq) i j"
  by (rule nth_equalityI) (auto simp: pq_Swap_def Let_def list_swap_def nth_list_update)

interpretation mpq: heap_interface pq_Len pq_Less pq_Swap pq_Push pq_Pop "map no_index" no_index
  msg_key pq_wf
proof (standard, goal_cases)
  case (2 i h j)
  then show ?case by (auto simp: pq_Len_def pq_Less_def Key_less msg_key_def)
next
  case (3 i h j)
  then show ?case by (simp add: pq_Len_def pq_Swap_no_index)
next
  case (4 h i j)
  then show ?case
    by (auto simp: pq_wf_def pq_Len_def pq_Swap_def Let_def nth_list_update)
next
  case (6 h x)
  then show ?case by (auto simp: pq_wf_def pq_Push_def Let_def nth_append less_Suc_eq)
next
  case (7 h)
  then show ?case by (simp add: pq_Pop_def Let_def butlast_conv_take take_map)
next
  case (8 h)
  then show ?case by (simp add: pq_Pop_def Let_def last_conv_nth)
next
  case (9 h)
  then show ?case by (auto simp: pq_wf_def pq_Pop_def Let_def)
qed (simp_all add: pq_Len_def pq_Push_def Let_def)

lemma length_pq_heap_Pop: "length (fst (pq_heap_Pop pq)) = length pq - 1"
  using heap_down_len [of length pq_Swap pq_Less "pq_Swap pq 0 (length pq - 1)" 0 "length pq - 1"]
  by (simp add: pq_heap_Pop_def heap_Pop_def pq_Pop_def pq_Len_def Let_def)

definition pq_inv :: "MessagePQ \<Rightarrow> bool" where
  "pq_inv pq \<longleftrightarrow> pq_wf pq \<and> heap_ok msg_key (map no_index pq) (length pq)"

text \<open>The contents of the queue, with the positions forgotten.\<close>

definition pq_msgs :: "MessagePQ \<Rightarrow> Message multiset" where
  "pq_msgs pq = mset (map no_index pq)"

lemma pq_inv_Nil [simp]: "pq_inv []"
  by (simp add: pq_inv_def pq_wf_def heap_ok_def)

lemma size_pq_msgs [simp]: "size (pq_msgs pq) = length pq"
  by (simp add: pq_msgs_def)

lemma pq_msgs_Nil [simp]: "pq_msgs [] = {#}" "pq_msgs pq = {#} \<longleftrightarrow> pq = []"
  by (simp_all add: pq_msgs_def)

lemma in_pq_msgs_nth: "k < length pq \<Longrightarrow> no_index (pq ! k) \<in># pq_msgs pq"
  by (simp add: pq_msgs_def)

lemma pq_heap_Push_inv:
  assumes "pq_inv pq"
  shows "pq_inv (pq_heap_Push pq m)" and "pq_msgs (pq_heap_Push pq m) = add_mset (no_index m) (pq_msgs pq)"
proof -
  have h: "heap_ok msg_key (map no_index pq) (pq_Len pq)" "pq_wf pq"
    using assms by (simp_all add: pq_inv_def pq_Len_def)
  show msgs: "pq_msgs (pq_heap_Push pq m) = add_mset (no_index m) (pq_msgs pq)"
    using mpq.heap_Push_correct(2) [OF h(1), of m] by (simp add: pq_msgs_def pq_heap_Push_def)
  have "length (pq_heap_Push pq m) = Suc (pq_Len pq)"
    using arg_cong [OF msgs, of size] by (simp add: pq_Len_def)
  then show "pq_inv (pq_heap_Push pq m)"
    using mpq.heap_Push_correct(1,3) [OF h(1), of m] h(2) by (simp add: pq_inv_def pq_heap_Push_def)
qed

lemma pq_heap_Pop_inv:
  assumes "pq_inv pq" "pq \<noteq> []" "pq_heap_Pop pq = (pq', m)"
  shows "pq_inv pq'" and "pq_msgs pq = add_mset (no_index m) (pq_msgs pq')"
    and "no_index m = no_index (pq ! 0)" and "x \<in># pq_msgs pq \<Longrightarrow> msg_key m \<le> msg_key x"
proof -
  have h: "heap_ok msg_key (map no_index pq) (pq_Len pq)" "pq_wf pq" "0 < pq_Len pq"
    "heap_Pop pq_Len pq_Less pq_Swap pq_Pop pq = (pq', m)"
    using assms by (simp_all add: pq_inv_def pq_Len_def pq_heap_Pop_def)
  note P = mpq.heap_Pop_correct [OF h(1,3,4)]
  show "pq_inv pq'" using P(2,5) h(2) by (simp add: pq_inv_def pq_Len_def)
  show "pq_msgs pq = add_mset (no_index m) (pq_msgs pq')" using P(4) by (simp add: pq_msgs_def)
  show m: "no_index m = no_index (pq ! 0)" using P(1) assms(2) by simp
  assume "x \<in># pq_msgs pq"
  then obtain c where c: "c < length pq" "x = no_index (pq ! c)"
    by (auto simp: pq_msgs_def in_set_conv_nth)
  then have "msg_key (pq ! 0) \<le> msg_key (pq ! c)"
    using heap_ok_root_le [OF h(1), of c] assms(2) by (simp add: pq_Len_def)
  then show "msg_key m \<le> msg_key x" using c m by (metis no_index_simps(12))
qed

lemma pq_Update_inv:
  assumes "pq_inv pq" "k < length pq"
  obtains pq' where "pq_Update pq k p = Inr pq'" "pq_inv pq'"
    "pq_msgs pq' = add_mset (no_index ((pq ! k)\<lparr>Priority := p\<rparr>)) (pq_msgs pq - {#no_index (pq ! k)#})"
proof
  let ?pq = "pq[k := (pq ! k)\<lparr>Priority := p\<rparr>]"
  let ?r = "heap_Fix pq_Len pq_Less pq_Swap ?pq k"
  have idx: "Index (pq ! k) = int k" using assms by (simp add: pq_inv_def pq_wf_def)
  show "pq_Update pq k p = Inr ?r" using assms(2) by (simp add: pq_Update_def Let_def idx)
  have wf: "pq_wf ?pq" using assms by (auto simp: pq_inv_def pq_wf_def nth_list_update)
  have ms: "map no_index ?pq = (map no_index pq)[k := no_index ((pq ! k)\<lparr>Priority := p\<rparr>)]"
    by (simp add: map_update)
  have "heap_ok_at msg_key (map no_index ?pq) (length pq) k"
    unfolding ms using assms(1) heap_ok_imp_at heap_ok_at_update by (fastforce simp: pq_inv_def)
  then have F: "mpq.rearranged (length pq) ?pq ?r" "heap_ok msg_key (map no_index ?r) (length pq)"
    using mpq.heap_Fix_correct [of ?pq k] assms(2) by (simp_all add: pq_Len_def)
  have "length ?r = length pq" using mpq.rearranged_Len [OF F(1)] by (simp add: pq_Len_def)
  then show "pq_inv ?r" using F wf by (simp add: pq_inv_def mpq.rearranged_def)
  have "pq_msgs ?r = mset (map no_index ?pq)" using F(1) by (simp add: pq_msgs_def mpq.rearranged_def)
  also have "\<dots> = add_mset (no_index ((pq ! k)\<lparr>Priority := p\<rparr>)) (pq_msgs pq - {#no_index (pq ! k)#})"
    unfolding ms pq_msgs_def using assms(2) by (subst mset_update) simp_all
  finally show "pq_msgs ?r = \<dots>" .
qed

lemma pq_Remove_inv:
  assumes "pq_inv pq" "k < length pq"
  obtains pq' where "pq_Remove pq k = Inr pq'" "pq_inv pq'"
    "pq_msgs pq = add_mset (no_index (pq ! k)) (pq_msgs pq')"
proof
  let ?r = "heap_Remove pq_Len pq_Less pq_Swap pq_Pop pq k"
  have idx: "Index (pq ! k) = int k" using assms by (simp add: pq_inv_def pq_wf_def)
  have h: "heap_ok msg_key (map no_index pq) (pq_Len pq)" "pq_wf pq" "k < pq_Len pq"
    using assms by (simp_all add: pq_inv_def pq_Len_def)
  note R = mpq.heap_Remove_correct [OF h(1,3), of "fst ?r" "snd ?r", OF prod.collapse [symmetric]]
  show "pq_Remove pq k = Inr (fst ?r)" using assms(2) by (simp add: pq_Remove_def Let_def idx)
  show "pq_inv (fst ?r)" using R(2,5) h(2) by (simp add: pq_inv_def pq_Len_def)
  show "pq_msgs pq = add_mset (no_index (pq ! k)) (pq_msgs (fst ?r))"
    using R(1,4) assms(2) by (simp add: pq_msgs_def)
qed

lemma pq_FindById_Some:
  "pq_FindById pq x = Some k \<Longrightarrow> k < length pq \<and> Id_m (pq ! k) = x \<and> (\<forall>j < k. Id_m (pq ! j) \<noteq> x)"
proof (induction pq arbitrary: k)
  case (Cons a pq)
  then show ?case by (fastforce simp: less_Suc_eq_0_disj split: if_splits)
qed simp

lemma pq_FindById_None: "pq_FindById pq x = None \<longleftrightarrow> (\<forall>m \<in> set pq. Id_m m \<noteq> x)"
  by (induction pq) auto

end
