(* ===== verification/Go_Strings.thy ===== *)
theory Go_Strings
  imports Prelude
begin

section \<open>The string functions of Go's standard library that the programs use\<close>

text \<open>
  \<^verbatim>\<open>strings.Split\<close> and \<^verbatim>\<open>strings.LastIndex\<close> with a one-character separator (the only use the
  programs make of them), \<^verbatim>\<open>strings.TrimSuffix\<close>, \<^verbatim>\<open>strings.Trim\<close>, \<^verbatim>\<open>strconv.Itoa\<close> and
  \<^verbatim>\<open>strconv.Atoi\<close> on 64-bit integers. The lemmas are the round trips the parsers rely on.
\<close>

subsection \<open>Splitting and joining\<close>

fun split_on :: "char \<Rightarrow> string \<Rightarrow> string list" where
  "split_on c [] = [[]]"
| "split_on c (x # xs) =
     (if x = c then [] # split_on c xs
      else case split_on c xs of [] \<Rightarrow> [[x]] | y # ys \<Rightarrow> (x # y) # ys)"

fun join_with :: "char \<Rightarrow> string list \<Rightarrow> string" where
  "join_with c [] = []"
| "join_with c [x] = x"
| "join_with c (x # y # ys) = x @ c # join_with c (y # ys)"

lemma split_on_nonempty [simp]: "split_on c s \<noteq> []"
  by (induction s) (auto split: list.split)

lemma join_split: "join_with c (split_on c s) = s"
proof (induction s)
  case (Cons x xs)
  obtain y ys where "split_on c xs = y # ys" by (cases "split_on c xs") auto
  then show ?case using Cons by (cases ys) auto
qed simp

lemma split_on_no_sep: "c \<notin> set s \<Longrightarrow> split_on c s = [s]"
  by (induction s) auto

lemma split_on_append: "c \<notin> set x \<Longrightarrow> split_on c (x @ c # s) = x # split_on c s"
  by (induction x) auto

lemma split_join:
  "xs \<noteq> [] \<Longrightarrow> \<forall>x \<in> set xs. c \<notin> set x \<Longrightarrow> split_on c (join_with c xs) = xs"
  by (induction c xs rule: join_with.induct) (auto simp: split_on_no_sep split_on_append)

lemma split_on_pieces: "x \<in> set (split_on c s) \<Longrightarrow> c \<notin> set x"
proof (induction s arbitrary: x)
  case (Cons y s)
  obtain z zs where z: "split_on c s = z # zs" by (cases "split_on c s") auto
  show ?case using Cons.prems Cons.IH [of x] Cons.IH [of z] z by (auto split: if_splits)
qed simp

lemma length_split_on: "length (split_on c s) = Suc (count_list s c)"
proof (induction s)
  case (Cons y s)
  obtain z zs where "split_on c s = z # zs" by (cases "split_on c s") auto
  then show ?case using Cons by auto
qed simp

subsection \<open>Trimming\<close>

definition trim_suffix :: "string \<Rightarrow> string \<Rightarrow> string" where
  "trim_suffix suf s =
     (if length suf \<le> length s \<and> drop (length s - length suf) s = suf
      then take (length s - length suf) s else s)"

lemma trim_suffix_append [simp]: "trim_suffix suf (s @ suf) = s"
  by (simp add: trim_suffix_def)

lemma trim_suffix_char [simp]: "trim_suffix [c] s = (if s \<noteq> [] \<and> last s = c then butlast s else s)"
  by (cases s rule: rev_cases) (auto simp: trim_suffix_def)

definition trim :: "string \<Rightarrow> string \<Rightarrow> string" where
  "trim cutset s =
     rev (dropWhile (\<lambda>c. c \<in> set cutset) (rev (dropWhile (\<lambda>c. c \<in> set cutset) s)))"

lemma dropWhile_id: "xs = [] \<or> \<not> P (hd xs) \<Longrightarrow> dropWhile P xs = xs"
  by (cases xs) auto

lemma trim_id:
  assumes "s = [] \<or> hd s \<notin> set cs \<and> last s \<notin> set cs"
  shows "trim cs s = s"
  using assms by (auto simp: trim_def dropWhile_id hd_rev)

text \<open>\<^verbatim>\<open>strings.LastIndex(s, sep)\<close>: the last position of the character, or -1.\<close>

fun last_index :: "char \<Rightarrow> string \<Rightarrow> int" where
  "last_index c [] = -1"
| "last_index c (x # xs) =
     (let r = last_index c xs in if r \<ge> 0 then r + 1 else if x = c then 0 else -1)"

lemma last_index_ge: "last_index c s \<ge> -1"
  by (induction s) (auto simp: Let_def)

lemma last_index_absent: "c \<notin> set s \<Longrightarrow> last_index c s = -1"
  by (induction s) (auto simp: Let_def)

lemma last_index_append: "c \<notin> set t \<Longrightarrow> last_index c (s @ c # t) = int (length s)"
  by (induction s) (auto simp: Let_def last_index_absent)

lemma last_index_split:
  assumes "0 \<le> last_index c s"
  shows "s = take (nat (last_index c s)) s @ c # drop (nat (last_index c s) + 1) s"
  using assms
proof (induction s)
  case (Cons x s)
  show ?case
  proof (cases "0 \<le> last_index c s")
    case True
    then show ?thesis using Cons.IH by (simp add: Let_def nat_add_distrib)
  next
    case False
    then show ?thesis using Cons.prems by (simp add: Let_def split: if_splits)
  qed
qed simp

subsection \<open>Decimal numbers\<close>

definition digit_char :: "nat \<Rightarrow> char" where
  "digit_char d = char_of (48 + d)"

definition is_digit :: "char \<Rightarrow> bool" where
  "is_digit c \<longleftrightarrow> 48 \<le> (of_char c :: nat) \<and> (of_char c :: nat) \<le> 57"

definition digit_val :: "char \<Rightarrow> nat" where
  "digit_val c = of_char c - 48"

fun nat_digits :: "nat \<Rightarrow> string" where
  "nat_digits n = (if n < 10 then [digit_char n] else nat_digits (n div 10) @ [digit_char (n mod 10)])"

declare nat_digits.simps [simp del]

definition digits_val :: "string \<Rightarrow> nat" where
  "digits_val s = foldl (\<lambda>a c. 10 * a + digit_val c) 0 s"

lemma of_char_digit_char: "d < 10 \<Longrightarrow> (of_char (digit_char d) :: nat) = 48 + d"
  by (simp add: digit_char_def)

lemma digit_char_simps [simp]:
  "d < 10 \<Longrightarrow> is_digit (digit_char d)" "d < 10 \<Longrightarrow> digit_val (digit_char d) = d"
  by (simp_all add: is_digit_def digit_val_def of_char_digit_char)

lemma digits_val_snoc: "digits_val (s @ [c]) = 10 * digits_val s + digit_val c"
  by (simp add: digits_val_def)

lemma nat_digits_correct:
  "nat_digits n \<noteq> [] \<and> list_all is_digit (nat_digits n) \<and> digits_val (nat_digits n) = n"
proof (induction n rule: nat_digits.induct)
  case (1 n)
  show ?case
  proof (cases "n < 10")
    case True
    then show ?thesis by (subst (1 2 3) nat_digits.simps) (simp add: digits_val_def)
  next
    case False
    then show ?thesis
      using 1 by (subst (1 2 3) nat_digits.simps) (simp add: digits_val_snoc)
  qed
qed

definition int64_range :: "int \<Rightarrow> bool" where
  "int64_range n \<longleftrightarrow> - (2 ^ 63) \<le> n \<and> n < 2 ^ 63"

definition itoa_int :: "int \<Rightarrow> string" where
  "itoa_int n = (if n < 0 then CHR ''-'' # nat_digits (nat (- n)) else nat_digits (nat n))"

text \<open>
  \<^verbatim>\<open>strconv.Atoi\<close>: an optional sign, then at least one digit and nothing else; an error
  (\<open>None\<close>) also when the value does not fit in 64 bits.
\<close>

definition atoi_int :: "string \<Rightarrow> int option" where
  "atoi_int s =
     (let neg = (case s of c # _ \<Rightarrow> c = CHR ''-'' | [] \<Rightarrow> False);
          body = (case s of c # r \<Rightarrow> if c = CHR ''-'' \<or> c = CHR ''+'' then r else s | [] \<Rightarrow> s);
          n = (if neg then - int (digits_val body) else int (digits_val body))
      in if body = [] \<or> \<not> list_all is_digit body \<or> \<not> int64_range n then None else Some n)"

definition itoa :: "goint \<Rightarrow> string" where
  "itoa w = itoa_int (sint w)"

definition atoi :: "string \<Rightarrow> goint option" where
  "atoi s = map_option word_of_int (atoi_int s)"

lemma digit_not_sign: "is_digit c \<Longrightarrow> c \<noteq> CHR ''-'' \<and> c \<noteq> CHR ''+''"
  by (auto simp: is_digit_def)

lemma atoi_itoa_int: "int64_range n \<Longrightarrow> atoi_int (itoa_int n) = Some n"
proof (cases "n < 0")
  case True
  assume "int64_range n"
  then show ?thesis
    using True nat_digits_correct [of "nat (- n)"] by (simp add: atoi_int_def itoa_int_def)
next
  case False
  assume r: "int64_range n"
  let ?s = "nat_digits (nat n)"
  obtain c cs where s: "?s = c # cs" using nat_digits_correct [of "nat n"] by (cases ?s) auto
  then have "c \<noteq> CHR ''-'' \<and> c \<noteq> CHR ''+''"
    using nat_digits_correct [of "nat n"] digit_not_sign by simp
  then show ?thesis
    using False r s nat_digits_correct [of "nat n"] by (simp add: atoi_int_def itoa_int_def Let_def)
qed

lemma sint_range: "int64_range (sint (w :: goint))"
  using sint_greater_eq [of w] sint_less [of w] by (simp add: int64_range_def)

lemma atoi_itoa [simp]: "atoi (itoa w) = Some w"
  using atoi_itoa_int [OF sint_range, of w] by (simp add: atoi_def itoa_def)

lemma itoa_inject: "itoa v = itoa w \<longleftrightarrow> v = w"
  by (metis atoi_itoa option.inject)

lemma itoa_int_chars: "c \<in> set (itoa_int n) \<Longrightarrow> is_digit c \<or> c = CHR ''-''"
  using nat_digits_correct by (auto simp: itoa_int_def list_all_iff split: if_splits)

lemma itoa_int_no_space: "CHR '' '' \<notin> set (itoa_int n)"
  using itoa_int_chars [of "CHR '' ''"] by (auto simp: is_digit_def)

lemma itoa_int_nonempty [simp]: "itoa_int n \<noteq> []"
  using nat_digits_correct by (auto simp: itoa_int_def)

subsection \<open>Reading lines\<close>

text \<open>
  \<^verbatim>\<open>reader.ReadString('\n')\<close> on the text that is left: the line with its newline, what follows, and
  whether the end of the input came before a newline.
\<close>

fun read_string :: "string \<Rightarrow> string \<times> string \<times> bool" where
  "read_string [] = ([], [], True)"
| "read_string (c # s) =
     (if c = CHR 0x0A then ([c], s, False)
      else case read_string s of (line, rest, eof) \<Rightarrow> (c # line, rest, eof))"

lemma read_string_line: "CHR 0x0A \<notin> set l \<Longrightarrow> read_string (l @ CHR 0x0A # s) = (l @ [CHR 0x0A], s, False)"
  by (induction l) auto

lemma read_string_eof: "CHR 0x0A \<notin> set l \<Longrightarrow> read_string l = (l, [], True)"
  by (induction l) auto

lemma read_string_shorter: "read_string s = (line, rest, False) \<Longrightarrow> length rest < length s"
  by (induction s arbitrary: line rest) (auto split: if_splits prod.splits)

end
