(* ===== verification/Multicast_Isis.thy ===== *)
theory Multicast_Isis
  imports Message_PQ Go_Strings
begin

section \<open>Multicast: the ISIS protocol at one node\<close>

text \<open>
  \<^verbatim>\<open>multicast-demo/types/multicast.go\<close>. One round of the loop of \<^verbatim>\<open>Deliver\<close> and one round of the
  loop of \<^verbatim>\<open>ISIS\<close> are functions from the state of the node to its new state, the messages the
  round sends, as pairs of a destination and a message in the order of the sends, and the
  messages it hands to the application. The mutexes of the code only guard single reads and
  writes inside a round. Go leaves the order in which \<^verbatim>\<open>range\<close> visits a map open: the orders are
  arguments, \<open>encs\<close> for the connections and \<open>nks\<close> for the keys of \<open>nfailCheck\<close>.
  A send on a connection that does not exist is a nil dereference.
\<close>

subsection \<open>State\<close>

record Multicast =
  A_mc :: int
  P_mc :: int
  curNodeId :: string
  aliveNodes :: int
  nfailCheck :: "string \<rightharpoonup> bool"
  messageCheck :: "string \<rightharpoonup> bool"
  messageNCheck :: "string \<rightharpoonup> int"
  pq_mc :: MessagePQ
  proposed :: "string \<rightharpoonup> int"
  repliers :: "string \<rightharpoonup> int"

type_synonym sends = "(string \<times> Message) list"

subsection \<open>Sending\<close>

definition bcast_Cast :: "string list \<Rightarrow> string \<Rightarrow> Message \<Rightarrow> sends \<Rightarrow> sends result" where
  "bcast_Cast encs dest message out =
     (if dest \<in> set encs then Inr (out @ [(dest, message)]) else Inl NilDereference)"

definition mc_Cast :: "string list \<Rightarrow> Multicast \<Rightarrow> Message \<Rightarrow> sends" where
  "mc_Cast encs m message =
     map (\<lambda>k. (k, message)) (filter (\<lambda>k. \<not> map_get False (nfailCheck m) k) encs)"

subsection \<open>Receiving\<close>

datatype deliver_result = Stopped | Skipped | Forward Message

text \<open>One round of \<^verbatim>\<open>Deliver\<close>; \<open>None\<close> is a failed read of the connection from \<open>locNodeid\<close>.\<close>

fun mc_Deliver :: "string \<Rightarrow> Multicast \<Rightarrow> Message option \<Rightarrow> Multicast \<times> deliver_result" where
  "mc_Deliver locNodeid m None = (m\<lparr>nfailCheck := (nfailCheck m)(locNodeid \<mapsto> True)\<rparr>, Stopped)"
| "mc_Deliver locNodeid m (Some message) =
     (if messageCheck m (Id_m message) \<noteq> None \<and> Status message = ''i'' then (m, Skipped)
      else (m, Forward (message\<lparr>RNodeId := locNodeid\<rparr>)))"

subsection \<open>The reaction to failed nodes\<close>

text \<open>
  The inner loop visits the places the queue had when the loop began. \<^verbatim>\<open>Remove\<close> shortens the
  queue under the loop and leaves nil in the places that fall away.
\<close>

fun fail_items ::
  "string list \<Rightarrow> string \<Rightarrow> nat list \<Rightarrow> MessagePQ \<Rightarrow> sends \<Rightarrow> (MessagePQ \<times> sends) result" where
  "fail_items encs nFail [] pq out = Inr (pq, out)"
| "fail_items encs nFail (i # is) pq out =
     (if i < length pq \<and> Status (pq ! i) = ''p'' then
        if NodeId (pq ! i) = nFail then
          bind_result (pq_Remove pq i) (\<lambda>pq'. fail_items encs nFail is pq' out)
        else
          let item = (pq ! i)\<lparr>Status := ''pf''\<rparr>
          in bind_result (bcast_Cast encs (NodeId item) item out)
               (\<lambda>out'. fail_items encs nFail is (pq[i := item]) out')
      else fail_items encs nFail is pq out)"

fun fail_sweep :: "string list \<Rightarrow> string list \<Rightarrow> Multicast \<Rightarrow> sends \<Rightarrow> (Multicast \<times> sends) result" where
  "fail_sweep encs [] m out = Inr (m, out)"
| "fail_sweep encs (nFail # nks) m out =
     (if nfailCheck m nFail = Some True \<and> map_get 0 (messageNCheck m) nFail = 0 then
        let m1 = m\<lparr>messageNCheck := (messageNCheck m)(nFail \<mapsto> map_get 0 (messageNCheck m) nFail + 1)\<rparr>
        in bind_result (fail_items encs nFail [0..<length (pq_mc m1)] (pq_mc m1) out)
             (\<lambda>(pq', out'). fail_sweep encs nks (m1\<lparr>pq_mc := pq'\<rparr>) out')
      else fail_sweep encs nks m out)"

subsection \<open>Deliverable messages at the root\<close>

function drain :: "MessagePQ \<Rightarrow> MessagePQ \<times> Message list" where
  "drain pq =
     (if 0 < length pq \<and> IsDeliverable (pq ! 0) then
        let (pq', msg) = pq_heap_Pop pq; (pq'', msgs) = drain pq' in (pq'', msg # msgs)
      else (pq, []))"
  by pat_completeness auto
termination
proof (relation "measure length", goal_cases)
  case (2 pq x pq' msg)
  then show ?case using length_pq_heap_Pop [of pq] by (cases "pq_heap_Pop pq") auto
qed simp

declare drain.simps [simp del]

subsection \<open>The branches of ISIS\<close>

definition node_name :: "int \<Rightarrow> string" where
  "node_name i = ''node'' @ itoa_int i"

definition count_alive :: "string list \<Rightarrow> Multicast \<Rightarrow> int" where
  "count_alive nks m = int (length (filter (\<lambda>n. nfailCheck m n = Some False) nks))"

text \<open>The message as it stands in the queue, with the position the queue gave it.\<close>

definition pq_self :: "MessagePQ \<Rightarrow> Message \<Rightarrow> Message" where
  "pq_self pq m = (case find (\<lambda>x. no_index x = no_index m) pq of None \<Rightarrow> m | Some x \<Rightarrow> x)"

definition isis_i :: "string list \<Rightarrow> Multicast \<Rightarrow> Message \<Rightarrow> sends \<Rightarrow> (Multicast \<times> sends) result" where
  "isis_i encs m message out =
     (if messageCheck m (Id_m message) \<noteq> None then Inr (m, out)
      else
        let m1 = m\<lparr>messageCheck := (messageCheck m)(Id_m message \<mapsto> True)\<rparr>;
            out1 = out @ map (\<lambda>k. (k, message)) (filter (\<lambda>k. k \<noteq> curNodeId m1) encs);
            p = max_f64 (A_mc m1) (P_mc m1) + 1;
            message1 = message\<lparr>Status := ''p'', Priority := p, IsDeliverable := False\<rparr>;
            pq1 = pq_heap_Push (pq_mc m1) message1;
            m2 = m1\<lparr>P_mc := p, pq_mc := pq1\<rparr>
        in bind_result (bcast_Cast encs (node_name (Sender message)) (pq_self pq1 message1) out1)
             (\<lambda>out2. Inr (m2, out2)))"

definition isis_agree :: "string list \<Rightarrow> Multicast \<Rightarrow> Message \<Rightarrow> sends" where
  "isis_agree encs m message =
     mc_Cast encs m
       (message\<lparr>Status := ''a'', Priority := map_get 0 (proposed m) (Id_m message)\<rparr>)"

definition isis_pf ::
  "string list \<Rightarrow> string list \<Rightarrow> Multicast \<Rightarrow> Message \<Rightarrow> sends \<Rightarrow> Multicast \<times> sends" where
  "isis_pf encs nks m message out =
     (if messageNCheck m (Id_m message) \<noteq> None then (m, out)
      else
        let m1 = m\<lparr>messageNCheck :=
                     (messageNCheck m)(Id_m message \<mapsto> map_get 0 (messageNCheck m) (Id_m message) + 1)\<rparr>;
            numOfReply = map_get 0 (repliers m1) (Id_m message);
            m2 = m1\<lparr>aliveNodes := count_alive nks m1\<rparr>
        in if numOfReply + 1 = aliveNodes m2 then (m2, out @ isis_agree encs m2 message)
           else (m2, out))"

text \<open>The count of the replies to a message and of the greatest proposal.\<close>

definition isis_tally ::
  "string list \<Rightarrow> string list \<Rightarrow> Multicast \<Rightarrow> Message \<Rightarrow> sends \<Rightarrow> Multicast \<times> sends" where
  "isis_tally encs nks m1 message out =
     (let m2 = (case proposed m1 (Id_m message) of
                  None \<Rightarrow> m1\<lparr>proposed := (proposed m1)(Id_m message \<mapsto> Priority message)\<rparr>
                | Some priority \<Rightarrow>
                    if Priority message > priority
                    then m1\<lparr>proposed := (proposed m1)(Id_m message \<mapsto> Priority message)\<rparr>
                    else m1)
      in case repliers m2 (Id_m message) of
           None \<Rightarrow> (m2\<lparr>repliers := (repliers m2)(Id_m message \<mapsto> 1)\<rparr>, out)
         | Some numOfReply \<Rightarrow>
             let m3 = m2\<lparr>repliers := (repliers m2)(Id_m message \<mapsto> numOfReply + 1),
                         aliveNodes := count_alive nks m2\<rparr>
             in if numOfReply + 1 = aliveNodes m3 then (m3, out @ isis_agree encs m3 message)
                else (m3, out))"

definition isis_p ::
  "string list \<Rightarrow> string list \<Rightarrow> Multicast \<Rightarrow> Message \<Rightarrow> sends \<Rightarrow> (Multicast \<times> sends) result" where
  "isis_p encs nks m message out =
     bind_result
       (if map_get False (nfailCheck m) (NodeId message) then
          case pq_FindById (pq_mc m) (Id_m message) of
            None \<Rightarrow> Inr m
          | Some k \<Rightarrow> bind_result (pq_Remove (pq_mc m) k) (\<lambda>pq'. Inr (m\<lparr>pq_mc := pq'\<rparr>))
        else Inr m)
       (\<lambda>m1. Inr (isis_tally encs nks m1 message out))"

definition isis_a :: "Multicast \<Rightarrow> Message \<Rightarrow> (Multicast \<times> Message list) result" where
  "isis_a m message =
     (case pq_FindById (pq_mc m) (Id_m message) of
        None \<Rightarrow> Inl NilDereference
      | Some k \<Rightarrow>
          let pq1 = (pq_mc m)[k := (pq_mc m ! k)\<lparr>IsDeliverable := True\<rparr>]
          in bind_result (pq_Update pq1 k (Priority message))
               (\<lambda>pq2. let (pq3, msgs) = drain pq2 in Inr (m\<lparr>pq_mc := pq3\<rparr>, msgs)))"

subsection \<open>One round of ISIS\<close>

definition isis ::
  "string list \<Rightarrow> string list \<Rightarrow> Multicast \<Rightarrow> Message \<Rightarrow> (Multicast \<times> sends \<times> Message list) result" where
  "isis encs nks m message =
     bind_result (fail_sweep encs nks m []) (\<lambda>(m1, out1).
       if Status message = ''i'' then
         bind_result (isis_i encs m1 message out1) (\<lambda>(m2, out2). Inr (m2, out2, []))
       else if Status message = ''pf'' then
         let (m2, out2) = isis_pf encs nks m1 message out1 in Inr (m2, out2, [])
       else if Status message = ''p'' then
         bind_result (isis_p encs nks m1 message out1) (\<lambda>(m2, out2). Inr (m2, out2, []))
       else
         bind_result (isis_a m1 message) (\<lambda>(m2, msgs). Inr (m2, out1, msgs)))"

subsection \<open>Facts about the loop at the root\<close>

lemma drain_spec:
  assumes "pq_inv pq" "drain pq = (pq', ds)"
  shows "pq_inv pq'" and "pq_msgs pq = mset (map no_index ds) + pq_msgs pq'"
    and "\<forall>d \<in> set ds. IsDeliverable d" and "sorted (map msg_key ds)"
    and "\<forall>d \<in> set ds. \<forall>x \<in># pq_msgs pq'. msg_key d \<le> msg_key x"
    and "pq' \<noteq> [] \<longrightarrow> \<not> IsDeliverable (pq' ! 0)"
proof -
  have "pq_inv pq' \<and> pq_msgs pq = mset (map no_index ds) + pq_msgs pq' \<and>
    (\<forall>d \<in> set ds. IsDeliverable d) \<and> sorted (map msg_key ds) \<and>
    (\<forall>d \<in> set ds. \<forall>x \<in># pq_msgs pq'. msg_key d \<le> msg_key x) \<and>
    (pq' \<noteq> [] \<longrightarrow> \<not> IsDeliverable (pq' ! 0))"
    using assms
  proof (induction pq arbitrary: ds rule: drain.induct)
    case (1 pq)
    show ?case
    proof (cases "0 < length pq \<and> IsDeliverable (pq ! 0)")
      case False
      then show ?thesis using "1.prems" by (auto simp: drain.simps [of pq])
    next
      case True
      obtain q m where qm: "pq_heap_Pop pq = (q, m)" by fastforce
      obtain ms where ms: "drain q = (pq', ms)" "ds = m # ms"
        using "1.prems"(2) True qm by (auto simp: drain.simps [of pq] split: prod.splits)
      note pop = pq_heap_Pop_inv [OF "1.prems"(1) _ qm]
      have IH: "pq_inv pq'" "pq_msgs q = mset (map no_index ms) + pq_msgs pq'"
        "\<forall>d \<in> set ms. IsDeliverable d" "sorted (map msg_key ms)"
        "\<forall>d \<in> set ms. \<forall>x \<in># pq_msgs pq'. msg_key d \<le> msg_key x"
        "pq' \<noteq> [] \<longrightarrow> \<not> IsDeliverable (pq' ! 0)"
        using "1.IH" [OF True qm [symmetric] refl pop(1) ms(1)] True by simp_all
      have msgs: "pq_msgs pq = add_mset (no_index m) (mset (map no_index ms) + pq_msgs pq')"
        using pop(2) True IH(2) by auto
      have le: "msg_key m \<le> msg_key x" if "x \<in># pq_msgs pq" for x using pop(4) that True by auto
      have "msg_key m \<le> msg_key d" if "d \<in> set ms" for d
        using le [of "no_index d"] that by (simp add: msgs)
      moreover have "msg_key m \<le> msg_key x" if "x \<in># pq_msgs pq'" for x
        using le [of x] that by (simp add: msgs)
      moreover have "IsDeliverable m" using pop(3) True by (metis length_greater_0_conv no_index_simps(7))
      ultimately show ?thesis using IH msgs by (auto simp: ms(2))
    qed
  qed
  then show "pq_inv pq'" and "pq_msgs pq = mset (map no_index ds) + pq_msgs pq'"
    and "\<forall>d \<in> set ds. IsDeliverable d" and "sorted (map msg_key ds)"
    and "\<forall>d \<in> set ds. \<forall>x \<in># pq_msgs pq'. msg_key d \<le> msg_key x"
    and "pq' \<noteq> [] \<longrightarrow> \<not> IsDeliverable (pq' ! 0)"
    by simp_all
qed

text \<open>While no node has failed the sweep over the failed nodes does nothing.\<close>

lemma fail_sweep_no_failure:
  "(\<And>k. nfailCheck m k \<noteq> Some True) \<Longrightarrow> fail_sweep encs nks m out = Inr (m, out)"
  by (induction nks) auto

subsection \<open>The queue invariant\<close>

text \<open>Changing what is not part of the key keeps the queue a heap with right positions.\<close>

lemma pq_set_inv:
  assumes "pq_inv pq" "k < length pq" "msg_key m = msg_key (pq ! k)" "Index m = Index (pq ! k)"
  shows "pq_inv (pq[k := m])"
proof -
  have key: "msg_key (map no_index (pq[k := m]) ! j) = msg_key (map no_index pq ! j)" if "j < length pq" for j
    using that assms(3) by (cases "j = k") simp_all
  have "heap_ok msg_key (map no_index (pq[k := m])) (length pq)"
    unfolding heap_ok_def
  proof (intro allI impI)
    fix c assume c: "0 < c \<and> c < length pq"
    moreover from this have "parent c < length pq" using parent_less [of c] by linarith
    ultimately show "msg_key (map no_index (pq[k := m]) ! parent c) \<le> msg_key (map no_index (pq[k := m]) ! c)"
      using assms(1) unfolding pq_inv_def heap_ok_def by (metis key)
  qed
  then show ?thesis using assms by (auto simp: pq_inv_def pq_wf_def nth_list_update)
qed

lemma fail_items_inv:
  "pq_inv pq \<Longrightarrow> fail_items encs nFail is pq out = Inr (pq', out') \<Longrightarrow> pq_inv pq'"
proof (induction "is" arbitrary: pq out)
  case (Cons i "is")
  show ?case
  proof (cases "i < length pq \<and> Status (pq ! i) = ''p''")
    case p: True
    show ?thesis
    proof (cases "NodeId (pq ! i) = nFail")
      case True
      obtain q where "pq_Remove pq i = Inr q" "pq_inv q"
        using pq_Remove_inv [OF Cons.prems(1)] p by blast
      then show ?thesis using Cons.IH [of q out] Cons.prems(2) p True by simp
    next
      case False
      let ?q = "pq[i := (pq ! i)\<lparr>Status := ''pf''\<rparr>]"
      have "pq_inv ?q" using pq_set_inv [OF Cons.prems(1)] p by (simp add: msg_key_def)
      then show ?thesis using Cons.IH [of ?q] Cons.prems(2) p False by (auto simp: Let_def bind_result_Inr_iff)
    qed
  next
    case False
    then have "fail_items encs nFail is pq out = Inr (pq', out')" using Cons.prems(2) by auto
    then show ?thesis using Cons.IH [OF Cons.prems(1)] by simp
  qed
qed simp

lemma fail_sweep_inv:
  "pq_inv (pq_mc m) \<Longrightarrow> fail_sweep encs nks m out = Inr (m', out') \<Longrightarrow> pq_inv (pq_mc m')"
proof (induction encs nks m out rule: fail_sweep.induct)
  case (2 encs nFail nks m out)
  then show ?case by (auto simp: Let_def bind_result_Inr_iff dest: fail_items_inv split: if_splits)
qed simp

lemma isis_p_inv: "pq_inv (pq_mc m) \<Longrightarrow> isis_p encs nks m message out = Inr (m', out') \<Longrightarrow> pq_inv (pq_mc m')"
proof -
  assume h: "pq_inv (pq_mc m)" "isis_p encs nks m message out = Inr (m', out')"
  let ?first = "if map_get False (nfailCheck m) (NodeId message) then
          case pq_FindById (pq_mc m) (Id_m message) of
            None \<Rightarrow> Inr m
          | Some k \<Rightarrow> bind_result (pq_Remove (pq_mc m) k) (\<lambda>pq'. Inr (m\<lparr>pq_mc := pq'\<rparr>))
        else Inr m"
  obtain m1 where m1: "?first = Inr m1" "m' = fst (isis_tally encs nks m1 message out)"
    using h(2) unfolding isis_p_def bind_result_Inr_iff by auto
  have m2: "pq_mc m' = pq_mc m1"
    unfolding m1(2) by (auto simp: isis_tally_def Let_def split: option.splits)
  have rm: "pq_inv q" if "pq_FindById (pq_mc m) (Id_m message) = Some k" "pq_Remove (pq_mc m) k = Inr q" for k q
    using pq_Remove_inv [OF h(1), of k] pq_FindById_Some [OF that(1)] that(2) by fastforce
  show ?thesis
    using m1(1) h(1) rm unfolding m2 by (auto simp: bind_result_Inr_iff split: if_splits option.splits)
qed

lemma isis_a_inv: "pq_inv (pq_mc m) \<Longrightarrow> isis_a m message = Inr (m', ds) \<Longrightarrow> pq_inv (pq_mc m')"
proof -
  assume h: "pq_inv (pq_mc m)" "isis_a m message = Inr (m', ds)"
  then obtain k where k: "pq_FindById (pq_mc m) (Id_m message) = Some k"
    by (auto simp: isis_a_def split: option.splits)
  then have l: "k < length (pq_mc m)" using pq_FindById_Some by blast
  let ?pq = "(pq_mc m)[k := (pq_mc m ! k)\<lparr>IsDeliverable := True\<rparr>]"
  have "pq_inv ?pq" using pq_set_inv [OF h(1) l] by (simp add: msg_key_def)
  then obtain q where q: "pq_Update ?pq k (Priority message) = Inr q" "pq_inv q"
    using pq_Update_inv [of ?pq k "Priority message"] l by (metis length_list_update)
  obtain r es where "drain q = (r, es)" by fastforce
  then show ?thesis using h(2) k q drain_spec(1) [OF q(2)] by (auto simp: isis_a_def Let_def)
qed

text \<open>
  Every round of ISIS, also one that reacts to failed nodes, keeps the hold-back queue a
  heap on (priority, sender) in which every message knows its own position.
\<close>

theorem isis_keeps_queue:
  assumes "pq_inv (pq_mc m)" "isis encs nks m message = Inr (m', out, ds)"
  shows "pq_inv (pq_mc m')"
proof -
  obtain m1 out1 where m1: "fail_sweep encs nks m [] = Inr (m1, out1)" "pq_inv (pq_mc m1)"
    using assms fail_sweep_inv [OF assms(1)] by (auto simp: isis_def bind_result_Inr_iff)
  then have rest: "pq_inv (pq_mc m')" if "isis_i encs m1 message out1 = Inr (m', out)"
    using that pq_heap_Push_inv(1) by (auto simp: isis_i_def Let_def bind_result_Inr_iff split: if_splits)
  have pf: "pq_mc (fst (isis_pf encs nks m1 message out1)) = pq_mc m1" by (simp add: isis_pf_def Let_def)
  show ?thesis
    using assms(2) m1 rest isis_p_inv [OF m1(2)] isis_a_inv [OF m1(2)] pf
    by (auto simp: isis_def bind_result_Inr_iff split: if_splits prod.splits)
qed

definition sample_msg :: "string \<Rightarrow> int \<Rightarrow> string \<Rightarrow> Message" where
  "sample_msg x p from = \<lparr>Id_m = x, Sender = 3, Priority = p, Index = p - 1, NodeId = from, RNodeId = from,
     Status = ''p'', IsDeliverable = False, IsDeposit = True, Names = [''a''], Amount = 1\<rparr>"

definition sample_mc :: Multicast where
  "sample_mc = \<lparr>A_mc = 0, P_mc = 2, curNodeId = ''node1'', aliveNodes = 2,
     nfailCheck = [''node1'' \<mapsto> False, ''node3'' \<mapsto> True], messageCheck = Map.empty,
     messageNCheck = [''node1'' \<mapsto> 0, ''node3'' \<mapsto> 0],
     pq_mc = [sample_msg ''x'' 1 ''node3'', sample_msg ''y'' 2 ''node3''],
     proposed = Map.empty, repliers = Map.empty\<rparr>"

lemma sample_mc_pq: "pq_inv (pq_mc sample_mc)"
  by (auto simp: pq_inv_def pq_wf_def heap_ok_def parent_def sample_mc_def sample_msg_def less_Suc_eq
      msg_key_def no_index_def Key_less_eq numeral_2_eq_2)

definition sample_round :: "(Multicast \<times> sends \<times> Message list) result" where
  "sample_round = isis [''node1''] [''node1'', ''node3''] sample_mc
     ((sample_msg ''z'' 1 ''node1'')\<lparr>Sender := 1, Status := ''i''\<rparr>)"

theorem isis_keeps_queue_witness:
  "\<exists>m' out ds. sample_round = Inr (m', out, ds) \<and> length (pq_mc m') = 2 \<and> pq_inv (pq_mc m')"
proof -
  have "map_sum id (\<lambda>(m', out, ds). length (pq_mc m')) sample_round = Inr 2" by code_simp
  then obtain r where "sample_round = Inr r" "length (pq_mc (fst r)) = 2"
    by (auto simp: map_sum_def case_prod_beta split: sum.splits)
  then obtain m' out ds where r: "sample_round = Inr (m', out, ds)" "length (pq_mc m') = 2" by (cases r) auto
  then show ?thesis using isis_keeps_queue [OF sample_mc_pq] unfolding sample_round_def by blast
qed

text \<open>
  The sweep over a failed node does not clear the queue. Two messages of the failed node
  wait in the queue; \<^verbatim>\<open>Remove\<close> shortens the slice that \<^verbatim>\<open>range\<close> is going through, and the
  second one stays, at the root, where no agreement will ever make it deliverable.
\<close>

theorem fail_sweep_leaves_message:
  "map_sum id (\<lambda>(pq, out). (map Id_m pq, map NodeId pq, out))
     (fail_items [''node1''] ''node3'' [0..<length (pq_mc sample_mc)] (pq_mc sample_mc) []) =
   Inr ([''y''], [''node3''], [])"
  by code_simp

end
