(* ===== verification/Multicast_App.thy ===== *)
theory Multicast_App
  imports Message_PQ Go_Strings
begin

section \<open>Multicast: the ledger application\<close>

text \<open>
  \<^verbatim>\<open>multicast-demo/types/application.go\<close>. The ledger maps account names to balances. Standard
  output and the three files the application writes are kept as text, so that what the program
  prints is part of the model; the time stamp of a processed message is an argument. The
  mutex makes each operation atomic. Amounts and balances are 64-bit integers, compared as
  signed numbers.
\<close>

subsection \<open>State and operations\<close>

record Account =
  balance :: goint

record Application =
  Accts :: "string \<rightharpoonup> Account"
  stdout :: string
  writer :: string
  writer_g :: string
  writer_p :: string

definition nl :: string where
  "nl = [CHR 0x0A]"

definition app_Init :: "Application" where
  "app_Init = \<lparr>Accts = Map.empty, stdout = [], writer = [], writer_g = [], writer_p = []\<rparr>"

text \<open>The balance part of a line that \<^verbatim>\<open>print\<close> writes, for the names it goes through.\<close>

definition acct_names :: "string list" where
  "acct_names = map (\<lambda>c. [c]) ''abcdefghijklmnopqrstuvwxyz''"

definition acct_text :: "(string \<rightharpoonup> Account) \<Rightarrow> string \<Rightarrow> string" where
  "acct_text accts name =
     (let curA = map_get \<lparr>balance = 0\<rparr> accts name
      in if 0 < sint (balance curA) then name @ '':'' @ itoa (balance curA) @ '' '' else [])"

definition app_print :: "Application \<Rightarrow> Application" where
  "app_print app =
     (let text = ''BALANCES '' @ concat (map (acct_text (Accts app)) acct_names) @ nl
      in app\<lparr>stdout := stdout app @ text, writer := writer app @ text\<rparr>)"

definition app_Deposit :: "Application \<Rightarrow> string \<Rightarrow> goint \<Rightarrow> Application" where
  "app_Deposit app name amount =
     app_print
       (case Accts app name of
          None \<Rightarrow> app\<lparr>Accts := (Accts app)(name \<mapsto> \<lparr>balance = amount\<rparr>)\<rparr>
        | Some acct \<Rightarrow>
            app\<lparr>Accts := (Accts app)(name \<mapsto> acct\<lparr>balance := balance acct + amount\<rparr>)\<rparr>)"

definition app_Transfer :: "Application \<Rightarrow> string \<Rightarrow> string \<Rightarrow> goint \<Rightarrow> Application" where
  "app_Transfer app src dest amount =
     app_print
       (case Accts app src of
          None \<Rightarrow> app
        | Some srcAcct \<Rightarrow>
            if sint (balance srcAcct) < sint amount then app
            else
              let accts1 = (Accts app)(src \<mapsto> srcAcct\<lparr>balance := balance srcAcct - amount\<rparr>)
              in case accts1 dest of
                   None \<Rightarrow> app\<lparr>Accts := accts1(dest \<mapsto> \<lparr>balance = amount\<rparr>)\<rparr>
                 | Some destAcct \<Rightarrow>
                     app\<lparr>Accts := accts1(dest \<mapsto> destAcct\<lparr>balance := balance destAcct + amount\<rparr>)\<rparr>)"

text \<open>One round of the loop of \<^verbatim>\<open>ListenFrom\<close>, on the message it received at time \<open>t_p\<close>.\<close>

definition app_ListenFrom :: "string \<Rightarrow> Application \<Rightarrow> Message \<Rightarrow> Application result" where
  "app_ListenFrom t_p app msg =
     (let app1 = app\<lparr>writer_p := writer_p app @ t_p @ nl\<rparr>
      in if IsDeposit msg then
           bind_result (slice_get (Names msg) 0) (\<lambda>name.
             let line = ''DEPOSIT '' @ name @ '' '' @ itoa (Amount msg) @ nl;
                 app2 = app1\<lparr>stdout := stdout app1 @ line,
                             writer := writer app1 @ ''Application calls: '' @ line\<rparr>
             in Inr (app_Deposit app2 name (Amount msg)))
         else
           bind_result (slice_get (Names msg) 0) (\<lambda>src.
           bind_result (slice_get (Names msg) 1) (\<lambda>dest.
             let amt = itoa (Amount msg);
                 app2 = app1\<lparr>stdout := stdout app1 @ ''TRANSFER '' @ src @ '' -> '' @ dest @ '' '' @ amt @ nl,
                             writer := writer app1 @ ''Application calls: TRANSFER '' @ src @ '' '' @
                               dest @ '' '' @ amt @ nl\<rparr>
             in Inr (app_Transfer app2 src dest (Amount msg)))))"

text \<open>The loop, on the messages it receives and the times at which it does.\<close>

fun listen_all :: "Application \<Rightarrow> (string \<times> Message) list \<Rightarrow> Application result" where
  "listen_all app [] = Inr app"
| "listen_all app ((t_p, msg) # ms) = bind_result (app_ListenFrom t_p app msg) (\<lambda>app'. listen_all app' ms)"

subsection \<open>What the operations do to the accounts\<close>

lemma Accts_app_print [simp]: "Accts (app_print app) = Accts app"
  by (simp add: app_print_def Let_def)

lemma Accts_app_Deposit:
  "Accts (app_Deposit app name amount) =
     (Accts app)(name \<mapsto> \<lparr>balance = balance (map_get \<lparr>balance = 0\<rparr> (Accts app) name) + amount\<rparr>)"
  by (auto simp: app_Deposit_def split: option.split)

lemma Accts_app_Transfer_reject:
  "Accts app src = None \<or> (\<exists>a. Accts app src = Some a \<and> sint (balance a) < sint amount) \<Longrightarrow>
   Accts (app_Transfer app src dest amount) = Accts app"
  by (auto simp: app_Transfer_def)

lemma Accts_app_Transfer_accept:
  assumes "Accts app src = Some a" "\<not> sint (balance a) < sint amount"
  shows "Accts (app_Transfer app src dest amount) =
    (let m = (Accts app)(src \<mapsto> \<lparr>balance = balance a - amount\<rparr>)
     in m(dest \<mapsto> \<lparr>balance = balance (map_get \<lparr>balance = 0\<rparr> m dest) + amount\<rparr>))"
  using assms by (auto simp: app_Transfer_def Let_def split: option.split)

subsection \<open>Totals\<close>

definition total :: "(string \<rightharpoonup> Account) \<Rightarrow> goint" where
  "total m = (\<Sum>a \<in> dom m. balance (the (m a)))"

definition total_int :: "(string \<rightharpoonup> Account) \<Rightarrow> int" where
  "total_int m = (\<Sum>a \<in> dom m. sint (balance (the (m a))))"

text \<open>
  Both totals are sums of a value of the account over the accounts there are; the value of
  an account that does not exist is zero.
\<close>

lemma sum_dom_upd:
  fixes f :: "'v \<Rightarrow> 'b::ab_group_add"
  assumes "finite (dom m)"
  shows "(\<Sum>a \<in> dom (m(k \<mapsto> v)). f (the ((m(k \<mapsto> v)) a))) =
         (\<Sum>a \<in> dom m. f (the (m a))) - (case m k of None \<Rightarrow> 0 | Some u \<Rightarrow> f u) + f v"
proof -
  let ?g = "\<lambda>m a. f (the (m a))"
  have "(\<Sum>a \<in> dom (m(k \<mapsto> v)). ?g (m(k \<mapsto> v)) a) = f v + (\<Sum>a \<in> dom m - {k}. ?g m a)"
    using assms by (simp add: sum.insert_remove)
  also have "(\<Sum>a \<in> dom m - {k}. ?g m a) =
      (\<Sum>a \<in> dom m. ?g m a) - (case m k of None \<Rightarrow> 0 | Some u \<Rightarrow> f u)"
    using assms by (cases "m k") (auto simp: sum_diff1 dom_def)
  finally show ?thesis by (simp only: ac_simps)
qed

lemma total_upd:
  "finite (dom m) \<Longrightarrow>
   total (m(k \<mapsto> v)) = total m - balance (map_get \<lparr>balance = 0\<rparr> m k) + balance v"
  unfolding total_def by (subst sum_dom_upd) (auto simp: map_get_def split: option.split)

lemma total_int_upd:
  "finite (dom m) \<Longrightarrow>
   total_int (m(k \<mapsto> v)) = total_int m - sint (balance (map_get \<lparr>balance = 0\<rparr> m k)) + sint (balance v)"
  unfolding total_int_def by (subst sum_dom_upd) (auto simp: map_get_def split: option.split)

subsection \<open>Balances stay non-negative\<close>

text \<open>Every balance is non-negative and all the money there is fits in 64 bits.\<close>

definition ledger_ok :: "(string \<rightharpoonup> Account) \<Rightarrow> bool" where
  "ledger_ok m \<longleftrightarrow>
     finite (dom m) \<and> (\<forall>a \<in> ran m. 0 \<le> sint (balance a)) \<and> total_int m < 2 ^ 63"

lemma ledger_ok_bal:
  assumes "ledger_ok m"
  shows "0 \<le> sint (balance (map_get \<lparr>balance = 0\<rparr> m k))"
    and "sint (balance (map_get \<lparr>balance = 0\<rparr> m k)) \<le> total_int m"
proof -
  have nn: "0 \<le> sint (balance (the (m a)))" if "a \<in> dom m" for a
    using assms that by (auto simp: ledger_ok_def ran_def)
  show "0 \<le> sint (balance (map_get \<lparr>balance = 0\<rparr> m k))"
    using nn [of k] by (cases "m k") auto
  show "sint (balance (map_get \<lparr>balance = 0\<rparr> m k)) \<le> total_int m"
  proof (cases "m k")
    case None
    then show ?thesis using nn by (auto simp: total_int_def intro: sum_nonneg)
  next
    case (Some a)
    then have "k \<in> dom m" by auto
    then show ?thesis
      using member_le_sum [of k "dom m" "\<lambda>a. sint (balance (the (m a)))"] nn assms Some
      by (auto simp: total_int_def ledger_ok_def)
  qed
qed

lemma ledger_ok_upd:
  assumes "ledger_ok m" "0 \<le> sint (balance v)"
    "total_int m - sint (balance (map_get \<lparr>balance = 0\<rparr> m k)) + sint (balance v) < 2 ^ 63"
  shows "ledger_ok (m(k \<mapsto> v))"
  using assms total_int_upd [of m k v] by (auto simp: ledger_ok_def ran_def)

lemma sint_add_small:
  fixes x y :: goint
  assumes "- (2 ^ 63) \<le> sint x + sint y" "sint x + sint y < 2 ^ 63"
  shows "sint (x + y) = sint x + sint y"
  using assms by (simp add: sint_word_ariths signed_take_bit_int_eq_self)

lemma sint_diff_small:
  fixes x y :: goint
  assumes "- (2 ^ 63) \<le> sint x - sint y" "sint x - sint y < 2 ^ 63"
  shows "sint (x - y) = sint x - sint y"
  using assms by (simp add: sint_word_ariths signed_take_bit_int_eq_self)

lemma total_app_Deposit:
  "finite (dom (Accts app)) \<Longrightarrow> total (Accts (app_Deposit app name amount)) = total (Accts app) + amount"
  by (simp add: Accts_app_Deposit total_upd)

lemma total_app_Transfer:
  assumes "finite (dom (Accts app))"
  shows "total (Accts (app_Transfer app src dest amount)) = total (Accts app)"
proof (cases "\<exists>a. Accts app src = Some a \<and> \<not> sint (balance a) < sint amount")
  case True
  then obtain a where a: "Accts app src = Some a" "\<not> sint (balance a) < sint amount" by blast
  let ?m = "(Accts app)(src \<mapsto> \<lparr>balance = balance a - amount\<rparr>)"
  have "finite (dom ?m)" using assms by simp
  then show ?thesis
    unfolding Accts_app_Transfer_accept [OF a] Let_def using assms a(1) by (simp add: total_upd del: fun_upd_apply)
next
  case False
  then show ?thesis by (cases "Accts app src") (auto simp: Accts_app_Transfer_reject)
qed

lemma ledger_ok_app_Deposit:
  assumes "ledger_ok (Accts app)" "0 \<le> sint amount" "total_int (Accts app) + sint amount < 2 ^ 63"
  shows "ledger_ok (Accts (app_Deposit app name amount))"
    and "total_int (Accts (app_Deposit app name amount)) = total_int (Accts app) + sint amount"
proof -
  let ?b = "balance (map_get \<lparr>balance = 0\<rparr> (Accts app) name)"
  have s: "sint (?b + amount) = sint ?b + sint amount"
    using ledger_ok_bal [OF assms(1), of name] assms(2,3) by (intro sint_add_small) linarith+
  show "ledger_ok (Accts (app_Deposit app name amount))"
    unfolding Accts_app_Deposit using s assms(2,3) ledger_ok_bal(1) [OF assms(1), of name]
    by (simp add: ledger_ok_upd [OF assms(1)])
  show "total_int (Accts (app_Deposit app name amount)) = total_int (Accts app) + sint amount"
    unfolding Accts_app_Deposit using s assms(1) by (simp add: total_int_upd ledger_ok_def)
qed

lemma ledger_ok_app_Transfer:
  assumes "ledger_ok (Accts app)" "0 \<le> sint amount"
  shows "ledger_ok (Accts (app_Transfer app src dest amount))"
    and "total_int (Accts (app_Transfer app src dest amount)) = total_int (Accts app)"
proof -
  let ?A = "Accts app"
  have "ledger_ok (Accts (app_Transfer app src dest amount)) \<and>
      total_int (Accts (app_Transfer app src dest amount)) = total_int ?A"
  proof (cases "\<exists>a. ?A src = Some a \<and> \<not> sint (balance a) < sint amount")
    case True
    then obtain a where a: "?A src = Some a" "\<not> sint (balance a) < sint amount" by blast
    let ?m = "?A(src \<mapsto> \<lparr>balance = balance a - amount\<rparr>)"
    let ?d = "balance (map_get \<lparr>balance = 0\<rparr> ?m dest)"
    have fin: "finite (dom ?A)" using assms(1) by (simp add: ledger_ok_def)
    have a0: "0 \<le> sint (balance a)" "sint (balance a) \<le> total_int ?A" "total_int ?A < 2 ^ 63"
      using ledger_ok_bal [OF assms(1), of src] a(1) assms(1) by (auto simp: ledger_ok_def)
    have s1: "sint (balance a - amount) = sint (balance a) - sint amount"
      using a a0 assms(2) by (intro sint_diff_small) linarith+
    have t1: "total_int ?m = total_int ?A - sint amount"
      using fin a(1) s1 by (simp add: total_int_upd del: fun_upd_apply)
    have m: "ledger_ok ?m"
      using a a0 s1 assms(2) by (simp add: ledger_ok_upd [OF assms(1)] del: fun_upd_apply)
    note d = ledger_ok_bal [OF m, of dest]
    have s2: "sint (?d + amount) = sint ?d + sint amount"
      using d t1 a0 assms(2) by (intro sint_add_small) linarith+
    have "ledger_ok (?m(dest \<mapsto> \<lparr>balance = ?d + amount\<rparr>))"
      using d s2 t1 a0 assms(2) by (simp add: ledger_ok_upd [OF m] del: fun_upd_apply)
    moreover have "total_int (?m(dest \<mapsto> \<lparr>balance = ?d + amount\<rparr>)) = total_int ?A"
      using m s2 t1 by (subst total_int_upd) (simp_all add: ledger_ok_def del: fun_upd_apply)
    ultimately show ?thesis unfolding Accts_app_Transfer_accept [OF a] Let_def by blast
  next
    case False
    then show ?thesis using assms by (cases "?A src") (auto simp: Accts_app_Transfer_reject)
  qed
  then show "ledger_ok (Accts (app_Transfer app src dest amount))"
    and "total_int (Accts (app_Transfer app src dest amount)) = total_int ?A" by simp_all
qed

subsection \<open>The loop does not depend on times\<close>

definition msg_names_ok :: "Message \<Rightarrow> bool" where
  "msg_names_ok m \<longleftrightarrow> length (Names m) = (if IsDeposit m then 1 else 2)"

lemma app_ListenFrom_ok: "msg_names_ok m \<Longrightarrow> is_ok (app_ListenFrom t app m)"
  by (auto simp: app_ListenFrom_def msg_names_ok_def slice_get_def Let_def split: if_splits)

text \<open>What the application shows: everything but the file of time stamps.\<close>

definition shown :: "Application \<Rightarrow> (string \<rightharpoonup> Account) \<times> string \<times> string" where
  "shown app = (Accts app, stdout app, writer app)"

lemma shown_print: "shown a = shown b \<Longrightarrow> shown (app_print a) = shown (app_print b)"
  by (simp add: shown_def app_print_def Let_def)

lemma shown_Deposit: "shown a = shown b \<Longrightarrow> shown (app_Deposit a name x) = shown (app_Deposit b name x)"
  unfolding app_Deposit_def by (rule shown_print) (auto simp: shown_def split: option.split)

lemma shown_Transfer: "shown a = shown b \<Longrightarrow> shown (app_Transfer a src dest x) = shown (app_Transfer b src dest x)"
  unfolding app_Transfer_def by (rule shown_print) (auto simp: shown_def Let_def split: option.split)

lemma shown_ListenFrom:
  assumes "shown a = shown b" "IsDeposit m = IsDeposit m'" "Names m = Names m'" "Amount m = Amount m'"
  shows "map_sum id shown (app_ListenFrom t a m) = map_sum id shown (app_ListenFrom t' b m')"
proof -
  have "shown (a\<lparr>writer_p := w, stdout := stdout a @ so, writer := writer a @ wr\<rparr>) =
      shown (b\<lparr>writer_p := w', stdout := stdout b @ so, writer := writer b @ wr\<rparr>)" for w w' so wr
    using assms(1) by (simp add: shown_def)
  note P = shown_Deposit [OF this] shown_Transfer [OF this]
  show ?thesis
    unfolding app_ListenFrom_def Let_def assms(2-4)
    by (cases "slice_get (Names m') 0"; cases "slice_get (Names m') 1") (simp_all add: P)
qed

lemma shown_listen_all:
  "length ts = length ms \<Longrightarrow> length us = length ms' \<Longrightarrow>
   map (\<lambda>m. (IsDeposit m, Names m, Amount m)) ms = map (\<lambda>m. (IsDeposit m, Names m, Amount m)) ms' \<Longrightarrow>
   shown a = shown b \<Longrightarrow>
   map_sum id shown (listen_all a (zip ts ms)) = map_sum id shown (listen_all b (zip us ms'))"
proof (induction ms arbitrary: ms' ts us a b)
  case (Cons m ms)
  obtain m' ms'' where l1: "ms' = m' # ms''" using Cons.prems(3) by (cases ms') auto
  obtain t ts' where l2: "ts = t # ts'" using Cons.prems(1) by (cases ts) auto
  obtain u us' where l3: "us = u # us'" using Cons.prems(2) l1 by (cases us) auto
  note l = l1 l2 l3
  have "map_sum id shown (app_ListenFrom t a m) = map_sum id shown (app_ListenFrom u b m')"
    using Cons.prems l by (intro shown_ListenFrom) auto
  then show ?case
    using Cons.IH [of ts' us' ms''] Cons.prems l
    by (cases "app_ListenFrom t a m"; cases "app_ListenFrom u b m'") auto
qed simp

lemma listen_all_ok: "\<forall>m \<in> snd ` set ms. msg_names_ok m \<Longrightarrow> is_ok (listen_all app ms)"
proof (induction app ms rule: listen_all.induct)
  case (2 app t_p msg ms)
  then obtain app' where "app_ListenFrom t_p app msg = Inr app'"
    using app_ListenFrom_ok [of msg t_p app] by (auto simp: is_ok_iff)
  then show ?case using 2 by simp
qed simp

subsection \<open>The ledger is exact\<close>

definition deposits :: "(string \<times> Message) list \<Rightarrow> int" where
  "deposits ms = (\<Sum>(t, m) \<leftarrow> ms. if IsDeposit m then sint (Amount m) else 0)"

lemma deposits_simps [simp]:
  "deposits [] = 0" "deposits ((t, m) # ms) = (if IsDeposit m then sint (Amount m) else 0) + deposits ms"
  by (simp_all add: deposits_def)

lemma deposits_nonneg: "\<forall>(t, m) \<in> set ms. 0 \<le> sint (Amount m) \<Longrightarrow> 0 \<le> deposits ms"
  by (induction ms) auto

lemma ListenFrom_exact:
  assumes "ledger_ok (Accts app)" "msg_names_ok m" "0 \<le> sint (Amount m)"
    "total_int (Accts app) + (if IsDeposit m then sint (Amount m) else 0) < 2 ^ 63"
  shows "\<exists>app'. app_ListenFrom t app m = Inr app' \<and> ledger_ok (Accts app') \<and>
    total_int (Accts app') = total_int (Accts app) + (if IsDeposit m then sint (Amount m) else 0)"
proof (cases "IsDeposit m")
  case True
  then obtain name where n: "Names m = [name]" using assms(2) by (auto simp: msg_names_ok_def length_Suc_conv)
  obtain app2 where d: "app_ListenFrom t app m = Inr (app_Deposit app2 name (Amount m))" "Accts app2 = Accts app"
    using True by (simp add: app_ListenFrom_def n slice_get_def Let_def)
  show ?thesis using ledger_ok_app_Deposit [of app2 "Amount m" name] True assms(1,3,4) by (simp add: d)
next
  case False
  then obtain src dest where n: "Names m = [src, dest]"
    using assms(2) by (auto simp: msg_names_ok_def numeral_2_eq_2 length_Suc_conv)
  obtain app2 where x: "app_ListenFrom t app m = Inr (app_Transfer app2 src dest (Amount m))" "Accts app2 = Accts app"
    using False by (simp add: app_ListenFrom_def n slice_get_def Let_def)
  show ?thesis using ledger_ok_app_Transfer [of app2 "Amount m" src dest] False assms(1,3) by (simp add: x)
qed

lemma listen_all_exact:
  assumes "ledger_ok (Accts app)" "\<forall>(t, m) \<in> set ms. msg_names_ok m" "\<forall>(t, m) \<in> set ms. 0 \<le> sint (Amount m)"
    "total_int (Accts app) + deposits ms < 2 ^ 63"
  shows "\<exists>app'. listen_all app ms = Inr app' \<and> ledger_ok (Accts app') \<and> total_int (Accts app') = total_int (Accts app) + deposits ms"
  using assms
proof (induction ms arbitrary: app)
  case (Cons x ms)
  obtain t m where x: "x = (t, m)" by (cases x)
  have "0 \<le> deposits ms" using deposits_nonneg Cons.prems(3) by simp
  then obtain app1 where a: "app_ListenFrom t app m = Inr app1" "ledger_ok (Accts app1)"
    "total_int (Accts app1) = total_int (Accts app) + (if IsDeposit m then sint (Amount m) else 0)"
    using ListenFrom_exact [OF Cons.prems(1), of m t] Cons.prems(2-4) x by auto
  show ?case using Cons.IH [OF a(2)] Cons.prems(2-4) a(1,3) by (auto simp: x)
qed simp

text \<open>
  C31: The 64-bit ledger is exact: as long as all amounts are non-negative and the deposits add up to less than
  \<open>2 ^ 63\<close>, the application processes every sequence of well-formed messages without a panic and without
  overflow: no balance is negative, none is more than what was deposited, and together they are exactly the deposits.
\<close>

theorem ledger_bounds:
  assumes "Accts app = Map.empty" "\<forall>(t, m) \<in> set ms. msg_names_ok m" "\<forall>(t, m) \<in> set ms. 0 \<le> sint (Amount m)"
    "deposits ms < 2 ^ 63"
  shows "\<exists>app'. listen_all app ms = Inr app' \<and> (\<Sum>a \<in> dom (Accts app'). sint (balance (the (Accts app' a)))) = deposits ms \<and>
    (\<forall>name a. Accts app' name = Some a \<longrightarrow> 0 \<le> sint (balance a) \<and> sint (balance a) \<le> deposits ms)"
proof -
  have "ledger_ok (Accts app)" "total_int (Accts app) = 0" using assms(1) by (simp_all add: ledger_ok_def total_int_def)
  then obtain app' where a: "listen_all app ms = Inr app'" "ledger_ok (Accts app')" "total_int (Accts app') = deposits ms"
    using listen_all_exact [of app ms] assms(2-4) by auto
  have "0 \<le> sint (balance b) \<and> sint (balance b) \<le> deposits ms" if "Accts app' name = Some b" for name b
    using ledger_ok_bal [OF a(2), of name] that a(3) by simp
  then show ?thesis using a(1,3) by (auto simp: total_int_def)
qed

definition ledger_msg :: "bool \<Rightarrow> string list \<Rightarrow> goint \<Rightarrow> Message" where
  "ledger_msg dep names x = \<lparr>Id_m = ''m'', Sender = 0, Priority = 1, Index = 0, NodeId = ''node1'', RNodeId = ''node1'',
     Status = ''A'', IsDeliverable = True, IsDeposit = dep, Names = names, Amount = x\<rparr>"

definition ledger_msgs :: "(string \<times> Message) list" where
  "ledger_msgs = [([], ledger_msg True [''a''] 10), ([], ledger_msg False [''a'', ''b''] 4), ([], ledger_msg False [''b'', ''c''] 9)]"

theorem ledger_bounds_witness:
  "\<exists>app'. listen_all app_Init ledger_msgs = Inr app' \<and>
     (\<Sum>a \<in> dom (Accts app'). sint (balance (the (Accts app' a)))) = 10"
proof -
  have "deposits ledger_msgs = 10" by (simp add: ledger_msgs_def ledger_msg_def)
  moreover have "\<forall>(t, m) \<in> set ledger_msgs. msg_names_ok m" "\<forall>(t, m) \<in> set ledger_msgs. 0 \<le> sint (Amount m)"
    by (simp_all add: ledger_msgs_def ledger_msg_def msg_names_ok_def)
  ultimately obtain app' where "listen_all app_Init ledger_msgs = Inr app'"
    "(\<Sum>a \<in> dom (Accts app'). sint (balance (the (Accts app' a)))) = 10"
    using ledger_bounds [of app_Init ledger_msgs] by (auto simp: app_Init_def)
  then show ?thesis by blast
qed

end
