(* ===== verification/Multicast_Node.thy ===== *)
theory Multicast_Node
  imports Multicast_Isis Multicast_App
begin

section \<open>Multicast: configuration, start and transactions of a node\<close>

text \<open>
  \<^verbatim>\<open>multicast-demo/types/node.go\<close>, \<^verbatim>\<open>main.go\<close> and \<^verbatim>\<open>utils/errorUtil.go\<close>. The text of the configuration file
  and the resolution of host names are arguments. \<open>run_mcast\<close> is the state of a node
  when \<^verbatim>\<open>Run\<close> has connected to every node of the configuration; \<open>Multicast_Start\<close> has the way there.
\<close>

subsection \<open>The configuration file\<close>

record SockAddr =
  nodeId :: string
  host :: string
  ip :: string
  sport :: string

record Node =
  nid :: string
  port :: string
  pool :: "SockAddr list"

definition ExitFromErr :: "'a option \<Rightarrow> 'a result" where
  "ExitFromErr r = (case r of None \<Rightarrow> Inl (PanicErr []) | Some x \<Rightarrow> Inr x)"

text \<open>The line of one node. \<open>resolve\<close> is \<^verbatim>\<open>net.ResolveIPAddr\<close>.\<close>

definition conf_line :: "(string \<Rightarrow> string option) \<Rightarrow> Node \<Rightarrow> string \<Rightarrow> Node result" where
  "conf_line resolve n line =
     (let parsedLine = split_on CHR '' '' (trim_suffix [CHR 0x0A] line)
      in bind_result (slice_get parsedLine 0) (\<lambda>p0.
         bind_result (if p0 = nid n then map_sum id (\<lambda>p. n\<lparr>port := p\<rparr>) (slice_get parsedLine 2)
                      else Inr n) (\<lambda>n1.
         bind_result (slice_get parsedLine 1) (\<lambda>p1.
         bind_result (ExitFromErr (resolve p1)) (\<lambda>ipv4.
         bind_result (slice_get parsedLine 2) (\<lambda>p2.
           Inr (n1\<lparr>pool := pool n1 @ [\<lparr>nodeId = p0, host = p1, ip = ipv4, sport = p2\<rparr>]\<rparr>)))))))"

fun conf_lines :: "(string \<Rightarrow> string option) \<Rightarrow> nat \<Rightarrow> Node \<Rightarrow> string \<Rightarrow> Node result" where
  "conf_lines resolve 0 n text = Inr n"
| "conf_lines resolve (Suc k) n text =
     (case read_string text of (line, rest, _) \<Rightarrow>
        bind_result (conf_line resolve n line) (\<lambda>n'. conf_lines resolve k n' rest))"

definition readConf :: "(string \<Rightarrow> string option) \<Rightarrow> Node \<Rightarrow> string \<Rightarrow> (Node \<times> int) result" where
  "readConf resolve n text =
     (case read_string text of (lineNum, rest, eof) \<Rightarrow>
        if eof then Inl (PanicErr [])
        else bind_result (ExitFromErr (atoi_int (trim_suffix [CHR 0x0A] lineNum))) (\<lambda>num.
             bind_result (conf_lines resolve (nat num) n rest) (\<lambda>n'. Inr (n', num))))"

subsection \<open>Start of a node\<close>

text \<open>The loop that renames the nodes of the pool and finds the number of this one.\<close>

fun rename_pool :: "string \<Rightarrow> int \<Rightarrow> int \<Rightarrow> SockAddr list \<Rightarrow> SockAddr list \<times> int" where
  "rename_pool myid i nidx [] = ([], nidx)"
| "rename_pool myid i nidx (a # as) =
     (let nidx' = (if nodeId a = myid then i + 1 else nidx);
          (as', r) = rename_pool myid (i + 1) nidx' as
      in (a\<lparr>nodeId := node_name (i + 1)\<rparr> # as', r))"

definition run_names :: "string \<Rightarrow> Node \<Rightarrow> Node" where
  "run_names myid n =
     (let (pool', nidx) = rename_pool myid 0 0 (pool n)
      in n\<lparr>nid := node_name nidx, pool := pool'\<rparr>)"

text \<open>The state of the protocol once every node of the pool is connected.\<close>

definition run_mcast :: "Node \<Rightarrow> int \<Rightarrow> Multicast" where
  "run_mcast n numOfNodes =
     \<lparr>A_mc = 0, P_mc = 0, curNodeId = nid n, aliveNodes = numOfNodes,
      nfailCheck = (\<lambda>k. if k \<in> nodeId ` set (pool n) then Some False else None),
      messageCheck = Map.empty,
      messageNCheck = (\<lambda>k. if k \<in> nodeId ` set (pool n) then Some 0 else None),
      pq_mc = [], proposed = Map.empty, repliers = Map.empty\<rparr>"

text \<open>Which node an accepted connection is attributed to: the last one with its address.\<close>

fun peer_of_ip :: "SockAddr list \<Rightarrow> string \<Rightarrow> string \<Rightarrow> string" where
  "peer_of_ip [] addr d_nid = d_nid"
| "peer_of_ip (a # as) addr d_nid = peer_of_ip as addr (if ip a = addr then nodeId a else d_nid)"

subsection \<open>Transactions from the console\<close>

definition parse_tx :: "string \<Rightarrow> string \<Rightarrow> string \<Rightarrow> Message result" where
  "parse_tx myid uuid tx =
     (let txList = split_on CHR '' '' (trim_suffix [CHR 0x0A] tx)
      in bind_result (slice_get txList 0) (\<lambda>t0.
         bind_result
           (if t0 \<noteq> ''DEPOSIT'' then
              bind_result (slice_get txList 1) (\<lambda>a.
              bind_result (slice_get txList 3) (\<lambda>b.
              bind_result (slice_get txList 4) (\<lambda>s.
              bind_result (ExitFromErr (atoi s)) (\<lambda>amount. Inr (False, [a, b], amount)))))
            else
              bind_result (slice_get txList 1) (\<lambda>a.
              bind_result (slice_get txList 2) (\<lambda>s.
              bind_result (ExitFromErr (atoi s)) (\<lambda>amount. Inr (True, [a], amount)))))
           (\<lambda>(isDeposit, names, amount).
              bind_result (ExitFromErr (atoi_int (drop 4 myid))) (\<lambda>nodeNum.
                Inr \<lparr>Id_m = uuid, Sender = nodeNum, Priority = 0, Index = -1, NodeId = myid,
                     RNodeId = myid, Status = ''i'', IsDeliverable = False, IsDeposit = isDeposit,
                     Names = names, Amount = amount\<rparr>))))"

subsection \<open>Facts\<close>

lemma rename_pool_names:
  "map nodeId (fst (rename_pool myid i nidx as)) = map node_name [i + 1..i + int (length as)]"
proof (induction as arbitrary: i nidx)
  case (Cons a as)
  have "[i + 1..i + int (length (a # as))] = (i + 1) # [i + 1 + 1..i + 1 + int (length as)]"
    by (subst upto_rec1) (auto simp: add_ac)
  moreover have "map nodeId (fst (rename_pool myid i nidx (a # as))) =
      node_name (i + 1) # map nodeId (fst (rename_pool myid (i + 1) (if nodeId a = myid then i + 1 else nidx) as))"
    by (simp add: Let_def case_prod_beta)
  ultimately show ?case using Cons by simp
qed simp

lemma node_name_inject: "int64_range a \<Longrightarrow> int64_range b \<Longrightarrow> node_name a = node_name b \<longleftrightarrow> a = b"
  unfolding node_name_def using atoi_itoa_int by (metis option.inject same_append_eq)

lemma node_name_number: "int64_range i \<Longrightarrow> atoi_int (drop 4 (node_name i)) = Some i"
  by (simp add: node_name_def atoi_itoa_int)

text \<open>A node is identified by its address only: an earlier node with the same one never is.\<close>

lemma peer_of_ip_last:
  "a \<in> set as \<Longrightarrow> ip a = addr \<Longrightarrow>
   \<exists>b \<in> set as. ip b = addr \<and> peer_of_ip as addr d = nodeId b"
proof (induction as arbitrary: d a)
  case (Cons c as)
  show ?case
  proof (cases "\<exists>b \<in> set as. ip b = addr")
    case True
    then obtain b where "b \<in> set as" "ip b = addr" by blast
    from Cons.IH [OF this] show ?thesis by simp
  next
    case False
    then have "peer_of_ip as addr e = e" for e by (induction as arbitrary: e) auto
    then show ?thesis using Cons.prems False by auto
  qed
qed simp

text \<open>What a transaction line gives.\<close>

lemma parse_tx_deposit:
  assumes "CHR '' '' \<notin> set name" "int64_range i"
  shows "parse_tx (node_name i) uuid (''DEPOSIT '' @ name @ '' '' @ itoa amount @ [CHR 0x0A]) =
    Inr \<lparr>Id_m = uuid, Sender = i, Priority = 0, Index = -1, NodeId = node_name i,
         RNodeId = node_name i, Status = ''i'', IsDeliverable = False, IsDeposit = True,
         Names = [name], Amount = amount\<rparr>"
proof -
  have "split_on CHR '' '' (''DEPOSIT '' @ name @ '' '' @ itoa amount) = [''DEPOSIT'', name, itoa amount]"
    using split_join [of "[''DEPOSIT'', name, itoa amount]" "CHR '' ''"] assms(1)
    by (simp add: itoa_def itoa_int_no_space)
  moreover have "trim_suffix [CHR 0x0A] (''DEPOSIT '' @ name @ '' '' @ itoa amount @ [CHR 0x0A]) =
      ''DEPOSIT '' @ name @ '' '' @ itoa amount"
    using trim_suffix_append [of "[CHR 0x0A]" "''DEPOSIT '' @ name @ '' '' @ itoa amount"] by simp
  ultimately show ?thesis
    using node_name_number [OF assms(2)] by (simp add: parse_tx_def ExitFromErr_def slice_get_def del: trim_suffix_char)
qed

lemma parse_tx_transfer:
  assumes "CHR '' '' \<notin> set src" "CHR '' '' \<notin> set dest" "int64_range i"
  shows "parse_tx (node_name i) uuid
      (''TRANSFER '' @ src @ '' -> '' @ dest @ '' '' @ itoa amount @ [CHR 0x0A]) =
    Inr \<lparr>Id_m = uuid, Sender = i, Priority = 0, Index = -1, NodeId = node_name i,
         RNodeId = node_name i, Status = ''i'', IsDeliverable = False, IsDeposit = False,
         Names = [src, dest], Amount = amount\<rparr>"
proof -
  have "split_on CHR '' '' (''TRANSFER '' @ src @ '' -> '' @ dest @ '' '' @ itoa amount) =
      [''TRANSFER'', src, ''->'', dest, itoa amount]"
    using split_join [of "[''TRANSFER'', src, ''->'', dest, itoa amount]" "CHR '' ''"] assms(1,2)
    by (simp add: itoa_def itoa_int_no_space)
  moreover have "trim_suffix [CHR 0x0A]
      (''TRANSFER '' @ src @ '' -> '' @ dest @ '' '' @ itoa amount @ [CHR 0x0A]) =
      ''TRANSFER '' @ src @ '' -> '' @ dest @ '' '' @ itoa amount"
    using trim_suffix_append [of "[CHR 0x0A]" "''TRANSFER '' @ src @ '' -> '' @ dest @ '' '' @ itoa amount"]
    by simp
  ultimately show ?thesis
    using node_name_number [OF assms(3)] by (simp add: parse_tx_def ExitFromErr_def slice_get_def del: trim_suffix_char)
qed

text \<open>The messages a node casts have the names the ledger reads.\<close>

lemma parse_tx_names_ok: "parse_tx myid uuid tx = Inr m \<Longrightarrow> msg_names_ok m"
  unfolding parse_tx_def Let_def
  by (auto simp: bind_result_Inr_iff msg_names_ok_def simp del: trim_suffix_char split: if_splits)

lemma parse_tx_fields:
  assumes "parse_tx (node_name i) uuid tx = Inr m" "int64_range i"
  shows "Id_m m = uuid" "Sender m = i" "NodeId m = node_name i" "Status m = ''i''" "msg_names_ok m"
proof -
  show "msg_names_ok m" using parse_tx_names_ok [OF assms(1)] .
  show "Id_m m = uuid" "Sender m = i" "NodeId m = node_name i" "Status m = ''i''"
    using assms(1) node_name_number [OF assms(2)] unfolding parse_tx_def Let_def
    by (auto simp: bind_result_Inr_iff ExitFromErr_def simp del: trim_suffix_char split: if_splits)
qed

end
