(* ===== verification/Isis_Spec.thy ===== *)
theory Isis_Spec
  imports Message_PQ
begin

section \<open>Multicast: the protocol in the abstract\<close>

text \<open>
  The specification that the code of the multicast demo is shown to implement, when no node
  fails. Nodes are the numbers 1 to \<open>n\<close>; \<open>achan s j i\<close> is the connection from \<open>j\<close> to \<open>i\<close>, which
  delivers in order. A node numbers the messages it sees by their place in \<open>ahist\<close>: that place
  is the priority it proposes. A message carries an identifier only, since every priority is
  determined by the histories. Three facts make the deliveries agree: a node relays a message
  before it proposes a priority for it, connections are first-in first-out, and the agreed
  priority is the greatest proposal. The node whose proposal wins has therefore made every
  other node see all that it saw before, before they see the agreement.
\<close>

subsection \<open>Ranks and pasts\<close>

definition rank :: "'a list \<Rightarrow> 'a \<Rightarrow> nat" where
  "rank xs x = Suc (length (takeWhile (\<lambda>y. y \<noteq> x) xs))"

definition past :: "'a list \<Rightarrow> 'a \<Rightarrow> 'a set" where
  "past xs x = insert x (set (takeWhile (\<lambda>y. y \<noteq> x) xs))"

lemma rank_append [simp]: "x \<in> set xs \<Longrightarrow> rank (xs @ ys) x = rank xs x"
  by (simp add: rank_def takeWhile_append1)

lemma past_append [simp]: "x \<in> set xs \<Longrightarrow> past (xs @ ys) x = past xs x"
  by (simp add: past_def takeWhile_append1)

lemma takeWhile_first: "x \<notin> set ys \<Longrightarrow> takeWhile (\<lambda>y. y \<noteq> x) (ys @ x # zs) = ys"
  by (induction ys) auto

lemma takeWhile_later:
  "y \<notin> set ys \<Longrightarrow> takeWhile (\<lambda>z. z \<noteq> y) (ys @ zs) = ys @ takeWhile (\<lambda>z. z \<noteq> y) zs"
  by (induction ys) auto

lemma rank_snoc: "x \<notin> set xs \<Longrightarrow> rank (xs @ [x]) x = Suc (length xs)"
  by (simp add: rank_def takeWhile_first)

lemma past_subset: "x \<in> set xs \<Longrightarrow> past xs x \<subseteq> set xs"
  by (auto simp: past_def dest: set_takeWhileD)

lemma rank_le_length: "x \<in> set xs \<Longrightarrow> rank xs x \<le> length xs"
proof -
  assume "x \<in> set xs"
  then obtain ys zs where "xs = ys @ x # zs" "x \<notin> set ys" using split_list_first by force
  then show ?thesis by (simp add: rank_def takeWhile_first)
qed

lemma rank_less_if_not_past:
  assumes "x \<in> set xs" "y \<in> set xs" "y \<notin> past xs x"
  shows "rank xs x < rank xs y"
proof -
  obtain ys zs where xs: "xs = ys @ x # zs" "x \<notin> set ys"
    using assms(1) split_list_first by force
  have p: "past xs x = insert x (set ys)" using xs by (simp add: past_def takeWhile_first)
  then have "y \<noteq> x" "y \<notin> set ys" using assms(3) by auto
  then have "takeWhile (\<lambda>z. z \<noteq> y) xs = ys @ x # takeWhile (\<lambda>z. z \<noteq> y) zs"
    using xs by (simp add: takeWhile_later)
  moreover have "takeWhile (\<lambda>z. z \<noteq> x) xs = ys" using xs by (simp add: takeWhile_first)
  ultimately show ?thesis by (simp add: rank_def)
qed

subsection \<open>States and steps\<close>

datatype 'id amsg = Init 'id | Prop 'id | Agree 'id

fun is_init :: "'id amsg \<Rightarrow> bool" where
  "is_init (Init x) = True"
| "is_init _ = False"

record 'id astate =
  ahist :: "nat \<Rightarrow> 'id list"
  achan :: "nat \<Rightarrow> nat \<Rightarrow> 'id amsg list"
  agot :: "'id \<Rightarrow> nat set"
  aacc :: "nat \<Rightarrow> 'id set"
  adlv :: "nat \<Rightarrow> 'id list"
  asent :: "'id \<rightharpoonup> nat"

definition nodes :: "nat \<Rightarrow> nat set" where
  "nodes n = {1..n}"

definition agreed :: "nat \<Rightarrow> 'id astate \<Rightarrow> 'id \<Rightarrow> nat" where
  "agreed n s x = Max ((\<lambda>m. rank (ahist s m) x) ` nodes n)"

definition sender_of :: "'id astate \<Rightarrow> 'id \<Rightarrow> nat" where
  "sender_of s x = the (asent s x)"

definition final_key :: "nat \<Rightarrow> 'id astate \<Rightarrow> 'id \<Rightarrow> isis_key" where
  "final_key n s x = Key (int (agreed n s x)) (int (sender_of s x))"

text \<open>The key under which node \<open>i\<close> holds a message: agreed once it has heard the agreement.\<close>

definition cur_key :: "nat \<Rightarrow> 'id astate \<Rightarrow> nat \<Rightarrow> 'id \<Rightarrow> isis_key" where
  "cur_key n s i x =
     (if x \<in> aacc s i then final_key n s x
      else Key (int (rank (ahist s i) x)) (int (sender_of s x)))"

text \<open>
  What a hold-back queue may deliver: agreed messages, none behind one it still holds; it does
  not hold back agreed messages only.
\<close>

definition may_deliver :: "nat \<Rightarrow> 'id astate \<Rightarrow> nat \<Rightarrow> 'id list \<Rightarrow> bool" where
  "may_deliver n s i ds \<longleftrightarrow>
     distinct ds \<and> set ds \<subseteq> aacc s i - set (adlv s i) \<and> sorted (map (final_key n s) ds) \<and>
     (\<forall>d \<in> set ds. \<forall>x \<in> set (ahist s i) - set (adlv s i) - set ds. final_key n s d \<le> cur_key n s i x) \<and>
     (set (ahist s i) - set (adlv s i) - set ds \<subseteq> aacc s i \<longrightarrow> set (ahist s i) - set (adlv s i) - set ds = {})"

definition put :: "(nat \<Rightarrow> nat \<Rightarrow> 'm list) \<Rightarrow> nat \<Rightarrow> (nat \<Rightarrow> 'm list) \<Rightarrow> nat \<Rightarrow> nat \<Rightarrow> 'm list" where
  "put ch i out = ch(i := (\<lambda>k. ch i k @ out k))"

definition take_from :: "(nat \<Rightarrow> nat \<Rightarrow> 'm list) \<Rightarrow> nat \<Rightarrow> nat \<Rightarrow> nat \<Rightarrow> nat \<Rightarrow> 'm list" where
  "take_from ch j i = ch(j := (ch j)(i := tl (ch j i)))"

definition ainit :: "'id astate" where
  "ainit = \<lparr>ahist = (\<lambda>_. []), achan = (\<lambda>_ _. []), agot = (\<lambda>_. {}), aacc = (\<lambda>_. {}),
            adlv = (\<lambda>_. []), asent = Map.empty\<rparr>"

definition see_out :: "nat \<Rightarrow> 'id astate \<Rightarrow> nat \<Rightarrow> 'id \<Rightarrow> nat \<Rightarrow> 'id amsg list" where
  "see_out n s i x k =
     (if k = i \<or> k \<notin> nodes n then [] else [Init x]) @ (if k = sender_of s x then [Prop x] else [])"

text \<open>
  The sender transmits a message to one node at a time; it may do so while it relays another
  message, so the transmission may end up anywhere among what the channel holds.
\<close>

inductive astep :: "nat \<Rightarrow> 'id astate \<Rightarrow> 'id astate \<Rightarrow> bool" for n where
  submit: "asent s x = None \<Longrightarrow> i \<in> nodes n \<Longrightarrow> astep n s (s\<lparr>asent := (asent s)(x \<mapsto> i)\<rparr>)"
| transmit: "asent s x \<noteq> None \<Longrightarrow> i \<in> nodes n \<Longrightarrow> k \<in> nodes n \<Longrightarrow> achan s i k = us @ vs \<Longrightarrow>
    astep n s (s\<lparr>achan := (achan s)(i := (achan s i)(k := us @ Init x # vs))\<rparr>)"
| see_old: "i \<in> nodes n \<Longrightarrow> j \<in> nodes n \<Longrightarrow> achan s j i = Init x # rest \<Longrightarrow> x \<in> set (ahist s i) \<Longrightarrow>
    astep n s (s\<lparr>achan := take_from (achan s) j i\<rparr>)"
| see_new: "i \<in> nodes n \<Longrightarrow> j \<in> nodes n \<Longrightarrow> achan s j i = Init x # rest \<Longrightarrow> x \<notin> set (ahist s i) \<Longrightarrow>
    astep n s (s\<lparr>ahist := (ahist s)(i := ahist s i @ [x]),
                achan := put (take_from (achan s) j i) i (see_out n s i x)\<rparr>)"
| reply: "i \<in> nodes n \<Longrightarrow> j \<in> nodes n \<Longrightarrow> achan s j i = Prop x # rest \<Longrightarrow>
    insert j (agot s x) \<noteq> nodes n \<Longrightarrow>
    astep n s (s\<lparr>agot := (agot s)(x := insert j (agot s x)), achan := take_from (achan s) j i\<rparr>)"
| decide: "i \<in> nodes n \<Longrightarrow> j \<in> nodes n \<Longrightarrow> achan s j i = Prop x # rest \<Longrightarrow>
    insert j (agot s x) = nodes n \<Longrightarrow>
    astep n s (s\<lparr>agot := (agot s)(x := insert j (agot s x)),
                achan := put (take_from (achan s) j i) i
                           (\<lambda>k. if k \<in> nodes n then [Agree x] else [])\<rparr>)"
| accept: "i \<in> nodes n \<Longrightarrow> j \<in> nodes n \<Longrightarrow> achan s j i = Agree x # rest \<Longrightarrow>
    s' = s\<lparr>aacc := (aacc s)(i := insert x (aacc s i)), achan := take_from (achan s) j i\<rparr> \<Longrightarrow>
    may_deliver n s' i ds \<Longrightarrow>
    astep n s (s'\<lparr>adlv := (adlv s)(i := adlv s i @ ds)\<rparr>)"

inductive areach :: "nat \<Rightarrow> 'id astate \<Rightarrow> bool" for n where
  start: "areach n ainit"
| step: "areach n s \<Longrightarrow> astep n s t \<Longrightarrow> areach n t"

lemma put_apply [simp]: "put ch i out j k = (if j = i then ch j k @ out k else ch j k)"
  by (simp add: put_def)

lemma put_nothing [simp]: "put ch i (\<lambda>_. []) = ch"
  by (simp add: put_def)

lemma take_from_apply [simp]:
  "take_from ch j i j' i' = (if j' = j \<and> i' = i then tl (ch j i) else ch j' i')"
  by (simp add: take_from_def)

subsection \<open>Invariants about who has sent what\<close>

definition inv_hist :: "nat \<Rightarrow> 'id astate \<Rightarrow> bool" where
  "inv_hist n s \<longleftrightarrow> ran (asent s) \<subseteq> nodes n \<and>
     (\<forall>i. distinct (ahist s i) \<and> set (ahist s i) \<subseteq> dom (asent s)) \<and>
     (\<forall>j i x. Init x \<in> set (achan s j i) \<longrightarrow> asent s x \<noteq> None)"

definition inv_prop :: "nat \<Rightarrow> 'id astate \<Rightarrow> bool" where
  "inv_prop n s \<longleftrightarrow>
     (\<forall>x. agot s x \<subseteq> nodes n \<and> (\<forall>m \<in> agot s x. x \<in> set (ahist s m))) \<and>
     (\<forall>j i x. Prop x \<in> set (achan s j i) \<longrightarrow>
        asent s x = Some i \<and> x \<in> set (ahist s j) \<and> j \<notin> agot s x)"

definition inv_agree :: "nat \<Rightarrow> 'id astate \<Rightarrow> bool" where
  "inv_agree n s \<longleftrightarrow>
     (\<forall>i. set (adlv s i) \<subseteq> aacc s i \<and> distinct (adlv s i)) \<and>
     (\<forall>i. \<forall>x \<in> aacc s i. agot s x = nodes n) \<and>
     (\<forall>j i x. Agree x \<in> set (achan s j i) \<longrightarrow>
        agot s x = nodes n \<and> x \<notin> aacc s i \<and> asent s x = Some j)"

definition inv_once :: "'id astate \<Rightarrow> bool" where
  "inv_once s \<longleftrightarrow> (\<forall>j i. distinct (filter (\<lambda>m. \<not> is_init m) (achan s j i)))"

lemmas inv_sent_defs = inv_hist_def inv_prop_def inv_agree_def inv_once_def

lemma inv_sent_init:
  "inv_hist n ainit \<and> inv_prop n ainit \<and> inv_agree n ainit \<and> inv_once ainit"
  by (simp add: inv_sent_defs ainit_def)

lemma in_tl: "x \<in> set (tl xs) \<Longrightarrow> x \<in> set xs"
  by (cases xs) auto

lemma transmit_old:
  "achan s i k = us @ vs \<Longrightarrow> m \<in> set us \<Longrightarrow> m \<in> set (achan s i k)"
  "achan s i k = us @ vs \<Longrightarrow> m \<in> set vs \<Longrightarrow> m \<in> set (achan s i k)"
  by simp_all

lemma inv_onceD:
  assumes "inv_once s" "achan s j i = m # rest" "\<not> is_init m"
  shows "m \<notin> set (tl (achan s j i))"
proof -
  have "distinct (filter (\<lambda>m. \<not> is_init m) (achan s j i))" using assms(1) by (simp add: inv_once_def)
  then show ?thesis using assms(2,3) by auto
qed

lemma inv_hist_step: "astep n s t \<Longrightarrow> inv_hist n s \<Longrightarrow> inv_hist n t"
proof (induction rule: astep.induct)
  case (submit s x i)
  then show ?case by (fastforce simp: inv_hist_def ran_def)
next
  case (see_new i j s x rest)
  have "Init x \<in> set (achan s j i)" using see_new(3) by simp
  then have "asent s x \<noteq> None" using see_new(5) unfolding inv_hist_def by blast
  then show ?case using see_new(4,5)
    by (auto simp: inv_hist_def see_out_def dest: in_tl split: if_splits)
next
  case (see_old i j s x rest)
  show ?case using see_old(5) by (auto simp: inv_hist_def dest: in_tl split: if_splits)
next
  case (reply i j s x rest)
  show ?case using reply(5) by (auto simp: inv_hist_def dest: in_tl split: if_splits)
next
  case (decide i j s x rest)
  show ?case using decide(5) by (auto simp: inv_hist_def dest: in_tl split: if_splits)
next
  case (accept i j s x rest s' ds)
  show ?case using accept(4,6) by (auto simp: inv_hist_def dest: in_tl split: if_splits)
next
  case (transmit s x i k us vs)
  show ?case using transmit(1,5) unfolding inv_hist_def
    by (auto dest!: transmit_old [OF transmit(4)] split: if_splits)
qed

lemma inv_prop_step:
  "astep n s t \<Longrightarrow> inv_hist n s \<Longrightarrow> inv_once s \<Longrightarrow> inv_prop n s \<Longrightarrow> inv_prop n t"
proof (induction rule: astep.induct)
  case (submit s x i)
  then show ?case by (fastforce simp: inv_prop_def inv_hist_def)
next
  case (see_old i j s x rest)
  show ?case using see_old(7) by (auto simp: inv_prop_def dest: in_tl split: if_splits)
next
  case (see_new i j s x rest)
  have "Init x \<in> set (achan s j i)" using see_new(3) by simp
  then have "asent s x \<noteq> None" using see_new(5) unfolding inv_hist_def by blast
  then have "asent s x = Some (sender_of s x)" by (auto simp: sender_of_def)
  moreover have "i \<notin> agot s x" using see_new(4,7) by (auto simp: inv_prop_def)
  ultimately show ?case using see_new(7)
    by (auto simp: inv_prop_def see_out_def dest: in_tl split: if_splits)
next
  case (reply i j s x rest)
  have "Prop x \<in> set (achan s j i)" using reply(3) by simp
  then have "asent s x = Some i" "x \<in> set (ahist s j)" using reply(7) unfolding inv_prop_def by blast+
  moreover have "Prop x \<notin> set (tl (achan s j i))" using reply by (intro inv_onceD) simp_all
  ultimately show ?case using reply(2,7) by (auto simp: inv_prop_def dest: in_tl split: if_splits)
next
  case (decide i j s x rest)
  have "Prop x \<in> set (achan s j i)" using decide(3) by simp
  then have "asent s x = Some i" "x \<in> set (ahist s j)" using decide(7) unfolding inv_prop_def by blast+
  moreover have "Prop x \<notin> set (tl (achan s j i))" using decide by (intro inv_onceD) simp_all
  ultimately show ?case using decide(2,7) by (auto simp: inv_prop_def dest: in_tl split: if_splits)
next
  case (accept i j s x rest s' ds)
  show ?case using accept(4,8) by (auto simp: inv_prop_def dest: in_tl split: if_splits)
next
  case (transmit s x i k us vs)
  show ?case using transmit(7) unfolding inv_prop_def
    by (auto dest!: transmit_old [OF transmit(4)] split: if_splits)
qed

lemma not_yet_decided:
  assumes "inv_prop n s" "achan s j i = Prop x # rest" "j \<in> nodes n"
  shows "agot s x \<noteq> nodes n" "asent s x = Some i"
proof -
  have "Prop x \<in> set (achan s j i)" using assms(2) by simp
  then have "j \<notin> agot s x" "asent s x = Some i" using assms(1) unfolding inv_prop_def by blast+
  then show "agot s x \<noteq> nodes n" "asent s x = Some i" using assms(3) by auto
qed

lemma inv_agree_step:
  "astep n s t \<Longrightarrow> inv_once s \<Longrightarrow> inv_prop n s \<Longrightarrow> inv_agree n s \<Longrightarrow> inv_agree n t"
proof (induction rule: astep.induct)
  case (submit s x i)
  then show ?case by (fastforce simp: inv_agree_def)
next
  case (see_old i j s x rest)
  show ?case using see_old(7) by (auto simp: inv_agree_def dest: in_tl split: if_splits)
next
  case (see_new i j s x rest)
  show ?case using see_new(7) by (auto simp: inv_agree_def see_out_def dest: in_tl split: if_splits)
next
  case (reply i j s x rest)
  show ?case using reply(7) not_yet_decided [OF reply(6,3,2)]
    by (auto simp: inv_agree_def dest: in_tl split: if_splits)
next
  case (decide i j s x rest)
  show ?case using decide(4,7) not_yet_decided [OF decide(6,3,2)]
    by (auto simp: inv_agree_def dest: in_tl split: if_splits)
next
  case (accept i j s x rest s' ds)
  have dl: "\<And>k. set (adlv s k) \<subseteq> aacc s k" "\<And>k. distinct (adlv s k)"
    and ac: "\<And>k y. y \<in> aacc s k \<Longrightarrow> agot s y = nodes n"
    and ag: "\<And>k l y. Agree y \<in> set (achan s k l) \<Longrightarrow>
      agot s y = nodes n \<and> y \<notin> aacc s l \<and> asent s y = Some k"
    using accept(8) unfolding inv_agree_def by blast+
  have x: "agot s x = nodes n" "asent s x = Some j" using ag [of x j i] accept(3) by auto
  have tl: "Agree x \<notin> set (tl (achan s j i))" using accept by (intro inv_onceD) simp_all
  have ds: "distinct ds" "set ds \<subseteq> insert x (aacc s i) - set (adlv s i)"
    using accept(4,5) by (auto simp: may_deliver_def)
  have mem: "Agree y \<in> set (achan s k l) \<and> \<not> (y = x \<and> l = i)"
    if "Agree y \<in> set (take_from (achan s) j i k l)" for y k l
    using that tl ag [of y k l] x(2) by (auto dest: in_tl split: if_splits)
  show ?case unfolding accept(4) inv_agree_def
  proof (intro conjI allI impI ballI, goal_cases)
    case (1 k) then show ?case using dl(1) ds by fastforce
  next
    case (2 k) then show ?case using dl(2) ds by auto
  next
    case (3 k y) then show ?case using ac x(1) by (auto split: if_splits)
  next
    case (4 k l y) then show ?case using mem [of y k l] ag [of y k l] by simp
  next
    case (5 k l y) then show ?case using mem [of y k l] ag [of y k l] by auto
  next
    case (6 k l y) then show ?case using mem [of y k l] ag [of y k l] by simp
  qed
next
  case (transmit s x i k us vs)
  show ?case using transmit(7) unfolding inv_agree_def
    by (auto dest!: transmit_old [OF transmit(4)] split: if_splits)
qed

lemma inv_once_tl:
  "inv_once s \<Longrightarrow> distinct (filter (\<lambda>m. \<not> is_init m) (tl (achan s j i)))"
proof -
  assume "inv_once s"
  then have "distinct (filter (\<lambda>m. \<not> is_init m) (achan s j i))" by (simp add: inv_once_def)
  then show ?thesis by (cases "achan s j i") (auto split: if_splits)
qed

lemma inv_once_take:
  "inv_once s \<Longrightarrow> distinct (filter (\<lambda>m. \<not> is_init m) (take_from (achan s) j i a b))"
  using inv_once_tl [of s j i] by (auto simp: inv_once_def)

lemma inv_once_step:
  "astep n s t \<Longrightarrow> inv_prop n s \<Longrightarrow> inv_agree n s \<Longrightarrow> inv_once s \<Longrightarrow> inv_once t"
proof (induction rule: astep.induct)
  case (see_old i j s x rest)
  show ?case using see_old(7) inv_once_tl [OF see_old(7)] by (auto simp: inv_once_def)
next
  case (see_new i j s x rest)
  have new: "Prop x \<notin> set (achan s i k)" for k using see_new(4,5) by (auto simp: inv_prop_def)
  have out: "filter (\<lambda>m. \<not> is_init m) (see_out n s i x k) = (if k = sender_of s x then [Prop x] else [])"
    for k by (simp add: see_out_def)
  show ?case unfolding inv_once_def
  proof (intro allI)
    fix a b
    have "distinct (filter (\<lambda>m. \<not> is_init m) (take_from (achan s) j i a b))"
      using inv_once_take [OF see_new(7)] .
    moreover have "Prop x \<notin> set (take_from (achan s) j i i b)" using new by (auto dest: in_tl)
    ultimately show "distinct (filter (\<lambda>m. \<not> is_init m)
        (achan (s\<lparr>ahist := (ahist s)(i := ahist s i @ [x]),
          achan := put (take_from (achan s) j i) i (see_out n s i x)\<rparr>) a b))"
      by (auto simp: out simp del: take_from_apply)
  qed
next
  case (reply i j s x rest)
  show ?case using reply(7) inv_once_tl [OF reply(7)] by (auto simp: inv_once_def)
next
  case (decide i j s x rest)
  have "\<And>k l. Agree x \<notin> set (achan s k l)"
    using not_yet_decided [OF decide(5,3,2)] decide(6) by (auto simp: inv_agree_def)
  then show ?case using decide(7) inv_once_tl [OF decide(7)]
    by (auto simp: inv_once_def dest: in_tl)
next
  case (accept i j s x rest s' ds)
  show ?case using accept(4,8) inv_once_tl [OF accept(8)] by (auto simp: inv_once_def)
next
  case (transmit s x i k us vs)
  have "distinct (filter (\<lambda>m. \<not> is_init m) (us @ vs))"
    using transmit(7) unfolding inv_once_def transmit(4) [symmetric] by blast
  then show ?case using transmit(7) by (auto simp: inv_once_def)
qed (auto simp: inv_once_def)

subsection \<open>Invariants about what has been seen\<close>

definition inits :: "'id amsg list \<Rightarrow> 'id set" where
  "inits xs = {x. Init x \<in> set xs}"

lemma inits_simps [simp]:
  "inits [] = {}" "inits (Init x # xs) = insert x (inits xs)" "inits (Prop x # xs) = inits xs"
  "inits (Agree x # xs) = inits xs" "inits (xs @ ys) = inits xs \<union> inits ys"
  by (auto simp: inits_def)

text \<open>What a node has seen when it sends a proposal or an agreement.\<close>

fun need :: "nat \<Rightarrow> 'id astate \<Rightarrow> nat \<Rightarrow> 'id amsg \<Rightarrow> 'id set" where
  "need n s j (Init x) = {}"
| "need n s j (Prop x) = past (ahist s j) x"
| "need n s j (Agree x) = (\<Union>m \<in> nodes n. past (ahist s m) x)"

text \<open>By the time the receiver reads a message, it has seen what the message needs.\<close>

fun ch_ok :: "('id amsg \<Rightarrow> 'id set) \<Rightarrow> 'id set \<Rightarrow> 'id amsg list \<Rightarrow> bool" where
  "ch_ok f K [] = True"
| "ch_ok f K (m # ms) = (f m \<subseteq> K \<and> ch_ok f (K \<union> inits [m]) ms)"

lemma ch_ok_mono: "ch_ok f K ms \<Longrightarrow> K \<subseteq> K' \<Longrightarrow> ch_ok f K' ms"
proof (induction ms arbitrary: K K')
  case (Cons m ms)
  then have "ch_ok f (K' \<union> inits [m]) ms" by (metis Un_mono ch_ok.simps(2) order_refl)
  then show ?case using Cons.prems by auto
qed simp

lemma ch_ok_append: "ch_ok f K (xs @ ys) \<longleftrightarrow> ch_ok f K xs \<and> ch_ok f (K \<union> inits xs) ys"
proof (induction xs arbitrary: K)
  case (Cons m ms)
  have "K \<union> inits [m] \<union> inits ms = K \<union> inits (m # ms)" by (cases m) auto
  then show ?case using Cons by simp
qed simp

lemma ch_ok_cong: "(\<And>m. m \<in> set ms \<Longrightarrow> f m = g m) \<Longrightarrow> ch_ok f K ms = ch_ok g K ms"
  by (induction ms arbitrary: K) auto

lemma ch_ok_tl: "ch_ok f K ms \<Longrightarrow> inits (take 1 ms) \<subseteq> K \<Longrightarrow> ch_ok f K (tl ms)"
  by (cases ms) (auto simp: sup.absorb1)

definition inv_relay :: "nat \<Rightarrow> 'id astate \<Rightarrow> bool" where
  "inv_relay n s \<longleftrightarrow> (\<forall>j \<in> nodes n. \<forall>i \<in> nodes n. set (ahist s j) \<subseteq> set (ahist s i) \<union> inits (achan s j i))"

definition inv_causal :: "nat \<Rightarrow> 'id astate \<Rightarrow> bool" where
  "inv_causal n s \<longleftrightarrow> (\<forall>j \<in> nodes n. \<forall>i \<in> nodes n. ch_ok (need n s j) (set (ahist s i)) (achan s j i))"

definition inv_seen :: "nat \<Rightarrow> 'id astate \<Rightarrow> bool" where
  "inv_seen n s \<longleftrightarrow>
     (\<forall>x k. asent s x = Some k \<longrightarrow> (\<forall>m \<in> agot s x. past (ahist s m) x \<subseteq> set (ahist s k))) \<and>
     (\<forall>i \<in> nodes n. \<forall>x \<in> aacc s i. \<forall>m \<in> nodes n. past (ahist s m) x \<subseteq> set (ahist s i))"

lemma inv_relayD:
  "inv_relay n s \<Longrightarrow> j \<in> nodes n \<Longrightarrow> i \<in> nodes n \<Longrightarrow> set (ahist s j) \<subseteq> set (ahist s i) \<union> inits (achan s j i)"
  by (simp add: inv_relay_def)

lemma inv_causalD:
  "inv_causal n s \<Longrightarrow> j \<in> nodes n \<Longrightarrow> i \<in> nodes n \<Longrightarrow> ch_ok (need n s j) (set (ahist s i)) (achan s j i)"
  by (simp add: inv_causal_def)

lemma inits_take_from:
  "achan s j i = m # rest \<Longrightarrow> inits [m] \<subseteq> K b \<or> (a, b) \<noteq> (j, i) \<Longrightarrow>
   K b \<union> inits (achan s a b) = K b \<union> inits (take_from (achan s) j i a b)"
  by (cases m) auto

lemma inv_relay_step: "astep n s t \<Longrightarrow> inv_relay n s \<Longrightarrow> inv_relay n t"
proof (induction rule: astep.induct)
  case (transmit s x i k)
  then show ?case by (fastforce simp: inv_relay_def)
next
  case (see_old i j s x rest)
  show ?case unfolding inv_relay_def
  proof (intro ballI)
    fix a b assume ab: "a \<in> nodes n" "b \<in> nodes n"
    show "set (ahist (s\<lparr>achan := take_from (achan s) j i\<rparr>) a) \<subseteq>
        set (ahist (s\<lparr>achan := take_from (achan s) j i\<rparr>) b) \<union> inits (achan (s\<lparr>achan := take_from (achan s) j i\<rparr>) a b)"
      using inv_relayD [OF see_old(5) ab] see_old(3,4) by auto
  qed
next
  case (see_new i j s x rest)
  let ?t = "s\<lparr>ahist := (ahist s)(i := ahist s i @ [x]),
              achan := put (take_from (achan s) j i) i (see_out n s i x)\<rparr>"
  show ?case unfolding inv_relay_def
  proof (intro ballI)
    fix a b assume ab: "a \<in> nodes n" "b \<in> nodes n"
    note r = inv_relayD [OF see_new(5) ab]
    show "set (ahist ?t a) \<subseteq> set (ahist ?t b) \<union> inits (achan ?t a b)"
    proof (cases "b = i")
      case True
      then show ?thesis using r see_new(3) by (auto split: if_splits)
    next
      case False
      then show ?thesis using r ab by (auto simp: see_out_def)
    qed
  qed
next
  case (reply i j s x rest)
  have "inits (achan s a b) \<subseteq> inits (take_from (achan s) j i a b)" for a b
    using reply(3) by auto
  then show ?case using reply(5) unfolding inv_relay_def by (simp del: take_from_apply) blast
next
  case (decide i j s x rest)
  have "inits (achan s a b) \<subseteq> inits (put (take_from (achan s) j i) i
      (\<lambda>k. if k \<in> nodes n then [Agree x] else []) a b)" for a b
    using decide(3) by auto
  then show ?case using decide(5) unfolding inv_relay_def by (simp del: put_apply) blast
next
  case (accept i j s x rest s' ds)
  have "inits (achan s a b) \<subseteq> inits (take_from (achan s) j i a b)" for a b
    using accept(3) by auto
  then show ?case using accept(6) unfolding inv_relay_def accept(4) by (simp del: take_from_apply) blast
qed (simp add: inv_relay_def)

lemma past_stable:
  assumes "ahist t = (ahist s)(i := ahist s i @ [x])" "y \<in> set (ahist s m)"
  shows "past (ahist t m) y = past (ahist s m) y" "rank (ahist t m) y = rank (ahist s m) y"
  using assms by auto

lemma decided_seen: "inv_prop n s \<Longrightarrow> agot s x = nodes n \<Longrightarrow> m \<in> nodes n \<Longrightarrow> x \<in> set (ahist s m)"
  by (auto simp: inv_prop_def)

lemma need_stable:
  assumes "inv_prop n s" "inv_agree n s" "m \<in> set (achan s a b)" "ahist t = (ahist s)(i := ahist s i @ [x])"
  shows "need n t a m = need n s a m"
proof (cases m)
  case (Prop y)
  then have "y \<in> set (ahist s a)" using assms(1,3) by (auto simp: inv_prop_def)
  then show ?thesis using Prop past_stable [OF assms(4)] by simp
next
  case (Agree y)
  then have "agot s y = nodes n" using assms(2,3) unfolding inv_agree_def by blast
  then have "\<forall>k \<in> nodes n. y \<in> set (ahist s k)" using decided_seen [OF assms(1)] by blast
  then show ?thesis using Agree past_stable [OF assms(4)] by simp
qed simp

lemma causal_head:
  "inv_causal n s \<Longrightarrow> j \<in> nodes n \<Longrightarrow> i \<in> nodes n \<Longrightarrow> achan s j i = m # rest \<Longrightarrow> need n s j m \<subseteq> set (ahist s i)"
  by (drule (2) inv_causalD) simp

lemma causal_take:
  assumes "inv_causal n s" "a \<in> nodes n" "b \<in> nodes n" "achan s j i = m # rest"
    and "set (ahist s b) \<subseteq> K" "(a, b) = (j, i) \<Longrightarrow> inits [m] \<subseteq> K"
  shows "ch_ok (need n s a) K (take_from (achan s) j i a b)"
proof -
  have c: "ch_ok (need n s a) K (achan s a b)"
    using inv_causalD [OF assms(1-3)] assms(5) by (rule ch_ok_mono)
  show ?thesis
  proof (cases "(a, b) = (j, i)")
    case True
    then show ?thesis using c assms(4,6) by (auto simp: sup.absorb1)
  next
    case False
    then show ?thesis using c by auto
  qed
qed

lemma ch_ok_see_out:
  "f (Init x) = {} \<Longrightarrow> f (Prop x) \<subseteq> K \<union> inits (see_out n s i x b) \<Longrightarrow> ch_ok f K (see_out n s i x b)"
  by (auto simp: see_out_def)

lemma inv_causal_step:
  "astep n s t \<Longrightarrow> inv_prop n s \<Longrightarrow> inv_agree n s \<Longrightarrow> inv_relay n s \<Longrightarrow> inv_seen n s \<Longrightarrow>
   inv_causal n s \<Longrightarrow> inv_causal n t"
proof (induction rule: astep.induct)
  case (submit s x i)
  have "need n (s\<lparr>asent := (asent s)(x \<mapsto> i)\<rparr>) a = need n s a" for a
    by (rule ext, rename_tac m, case_tac m) auto
  then show ?case using submit(7) by (simp add: inv_causal_def)
next
  case (transmit s x i k us vs)
  let ?t = "s\<lparr>achan := (achan s)(i := (achan s i)(k := us @ Init x # vs))\<rparr>"
  have need: "need n ?t a = need n s a" for a
    by (rule ext, rename_tac m, case_tac m) auto
  have "ch_ok (need n s i) (set (ahist s k)) (us @ vs)"
    using inv_causalD [OF transmit(9,2,3)] transmit(4) by simp
  then have "ch_ok (need n s i) (set (ahist s k)) us" "ch_ok (need n s i) (set (ahist s k) \<union> inits us) vs"
    by (simp_all add: ch_ok_append)
  moreover from this(2) have "ch_ok (need n s i) (set (ahist s k) \<union> inits us \<union> inits [Init x]) vs"
    by (rule ch_ok_mono) blast
  ultimately have "ch_ok (need n s i) (set (ahist s k)) (us @ Init x # vs)"
    by (simp add: ch_ok_append)
  then show ?case using transmit(9) by (simp add: inv_causal_def need)
next
  case (see_old i j s x rest)
  have "need n (s\<lparr>achan := take_from (achan s) j i\<rparr>) a = need n s a" for a
    by (rule ext, rename_tac m, case_tac m) auto
  then show ?case
    using causal_take [OF see_old(9) _ _ see_old(3)] see_old(4)
    by (simp add: inv_causal_def del: take_from_apply)
next
  case (see_new i j s x rest)
  let ?t = "s\<lparr>ahist := (ahist s)(i := ahist s i @ [x]),
              achan := put (take_from (achan s) j i) i (see_out n s i x)\<rparr>"
  have relay: "inv_relay n ?t" using inv_relay_step [OF astep.see_new [OF see_new(1-4)] see_new(7)] .
  show ?case unfolding inv_causal_def
  proof (intro ballI)
    fix a b assume ab: "a \<in> nodes n" "b \<in> nodes n"
    have "ch_ok (need n s a) (set (ahist ?t b)) (take_from (achan s) j i a b)"
      by (rule causal_take [OF see_new(9) ab see_new(3)]) auto
    moreover have "need n ?t a m = need n s a m" if "m \<in> set (take_from (achan s) j i a b)" for m
      using need_stable [OF see_new(5,6), of m a b ?t i x] that by (auto dest: in_tl split: if_splits)
    ultimately have c: "ch_ok (need n ?t a) (set (ahist ?t b)) (take_from (achan s) j i a b)"
      using ch_ok_cong [of "take_from (achan s) j i a b" "need n ?t a" "need n s a"] by blast
    show "ch_ok (need n ?t a) (set (ahist ?t b)) (achan ?t a b)"
    proof (cases "a = i")
      case False
      then show ?thesis using c by simp
    next
      case True
      have "past (ahist ?t i) x \<subseteq> set (ahist ?t i)" by (rule past_subset) simp
      also have "\<dots> \<subseteq> set (ahist ?t b) \<union> inits (achan ?t i b)"
        using inv_relayD [OF relay see_new(1) ab(2)] .
      finally have "need n ?t i (Prop x) \<subseteq>
          (set (ahist ?t b) \<union> inits (take_from (achan s) j i i b)) \<union> inits (see_out n s i x b)"
        by (simp add: Un_assoc del: take_from_apply)
      then have "ch_ok (need n ?t i) (set (ahist ?t b) \<union> inits (take_from (achan s) j i i b)) (see_out n s i x b)"
        by (intro ch_ok_see_out) simp
      then show ?thesis using c True by (simp add: ch_ok_append del: take_from_apply)
    qed
  qed
next
  case (reply i j s x rest)
  have "need n (s\<lparr>agot := (agot s)(x := insert j (agot s x)), achan := take_from (achan s) j i\<rparr>) a =
      need n s a" for a
    by (rule ext, rename_tac m, case_tac m) auto
  then show ?case
    using causal_take [OF reply(9) _ _ reply(3)]
    by (simp add: inv_causal_def del: take_from_apply)
next
  case (decide i j s x rest)
  let ?t = "s\<lparr>agot := (agot s)(x := insert j (agot s x)),
              achan := put (take_from (achan s) j i) i (\<lambda>k. if k \<in> nodes n then [Agree x] else [])\<rparr>"
  have eq: "need n ?t a = need n s a" for a
    by (rule ext, rename_tac m, case_tac m) auto
  have "past (ahist s j) x \<subseteq> set (ahist s i)" using causal_head [OF decide(9,2,1,3)] by simp
  moreover have "past (ahist s m) x \<subseteq> set (ahist s i)" if "m \<in> agot s x" for m
    using decide(8) not_yet_decided(2) [OF decide(5,3,2)] that by (simp add: inv_seen_def)
  ultimately have "need n s i (Agree x) \<subseteq> set (ahist s i)"
    unfolding need.simps decide(4) [symmetric] by auto
  moreover have "set (ahist s i) \<subseteq> set (ahist s b) \<union> inits (take_from (achan s) j i i b)"
    if "b \<in> nodes n" for b
    using inv_relayD [OF decide(7,1) that] decide(3) by auto
  ultimately have ag: "need n s i (Agree x) \<subseteq> set (ahist s b) \<union> inits (take_from (achan s) j i i b)"
    if "b \<in> nodes n" for b using that by blast
  show ?case
    using causal_take [OF decide(9) _ _ decide(3)] ag
    unfolding inv_causal_def eq by (auto simp: ch_ok_append simp del: take_from_apply need.simps)
next
  case (accept i j s x rest s' ds)
  have "need n (s'\<lparr>adlv := (adlv s)(i := adlv s i @ ds)\<rparr>) a = need n s a" for a
    unfolding accept(4) by (rule ext, rename_tac m, case_tac m) auto
  then show ?case
    using causal_take [OF accept(10) _ _ accept(3)] accept(4)
    by (simp add: inv_causal_def del: take_from_apply)
qed

lemma inv_seen_step:
  "astep n s t \<Longrightarrow> inv_hist n s \<Longrightarrow> inv_prop n s \<Longrightarrow> inv_agree n s \<Longrightarrow> inv_causal n s \<Longrightarrow>
   inv_seen n s \<Longrightarrow> inv_seen n t"
proof (induction rule: astep.induct)
  case (submit s x i)
  have "m \<notin> agot s x" for m
    using submit(1,3,4) unfolding inv_hist_def inv_prop_def by (metis domIff subsetD)
  then have "agot s x = {}" by blast
  then show ?case using submit(7) by (auto simp: inv_seen_def)
next
  case (see_new i j s x rest)
  let ?t = "s\<lparr>ahist := (ahist s)(i := ahist s i @ [x]),
              achan := put (take_from (achan s) j i) i (see_out n s i x)\<rparr>"
  have st: "past (ahist ?t m) y = past (ahist s m) y" if "y \<in> set (ahist s m)" for y m
    using that by auto
  have mono: "set (ahist s k) \<subseteq> set (ahist ?t k)" for k by auto
  have got: "y \<in> set (ahist s m)" if "m \<in> agot s y" for y m using see_new(6) that by (auto simp: inv_prop_def)
  have acc: "agot s y = nodes n" if "y \<in> aacc s k" for y k
    using see_new(7) that unfolding inv_agree_def by blast
  have keep: "past (ahist ?t m) y \<subseteq> set (ahist ?t k)"
    if "past (ahist s m) y \<subseteq> set (ahist s k)" "y \<in> set (ahist s m)" for m y k
    unfolding st [OF that(2)] using that(1) mono [of k] by (rule order_trans)
  show ?case unfolding inv_seen_def
  proof (intro conjI allI impI ballI, goal_cases)
    case (1 y k m)
    then have "past (ahist s m) y \<subseteq> set (ahist s k)" "y \<in> set (ahist s m)"
      using see_new(9) got by (simp_all add: inv_seen_def)
    then show ?case by (rule keep)
  next
    case (2 k y m)
    then have "past (ahist s m) y \<subseteq> set (ahist s k)" "y \<in> set (ahist s m)"
      using see_new(9) acc decided_seen [OF see_new(6)] by (simp_all add: inv_seen_def)
    then show ?case by (rule keep)
  qed
next
  case (reply i j s x rest)
  have "past (ahist s j) x \<subseteq> set (ahist s i)" using causal_head [OF reply(8,2,1,3)] by simp
  then show ?case using reply(9) not_yet_decided(2) [OF reply(6,3,2)] by (auto simp: inv_seen_def)
next
  case (decide i j s x rest)
  have "past (ahist s j) x \<subseteq> set (ahist s i)" using causal_head [OF decide(8,2,1,3)] by simp
  then show ?case using decide(9) not_yet_decided(2) [OF decide(6,3,2)] by (auto simp: inv_seen_def)
next
  case (accept i j s x rest s' ds)
  have "(\<Union>m \<in> nodes n. past (ahist s m) x) \<subseteq> set (ahist s i)"
    using causal_head [OF accept(9,2,1,3)] by simp
  then show ?case using accept(10) unfolding inv_seen_def accept(4) by auto
qed (simp_all add: inv_seen_def)

subsection \<open>The order of delivery\<close>

lemma finite_nodes [simp]: "finite (nodes n)"
  by (simp add: nodes_def)

lemma agreed_ge: "m \<in> nodes n \<Longrightarrow> rank (ahist s m) x \<le> agreed n s x"
  by (simp add: agreed_def)

lemma agreed_attained:
  assumes "i \<in> nodes n"
  obtains m where "m \<in> nodes n" "agreed n s x = rank (ahist s m) x"
proof -
  have "agreed n s x \<in> (\<lambda>m. rank (ahist s m) x) ` nodes n"
    unfolding agreed_def using assms by (intro Max_in) auto
  then show thesis using that by auto
qed

text \<open>
  Why a message \<open>x\<close> that node \<open>i\<close> has not delivered will not come before \<open>d\<close>: its own proposal
  is already as great, it has been agreed as great, or the node whose proposal decided \<open>d\<close> saw
  \<open>d\<close> before \<open>x\<close>.
\<close>

definition comes_after :: "nat \<Rightarrow> 'id astate \<Rightarrow> nat \<Rightarrow> 'id \<Rightarrow> 'id \<Rightarrow> bool" where
  "comes_after n s i d x \<longleftrightarrow>
     (x \<in> set (ahist s i) \<and> final_key n s d \<le> Key (int (rank (ahist s i) x)) (int (sender_of s x))) \<or>
     (agot s x = nodes n \<and> final_key n s d \<le> final_key n s x) \<or>
     (\<exists>m \<in> nodes n. agreed n s d = rank (ahist s m) d \<and> x \<notin> past (ahist s m) d)"

definition inv_order :: "nat \<Rightarrow> 'id astate \<Rightarrow> bool" where
  "inv_order n s \<longleftrightarrow> (\<forall>i \<in> nodes n. sorted (map (final_key n s) (adlv s i)) \<and>
     (\<forall>d \<in> set (adlv s i). \<forall>x. x \<notin> set (adlv s i) \<longrightarrow> comes_after n s i d x))"

lemma comes_after_final:
  assumes "inv_prop n s" "i \<in> nodes n" "agot s d = nodes n" "agot s x = nodes n" "comes_after n s i d x"
  shows "final_key n s d \<le> final_key n s x"
  using assms(5) unfolding comes_after_def
proof (elim disjE conjE bexE)
  assume "final_key n s d \<le> Key (int (rank (ahist s i) x)) (int (sender_of s x))"
  also have "\<dots> \<le> final_key n s x"
    using agreed_ge [OF assms(2), of s x] by (auto simp: final_key_def Key_less_eq)
  finally show ?thesis .
next
  fix m assume m: "m \<in> nodes n" "agreed n s d = rank (ahist s m) d" "x \<notin> past (ahist s m) d"
  then have "rank (ahist s m) d < rank (ahist s m) x"
    using rank_less_if_not_past decided_seen [OF assms(1,3)] decided_seen [OF assms(1,4)] by metis
  then have "agreed n s d < agreed n s x" using agreed_ge [OF m(1), of s x] m(2) by simp
  then show ?thesis by (simp add: final_key_def Key_less_eq)
qed

text \<open>A step that only appends to histories and keeps the senders changes none of the reasons.\<close>

definition extends :: "'id astate \<Rightarrow> 'id astate \<Rightarrow> bool" where
  "extends s t \<longleftrightarrow> (\<forall>m. \<exists>zs. ahist t m = ahist s m @ zs) \<and>
     (\<forall>x. asent s x \<noteq> None \<longrightarrow> asent t x = asent s x) \<and> (\<forall>x. agot s x \<subseteq> agot t x)"

lemma extends_rank:
  assumes "extends s t" "x \<in> set (ahist s m)"
  shows "rank (ahist t m) x = rank (ahist s m) x" "past (ahist t m) x = past (ahist s m) x"
    "x \<in> set (ahist t m)"
proof -
  obtain zs where "ahist t m = ahist s m @ zs" using assms(1) unfolding extends_def by blast
  then show "rank (ahist t m) x = rank (ahist s m) x" "past (ahist t m) x = past (ahist s m) x"
    "x \<in> set (ahist t m)" using assms(2) by auto
qed

lemma extends_sender:
  "extends s t \<Longrightarrow> inv_hist n s \<Longrightarrow> x \<in> set (ahist s m) \<Longrightarrow> sender_of t x = sender_of s x"
  by (metis domIff extends_def inv_hist_def sender_of_def subset_iff)

lemma extends_final:
  assumes "extends s t" "inv_hist n s" "inv_prop n s" "agot s x = nodes n" "nodes n \<noteq> {}"
  shows "agreed n t x = agreed n s x" "final_key n t x = final_key n s x"
proof -
  have x: "x \<in> set (ahist s m)" if "m \<in> nodes n" for m using decided_seen assms(3,4) that by metis
  then show a: "agreed n t x = agreed n s x"
    unfolding agreed_def using extends_rank(1) [OF assms(1)] by (simp cong: image_cong_simp)
  obtain m where "m \<in> nodes n" using assms(5) by blast
  then show "final_key n t x = final_key n s x"
    using a extends_sender [OF assms(1,2) x] by (simp add: final_key_def)
qed

lemma extends_comes_after:
  assumes "extends s t" "inv_hist n s" "inv_prop n s" "inv_prop n t" "agot s d = nodes n" "i \<in> nodes n"
    "comes_after n s i d x"
  shows "comes_after n t i d x"
proof -
  have ne: "nodes n \<noteq> {}" using assms(6) by auto
  note d = extends_final [OF assms(1-3,5) ne]
  consider (own) "x \<in> set (ahist s i)"
      "final_key n s d \<le> Key (int (rank (ahist s i) x)) (int (sender_of s x))"
    | (known) "agot s x = nodes n" "final_key n s d \<le> final_key n s x"
    | (saw) m where "m \<in> nodes n" "agreed n s d = rank (ahist s m) d" "x \<notin> past (ahist s m) d"
    using assms(7) unfolding comes_after_def by blast
  then show ?thesis
  proof cases
    case own
    then show ?thesis
      using d extends_rank [OF assms(1) own(1)] extends_sender [OF assms(1,2) own(1)]
      by (simp add: comes_after_def)
  next
    case known
    have "agot s x \<subseteq> agot t x" "agot t x \<subseteq> nodes n"
      using assms(1,4) unfolding extends_def inv_prop_def by blast+
    then show ?thesis
      using known d extends_final [OF assms(1-3) known(1) ne] by (simp add: comes_after_def)
  next
    case saw
    moreover have "d \<in> set (ahist s m)" using decided_seen assms(3,5) saw(1) by metis
    ultimately show ?thesis
      using d extends_rank [OF assms(1)] unfolding comes_after_def by metis
  qed
qed

lemma astep_extends: "astep n s t \<Longrightarrow> extends s t"
  by (induction rule: astep.induct) (auto simp: extends_def)

lemma astep_deliver:
  "astep n s t \<Longrightarrow> \<exists>ds. adlv t i = adlv s i @ ds \<and> (ds \<noteq> [] \<longrightarrow> may_deliver n (t\<lparr>adlv := adlv s\<rparr>) i ds)"
proof (induction rule: astep.induct)
  case (accept k j s x rest s' ds)
  then show ?case by (cases "i = k") auto
qed auto

lemma inv_order_step:
  assumes step: "astep n s t" and inv: "inv_hist n s" "inv_prop n s" "inv_prop n t" "inv_agree n s" "inv_agree n t"
    and seen: "inv_seen n t" and order: "inv_order n s"
  shows "inv_order n t"
  unfolding inv_order_def
proof (intro ballI)
  fix i assume i: "i \<in> nodes n"
  then have ne: "nodes n \<noteq> {}" by auto
  note ext = astep_extends [OF step]
  have old: "sorted (map (final_key n s) (adlv s i))"
    "\<And>d x. d \<in> set (adlv s i) \<Longrightarrow> x \<notin> set (adlv s i) \<Longrightarrow> comes_after n s i d x"
    using order i by (simp_all add: inv_order_def)
  have dec: "agot s d = nodes n" if "d \<in> set (adlv s i)" for d
    using inv(4) that unfolding inv_agree_def by blast
  have dec': "agot t d = nodes n" if "d \<in> aacc t i" for d
    using inv(5) that unfolding inv_agree_def by blast
  have key: "final_key n t d = final_key n s d" if "d \<in> set (adlv s i)" for d
    using extends_final [OF ext inv(1,2) dec [OF that] ne] by simp
  have sorted: "sorted (map (final_key n t) (adlv s i))" using old(1) key by (simp cong: map_cong)
  have after: "comes_after n t i d x" if "d \<in> set (adlv s i)" "x \<notin> set (adlv s i)" for d x
    using extends_comes_after [OF ext inv(1-3) dec i old(2)] that by blast
  obtain ds where dlv: "adlv t i = adlv s i @ ds"
    and ds: "ds \<noteq> [] \<Longrightarrow> may_deliver n (t\<lparr>adlv := adlv s\<rparr>) i ds"
    using astep_deliver [OF step] by blast
  show "sorted (map (final_key n t) (adlv t i)) \<and>
      (\<forall>d \<in> set (adlv t i). \<forall>x. x \<notin> set (adlv t i) \<longrightarrow> comes_after n t i d x)"
  proof (cases "ds = []")
    case True
    then show ?thesis using sorted after dlv by simp
  next
    case False
    have fk: "final_key n (t\<lparr>adlv := adlv s\<rparr>) = final_key n t"
      by (simp add: fun_eq_iff final_key_def agreed_def sender_of_def)
    have ck: "cur_key n (t\<lparr>adlv := adlv s\<rparr>) i x = cur_key n t i x" for x
      by (simp add: cur_key_def fk sender_of_def)
    have D: "set ds \<subseteq> aacc t i - set (adlv s i)" "sorted (map (final_key n t) ds)"
      "\<And>d x. d \<in> set ds \<Longrightarrow> x \<in> set (ahist t i) - set (adlv s i) - set ds \<Longrightarrow>
         final_key n t d \<le> cur_key n t i x"
      using ds [OF False] unfolding may_deliver_def fk ck by simp_all
    have "final_key n t d \<le> final_key n t e" if "d \<in> set (adlv s i)" "e \<in> set ds" for d e
    proof (rule comes_after_final [OF inv(3) i])
      show "agot t e = nodes n" using dec' D(1) that(2) by blast
      show "agot t d = nodes n" using dec' inv(5) that(1) dlv unfolding inv_agree_def by (metis Un_iff set_append subsetD)
      show "comes_after n t i d e" using after D(1) that by blast
    qed
    moreover have "comes_after n t i d x" if d: "d \<in> set ds" and x: "x \<notin> set (adlv t i)" for d x
    proof (cases "x \<in> set (ahist t i)")
      case True
      then have le: "final_key n t d \<le> cur_key n t i x" using D(3) [OF d, of x] x dlv by simp
      show ?thesis
      proof (cases "x \<in> aacc t i")
        case True
        then show ?thesis using le dec' [of x] unfolding comes_after_def cur_key_def by simp
      next
        case False
        then show ?thesis using le \<open>x \<in> set (ahist t i)\<close> unfolding comes_after_def cur_key_def by simp
      qed
    next
      case False
      obtain m where m: "m \<in> nodes n" "agreed n t d = rank (ahist t m) d"
        by (rule agreed_attained [OF i])
      have "past (ahist t m) d \<subseteq> set (ahist t i)"
        using seen i m(1) D(1) d unfolding inv_seen_def by (meson DiffD1 subsetD)
      then show ?thesis using m False unfolding comes_after_def by blast
    qed
    ultimately show ?thesis using sorted after dlv D(2) by (auto simp: sorted_append)
  qed
qed

subsection \<open>Nothing is lost\<close>

definition inv_flow :: "nat \<Rightarrow> 'id astate \<Rightarrow> bool" where
  "inv_flow n s \<longleftrightarrow>
     (\<forall>m \<in> nodes n. \<forall>x \<in> set (ahist s m). m \<in> agot s x \<or> Prop x \<in> set (achan s m (sender_of s x))) \<and>
     (\<forall>x. agot s x = nodes n \<longrightarrow> (\<forall>k \<in> nodes n. x \<in> aacc s k \<or> Agree x \<in> set (achan s (sender_of s x) k))) \<and>
     (\<forall>i \<in> nodes n. set (ahist s i) \<subseteq> aacc s i \<longrightarrow> set (ahist s i) \<subseteq> set (adlv s i))"

text \<open>A message leaves a channel only by being read, which has its effect.\<close>

fun taken :: "'id astate \<Rightarrow> nat \<Rightarrow> nat \<Rightarrow> 'id amsg \<Rightarrow> bool" where
  "taken t a b (Init x) \<longleftrightarrow> x \<in> set (ahist t b)"
| "taken t a b (Prop x) \<longleftrightarrow> a \<in> agot t x"
| "taken t a b (Agree x) \<longleftrightarrow> x \<in> aacc t b"

lemma in_take_from:
  "achan s j i = m' # rest \<Longrightarrow> m \<in> set (achan s a b) \<Longrightarrow>
   m \<in> set (take_from (achan s) j i a b) \<or> (m = m' \<and> a = j \<and> b = i)"
  by auto

lemma astep_taken: "astep n s t \<Longrightarrow> m \<in> set (achan s a b) \<Longrightarrow> m \<in> set (achan t a b) \<or> taken t a b m"
proof (induction rule: astep.induct)
  case (transmit s x i k us vs)
  then show ?case by (cases "a = i \<and> b = k") auto
next
  case (see_old i j s x rest)
  then show ?case using in_take_from [OF see_old(3,5)] by auto
next
  case (see_new i j s x rest)
  then show ?case using in_take_from [OF see_new(3,5)] by (auto simp del: take_from_apply)
next
  case (reply i j s x rest)
  then show ?case using in_take_from [OF reply(3,5)] by (auto simp del: take_from_apply)
next
  case (decide i j s x rest)
  then show ?case using in_take_from [OF decide(3,5)] by (auto simp del: take_from_apply)
next
  case (accept i j s x rest s' ds)
  then show ?case using in_take_from [OF accept(3,6)] by (auto simp del: take_from_apply)
qed simp

lemma astep_seen:
  "astep n s t \<Longrightarrow> x \<in> set (ahist t m) \<Longrightarrow> x \<in> set (ahist s m) \<or> Prop x \<in> set (achan t m (sender_of t x))"
  by (induction rule: astep.induct) (auto simp: see_out_def sender_of_def split: if_splits)

lemma astep_decided:
  "astep n s t \<Longrightarrow> inv_prop n s \<Longrightarrow> agot t x = nodes n \<Longrightarrow> k \<in> nodes n \<Longrightarrow>
   agot s x = nodes n \<or> Agree x \<in> set (achan t (sender_of t x) k)"
proof (induction rule: astep.induct)
  case (decide i j s y rest)
  then show ?case
    using not_yet_decided(2) [OF decide(5,3,2)] by (auto simp: sender_of_def split: if_splits)
qed (auto split: if_splits)

lemma astep_delivered:
  "astep n s t \<Longrightarrow> (set (ahist s i) \<subseteq> aacc s i \<longrightarrow> set (ahist s i) \<subseteq> set (adlv s i)) \<Longrightarrow> inv_agree n s \<Longrightarrow>
   inv_prop n s \<Longrightarrow> i \<in> nodes n \<Longrightarrow> set (ahist t i) \<subseteq> aacc t i \<Longrightarrow> set (ahist t i) \<subseteq> set (adlv t i)"
proof (induction rule: astep.induct)
  case (see_new k j s x rest)
  have "x \<notin> aacc s k"
  proof
    assume "x \<in> aacc s k"
    then have "agot s x = nodes n" using see_new(6) unfolding inv_agree_def by blast
    then show False using decided_seen [OF see_new(7) _ see_new(1)] see_new(4) by blast
  qed
  then show ?case using see_new(5,9) by (cases "k = i") auto
next
  case (accept k j s x rest s' ds)
  then show ?case by (cases "k = i") (auto simp: may_deliver_def)
qed auto

lemma astep_aacc: "astep n s t \<Longrightarrow> aacc s k \<subseteq> aacc t k"
  by (induction rule: astep.induct) auto

lemma inv_flow_step:
  assumes step: "astep n s t" and inv: "inv_hist n s" "inv_prop n s" "inv_agree n s" "inv_flow n s"
  shows "inv_flow n t"
proof -
  note ext = astep_extends [OF step]
  have old: "m \<in> agot s x \<or> Prop x \<in> set (achan s m (sender_of s x))" if "m \<in> nodes n" "x \<in> set (ahist s m)" for m x
    using inv(4) that unfolding inv_flow_def by blast
  have old2: "x \<in> aacc s k \<or> Agree x \<in> set (achan s (sender_of s x) k)"
    if "agot s x = nodes n" "k \<in> nodes n" for x k using inv(4) that unfolding inv_flow_def by blast
  have got: "agot s x \<subseteq> agot t x" for x using ext unfolding extends_def by blast
  have "m \<in> agot t x \<or> Prop x \<in> set (achan t m (sender_of t x))" if m: "m \<in> nodes n" "x \<in> set (ahist t m)" for m x
  proof (cases "x \<in> set (ahist s m)")
    case True
    then show ?thesis
      using old [OF m(1) True] got [of x] extends_sender [OF ext inv(1) True]
        astep_taken [OF step, of "Prop x" m "sender_of s x"] by auto
  next
    case False
    then show ?thesis using astep_seen [OF step m(2)] by blast
  qed
  moreover have "x \<in> aacc t k \<or> Agree x \<in> set (achan t (sender_of t x) k)"
    if x: "agot t x = nodes n" "k \<in> nodes n" for x k
  proof (cases "agot s x = nodes n")
    case True
    then have "sender_of t x = sender_of s x"
      using extends_sender [OF ext inv(1) decided_seen [OF inv(2) True x(2)]] by simp
    then show ?thesis
      using old2 [OF True x(2)] astep_aacc [OF step, of k] astep_taken [OF step, of "Agree x" "sender_of s x" k] by auto
  next
    case False
    then show ?thesis using astep_decided [OF step inv(2) x] by blast
  qed
  moreover have "set (ahist t i) \<subseteq> aacc t i \<longrightarrow> set (ahist t i) \<subseteq> set (adlv t i)" if "i \<in> nodes n" for i
    using astep_delivered [OF step _ inv(3,2) that] inv(4) that unfolding inv_flow_def by blast
  ultimately show ?thesis unfolding inv_flow_def by blast
qed

text \<open>When nothing is under way, what one node has seen every node has delivered.\<close>

lemma quiet_delivered:
  assumes "inv_flow n s" "inv_relay n s" "\<And>j i. j \<in> nodes n \<Longrightarrow> i \<in> nodes n \<Longrightarrow> achan s j i = []"
    "inv_hist n s" "inv_prop n s" "i \<in> nodes n" "k \<in> nodes n" "x \<in> set (ahist s k)"
  shows "x \<in> set (adlv s i)"
proof -
  have all: "y \<in> set (ahist s m)" if "l \<in> nodes n" "m \<in> nodes n" "y \<in> set (ahist s l)" for y l m
    using inv_relayD [OF assms(2) that(1,2)] assms(3) [OF that(1,2)] that(3) by auto
  have "set (ahist s i) \<subseteq> aacc s i"
  proof
    fix y assume y: "y \<in> set (ahist s i)"
    then have "asent s y \<noteq> None" using assms(4) unfolding inv_hist_def by blast
    then have snd: "sender_of s y \<in> nodes n" using assms(4) unfolding inv_hist_def sender_of_def
      by (auto simp: ran_def)
    have "m \<in> agot s y" if "m \<in> nodes n" for m
    proof -
      have "m \<in> agot s y \<or> Prop y \<in> set (achan s m (sender_of s y))"
        using assms(1) that all [OF assms(6) that y] unfolding inv_flow_def by blast
      then show ?thesis using assms(3) [OF that snd] by simp
    qed
    then have "agot s y = nodes n" using assms(5) unfolding inv_prop_def by blast
    then have "y \<in> aacc s i \<or> Agree y \<in> set (achan s (sender_of s y) i)"
      using assms(1,6) unfolding inv_flow_def by blast
    then show "y \<in> aacc s i" using assms(3) [OF snd assms(6)] by simp
  qed
  then have "set (ahist s i) \<subseteq> set (adlv s i)" using assms(1,6) unfolding inv_flow_def by blast
  then show ?thesis using all [OF assms(7,6,8)] by blast
qed

lemmas ainv_defs = inv_hist_def inv_prop_def inv_agree_def inv_once_def inv_relay_def inv_causal_def
  inv_seen_def inv_order_def inv_flow_def

definition ainv :: "nat \<Rightarrow> 'id astate \<Rightarrow> bool" where
  "ainv n s \<longleftrightarrow> inv_hist n s \<and> inv_prop n s \<and> inv_agree n s \<and> inv_once s \<and> inv_relay n s \<and>
     inv_causal n s \<and> inv_seen n s \<and> inv_order n s \<and> inv_flow n s"

lemma ainv_init: "ainv n ainit"
  by (simp add: ainv_def ainv_defs ainit_def)

lemma ainv_step: "astep n s t \<Longrightarrow> ainv n s \<Longrightarrow> ainv n t"
  unfolding ainv_def
  by (blast intro: inv_hist_step inv_prop_step inv_agree_step inv_once_step inv_relay_step
      inv_causal_step inv_seen_step inv_order_step inv_flow_step)

lemma areach_ainv: "areach n s \<Longrightarrow> ainv n s"
  by (induction rule: areach.induct) (auto intro: ainv_init ainv_step)

subsection \<open>Total order\<close>

definition before :: "'a list \<Rightarrow> 'a \<Rightarrow> 'a \<Rightarrow> bool" where
  "before xs x y \<longleftrightarrow> (\<exists>us vs ws. xs = us @ x # vs @ y # ws)"

lemma before_total: "x \<in> set xs \<Longrightarrow> y \<in> set xs \<Longrightarrow> x \<noteq> y \<Longrightarrow> before xs x y \<or> before xs y x"
proof -
  assume xy: "x \<in> set xs" "y \<in> set xs" "x \<noteq> y"
  obtain us vs where xs: "xs = us @ x # vs" using xy(1) by (meson split_list)
  then consider "y \<in> set us" | "y \<in> set vs" using xy by auto
  then show ?thesis
  proof cases
    case 1
    then obtain a b where "us = a @ y # b" by (meson split_list)
    then have "xs = a @ y # b @ x # vs" using xs by simp
    then show ?thesis unfolding before_def by blast
  next
    case 2
    then obtain a b where "vs = a @ y # b" by (meson split_list)
    then show ?thesis using xs unfolding before_def by blast
  qed
qed

lemma before_sorted: "sorted (map f xs) \<Longrightarrow> before xs x y \<Longrightarrow> f x \<le> f y"
  by (auto simp: before_def sorted_append)

lemma before_imp_set: "before xs x y \<Longrightarrow> x \<in> set xs \<and> y \<in> set xs"
  by (auto simp: before_def)

text \<open>
  Every node delivers in the order of the final keys, which are the same at every node: two
  nodes never deliver two messages with different keys in different orders.
\<close>

lemma areach_sorted:
  "areach n s \<Longrightarrow> i \<in> nodes n \<Longrightarrow> sorted (map (final_key n s) (adlv s i)) \<and> distinct (adlv s i)"
  using areach_ainv [of n s] by (auto simp: ainv_def inv_order_def inv_agree_def)

lemma areach_total_order:
  assumes "areach n s" "i \<in> nodes n" "k \<in> nodes n" "before (adlv s i) x y"
    and "x \<in> set (adlv s k)" "y \<in> set (adlv s k)" "final_key n s x \<noteq> final_key n s y"
  shows "before (adlv s k) x y"
proof -
  have xy: "final_key n s x \<le> final_key n s y"
    using before_sorted [of "final_key n s" "adlv s i"] assms(4) areach_sorted [OF assms(1,2)] by simp
  have "final_key n s y \<le> final_key n s x" if "before (adlv s k) y x"
    using before_sorted [of "final_key n s" "adlv s k"] that areach_sorted [OF assms(1,3)] by simp
  then show ?thesis using before_total [OF assms(5,6)] assms(7) xy by force
qed

end
