(* ===== verification/Multicast_System.thy ===== *)
theory Multicast_System
  imports Multicast_Node Isis_Spec
begin

section \<open>Multicast: a group of nodes\<close>

text \<open>
  The nodes of a configuration running together, while none of them fails. Node \<open>i\<close> has the
  state \<open>mc s i\<close>. What has been written to the connection from \<open>j\<close> to \<open>i\<close> and not yet decoded is
  \<open>conn s j i\<close>; the goroutine running \<^verbatim>\<open>Deliver\<close> for that connection holds at most one message,
  \<open>hand s j i\<close>, until \<^verbatim>\<open>ISIS\<close> takes it from the unbuffered channel. \<open>obox s i\<close> holds the sends
  that the current round of \<^verbatim>\<open>ISIS\<close> has still to make, \<open>casts s i\<close> those of every running
  goroutine \<^verbatim>\<open>Cast\<close>, and \<open>lst s i\<close> is what the application has been handed. Sends of the
  round and of the goroutines interleave, as do the nodes. \<open>cast_of\<close> remembers the message
  cast under an identifier, and has no counterpart in the code.
\<close>

subsection \<open>States and steps\<close>

record sys =
  mc :: "nat \<Rightarrow> Multicast"
  conn :: "nat \<Rightarrow> nat \<Rightarrow> Message list"
  hand :: "nat \<Rightarrow> nat \<Rightarrow> Message option"
  obox :: "nat \<Rightarrow> sends"
  casts :: "nat \<Rightarrow> sends list"
  lst :: "nat \<Rightarrow> Message list"
  cast_of :: "string \<rightharpoonup> Message"

abbreviation name_of :: "nat \<Rightarrow> string" where
  "name_of i \<equiv> node_name (int i)"

definition node_names :: "nat \<Rightarrow> string list" where
  "node_names n = map name_of [1..<Suc n]"

text \<open>An order in which \<^verbatim>\<open>range\<close> may visit a map that has the nodes as its keys.\<close>

definition visits :: "nat \<Rightarrow> string list \<Rightarrow> bool" where
  "visits n ks \<longleftrightarrow> distinct ks \<and> set ks = set (node_names n)"

text \<open>The start: every node has read the same configuration \<open>addrs\<close> and knows its own entry.\<close>

definition sys_init :: "SockAddr list \<Rightarrow> sys" where
  "sys_init addrs =
     \<lparr>mc = (\<lambda>i. let me = nodeId (addrs ! (i - 1))
                in run_mcast (run_names me \<lparr>nid = me, port = [], pool = addrs\<rparr>) (int (length addrs))),
      conn = (\<lambda>_ _. []), hand = (\<lambda>_ _. None), obox = (\<lambda>_. []), casts = (\<lambda>_. []), lst = (\<lambda>_. []),
      cast_of = Map.empty\<rparr>"

inductive sstep :: "nat \<Rightarrow> sys \<Rightarrow> sys \<Rightarrow> bool" for n where
  submit: "i \<in> nodes n \<Longrightarrow> visits n encs \<Longrightarrow> cast_of s uuid = None \<Longrightarrow> card (dom (cast_of s)) < 2 ^ 53 \<Longrightarrow>
    parse_tx (name_of i) uuid tx = Inr m \<Longrightarrow>
    sstep n s (s\<lparr>casts := (casts s)(i := casts s i @ [mc_Cast encs (mc s i) m]),
                cast_of := (cast_of s)(uuid \<mapsto> m)\<rparr>)"
| transmit: "i \<in> nodes n \<Longrightarrow> k \<in> nodes n \<Longrightarrow> g < length (casts s i) \<Longrightarrow>
    casts s i ! g = (name_of k, m) # rest \<Longrightarrow>
    sstep n s (s\<lparr>casts := (casts s)(i := (casts s i)[g := rest]),
                conn := (conn s)(i := (conn s i)(k := conn s i k @ [m]))\<rparr>)"
| flush: "i \<in> nodes n \<Longrightarrow> k \<in> nodes n \<Longrightarrow> obox s i = (name_of k, m) # rest \<Longrightarrow>
    sstep n s (s\<lparr>obox := (obox s)(i := rest),
                conn := (conn s)(i := (conn s i)(k := conn s i k @ [m]))\<rparr>)"
| skip: "i \<in> nodes n \<Longrightarrow> j \<in> nodes n \<Longrightarrow> hand s j i = None \<Longrightarrow> conn s j i = m # rest \<Longrightarrow>
    mc_Deliver loc (mc s i) (Some m) = (c, Skipped) \<Longrightarrow>
    sstep n s (s\<lparr>mc := (mc s)(i := c), conn := (conn s)(j := (conn s j)(i := rest))\<rparr>)"
| deliver: "i \<in> nodes n \<Longrightarrow> j \<in> nodes n \<Longrightarrow> hand s j i = None \<Longrightarrow> conn s j i = m # rest \<Longrightarrow>
    mc_Deliver loc (mc s i) (Some m) = (c, Forward m') \<Longrightarrow>
    sstep n s (s\<lparr>mc := (mc s)(i := c), conn := (conn s)(j := (conn s j)(i := rest)),
                hand := (hand s)(j := (hand s j)(i := Some m'))\<rparr>)"
| round: "i \<in> nodes n \<Longrightarrow> j \<in> nodes n \<Longrightarrow> obox s i = [] \<Longrightarrow> hand s j i = Some m \<Longrightarrow>
    visits n encs \<Longrightarrow> visits n nks \<Longrightarrow> isis encs nks (mc s i) m = Inr (c, out, ds) \<Longrightarrow>
    sstep n s (s\<lparr>mc := (mc s)(i := c), hand := (hand s)(j := (hand s j)(i := None)),
                obox := (obox s)(i := out), lst := (lst s)(i := lst s i @ ds)\<rparr>)"

inductive sreach :: "SockAddr list \<Rightarrow> sys \<Rightarrow> bool" for addrs where
  start: "sreach addrs (sys_init addrs)"
| step: "sreach addrs s \<Longrightarrow> sstep (length addrs) s t \<Longrightarrow> sreach addrs t"

subsection \<open>How the states correspond\<close>

text \<open>What a message keeps from its submission on.\<close>

definition pay :: "Message \<Rightarrow> string \<times> int \<times> string \<times> bool \<times> string list \<times> goint" where
  "pay m = (Id_m m, Sender m, NodeId m, IsDeposit m, Names m, Amount m)"

definition carries :: "sys \<Rightarrow> string \<Rightarrow> Message \<Rightarrow> bool" where
  "carries s x m \<longleftrightarrow> (\<exists>m0. cast_of s x = Some m0 \<and> pay m = pay m0)"

fun msg_rel :: "nat \<Rightarrow> sys \<Rightarrow> string astate \<Rightarrow> nat \<Rightarrow> Message \<Rightarrow> string amsg \<Rightarrow> bool" where
  "msg_rel n s a j m (Init x) \<longleftrightarrow> Status m = ''i'' \<and> carries s x m"
| "msg_rel n s a j m (Prop x) \<longleftrightarrow>
     Status m = ''p'' \<and> Priority m = int (rank (ahist a j) x) \<and> carries s x m"
| "msg_rel n s a j m (Agree x) \<longleftrightarrow>
     Status m = ''a'' \<and> Priority m = int (agreed n a x) \<and> carries s x m"

definition sent_to :: "nat \<Rightarrow> sends \<Rightarrow> Message list" where
  "sent_to i out = map snd (filter (\<lambda>p. fst p = name_of i) out)"

text \<open>Everything under way from \<open>j\<close> to \<open>i\<close>, in order.\<close>

definition vchan :: "sys \<Rightarrow> nat \<Rightarrow> nat \<Rightarrow> Message list" where
  "vchan s j i = (case hand s j i of None \<Rightarrow> [] | Some m \<Rightarrow> [m]) @ conn s j i @ sent_to i (obox s j)"

definition rel_node :: "nat \<Rightarrow> Multicast \<Rightarrow> string astate \<Rightarrow> nat \<Rightarrow> bool" where
  "rel_node n c a i \<longleftrightarrow> curNodeId c = name_of i \<and> A_mc c = 0 \<and> P_mc c = int (length (ahist a i)) \<and>
     nfailCheck c = (\<lambda>k. if k \<in> set (node_names n) then Some False else None) \<and>
     dom (messageCheck c) = set (ahist a i)"

definition rel_pq :: "nat \<Rightarrow> sys \<Rightarrow> MessagePQ \<Rightarrow> string astate \<Rightarrow> nat \<Rightarrow> bool" where
  "rel_pq n s pq a i \<longleftrightarrow> pq_inv pq \<and> distinct (map Id_m pq) \<and>
     Id_m ` set pq = set (ahist a i) - set (adlv a i) \<and>
     (\<forall>m \<in> set pq. msg_key m = cur_key n a i (Id_m m) \<and> IsDeliverable m = (Id_m m \<in> aacc a i) \<and>
        carries s (Id_m m) m)"

definition rel_votes :: "nat \<Rightarrow> Multicast \<Rightarrow> string astate \<Rightarrow> nat \<Rightarrow> bool" where
  "rel_votes n c a i \<longleftrightarrow> (\<forall>x. asent a x = None \<or> asent a x = Some i \<longrightarrow>
     repliers c x = (if agot a x = {} then None else Some (int (card (agot a x)))) \<and>
     proposed c x = (if agot a x = {} then None
                     else Some (int (Max ((\<lambda>k. rank (ahist a k) x) ` agot a x)))))"

definition rel_sent :: "nat \<Rightarrow> sys \<Rightarrow> string astate \<Rightarrow> bool" where
  "rel_sent n s a \<longleftrightarrow> dom (asent a) = dom (cast_of s) \<and> finite (dom (cast_of s)) \<and>
     card (dom (cast_of s)) \<le> 2 ^ 53 \<and>
     (\<forall>x m. cast_of s x = Some m \<longrightarrow> Id_m m = x \<and> msg_names_ok m \<and>
        (\<exists>i \<in> nodes n. asent a x = Some i \<and> Sender m = int i \<and> NodeId m = name_of i))"

definition rel_casts :: "nat \<Rightarrow> sys \<Rightarrow> bool" where
  "rel_casts n s \<longleftrightarrow> (\<forall>i \<in> nodes n. \<forall>c \<in> set (casts s i). \<forall>p \<in> set c.
     Status (snd p) = ''i'' \<and> carries s (Id_m (snd p)) (snd p))"

definition rel_lst :: "nat \<Rightarrow> sys \<Rightarrow> string astate \<Rightarrow> bool" where
  "rel_lst n s a \<longleftrightarrow> (\<forall>i \<in> nodes n. map Id_m (lst s i) = adlv a i \<and>
     (\<forall>d \<in> set (lst s i). carries s (Id_m d) d \<and> msg_key d = final_key n a (Id_m d)))"

definition rel_chan :: "nat \<Rightarrow> sys \<Rightarrow> string astate \<Rightarrow> bool" where
  "rel_chan n s a \<longleftrightarrow> (\<forall>j \<in> nodes n. \<forall>i \<in> nodes n. list_all2 (msg_rel n s a j) (vchan s j i) (achan a j i))"

text \<open>A message that was cast is still to be sent to a node, under way to it, or seen by it.\<close>

definition rel_flow :: "nat \<Rightarrow> sys \<Rightarrow> string astate \<Rightarrow> bool" where
  "rel_flow n s a \<longleftrightarrow> (\<forall>x \<in> dom (cast_of s). \<forall>k \<in> nodes n.
     x \<in> set (ahist a k) \<or> Init x \<in> set (achan a (sender_of a x) k) \<or>
     (\<exists>c \<in> set (casts s (sender_of a x)). \<exists>p \<in> set c. fst p = name_of k \<and> Id_m (snd p) = x))"

definition rel :: "nat \<Rightarrow> sys \<Rightarrow> string astate \<Rightarrow> bool" where
  "rel n s a \<longleftrightarrow> (\<forall>i \<in> nodes n. rel_node n (mc s i) a i \<and> rel_pq n s (pq_mc (mc s i)) a i \<and>
       rel_votes n (mc s i) a i) \<and>
     rel_sent n s a \<and> rel_casts n s \<and> rel_lst n s a \<and> rel_chan n s a \<and> rel_flow n s a"

subsection \<open>Names\<close>

definition group_ok :: "nat \<Rightarrow> bool" where
  "group_ok n \<longleftrightarrow> 2 \<le> n \<and> n < 2 ^ 63"

lemma name_of_inject_lt: "n < 2 ^ 63 \<Longrightarrow> i \<in> nodes n \<Longrightarrow> k \<in> nodes n \<Longrightarrow> name_of i = name_of k \<longleftrightarrow> i = k"
  by (subst node_name_inject) (auto simp: nodes_def int64_range_def)

lemma name_of_inject: "group_ok n \<Longrightarrow> i \<in> nodes n \<Longrightarrow> k \<in> nodes n \<Longrightarrow> name_of i = name_of k \<longleftrightarrow> i = k"
  by (rule name_of_inject_lt) (simp_all add: group_ok_def)

lemma set_node_names: "set (node_names n) = name_of ` nodes n"
  by (auto simp: node_names_def nodes_def)

lemma name_in_names: "i \<in> nodes n \<Longrightarrow> name_of i \<in> set (node_names n)"
  by (simp add: set_node_names)

lemma visits_names: "visits n ks \<Longrightarrow> k \<in> set ks \<longleftrightarrow> (\<exists>i \<in> nodes n. k = name_of i)"
  by (auto simp: visits_def set_node_names)

lemma length_visits: "group_ok n \<Longrightarrow> visits n ks \<Longrightarrow> length ks = n"
proof -
  assume n: "group_ok n" and v: "visits n ks"
  have "length ks = card (set (node_names n))" using v by (metis distinct_card visits_def)
  also have "\<dots> = card (nodes n)"
    unfolding set_node_names using name_of_inject [OF n] by (intro card_image) (simp add: inj_on_def)
  finally show ?thesis by (simp add: nodes_def)
qed

lemma sent_to_simps [simp]:
  "sent_to i [] = []" "sent_to i (p # out) = (if fst p = name_of i then [snd p] else []) @ sent_to i out"
  "sent_to i (out @ out') = sent_to i out @ sent_to i out'"
  by (simp_all add: sent_to_def)

lemma sent_to_all:
  assumes "visits n encs" "i \<in> nodes n"
  shows "sent_to i (map (\<lambda>k. (k, m)) encs) = [m]"
proof -
  have d: "distinct encs" "name_of i \<in> set encs"
    using assms by (auto simp: visits_def set_node_names)
  have "sent_to i (map (\<lambda>k. (k, m)) ks) = (if name_of i \<in> set ks then [m] else [])" if "distinct ks" for ks
    using that by (induction ks) auto
  then show ?thesis using d by simp
qed

lemma sent_to_filter:
  "sent_to i (map (\<lambda>k. (k, m)) (filter P ks)) =
   (if P (name_of i) then sent_to i (map (\<lambda>k. (k, m)) ks) else [])"
  by (induction ks) (auto simp: sent_to_def)

subsection \<open>Payloads\<close>

lemma pay_simps [simp]:
  "pay (m\<lparr>Priority := p\<rparr>) = pay m" "pay (m\<lparr>Status := st\<rparr>) = pay m" "pay (m\<lparr>RNodeId := r\<rparr>) = pay m"
  "pay (m\<lparr>IsDeliverable := d\<rparr>) = pay m" "pay (m\<lparr>Index := k\<rparr>) = pay m" "pay (no_index m) = pay m"
  by (simp_all add: pay_def no_index_def)

lemma carries_pay: "pay m = pay m' \<Longrightarrow> carries s x m = carries s x m'"
  by (simp add: carries_def)

lemma carries_cong: "cast_of t = cast_of s \<Longrightarrow> carries t = carries s"
  by (simp add: carries_def fun_eq_iff)

lemma carries_mono: "carries s x m \<Longrightarrow> cast_of s \<subseteq>\<^sub>m cast_of t \<Longrightarrow> carries t x m"
  by (force simp: carries_def map_le_def)

lemma carries_facts:
  assumes "rel_sent n s a" "carries s x m"
  obtains i where "i \<in> nodes n" "Id_m m = x" "Sender m = int i" "NodeId m = name_of i"
    "asent a x = Some i" "sender_of a x = i" "msg_names_ok m"
proof -
  obtain m0 where m0: "cast_of s x = Some m0" "pay m = pay m0" using assms(2) by (auto simp: carries_def)
  then obtain i where "i \<in> nodes n" "asent a x = Some i" "Sender m0 = int i" "NodeId m0 = name_of i"
    "Id_m m0 = x" "msg_names_ok m0"
    using assms(1) unfolding rel_sent_def by blast
  then show thesis using that [of i] m0(2) by (simp add: pay_def sender_of_def msg_names_ok_def)
qed

text \<open>A message under way means the same after a step of the protocol.\<close>

lemma msg_rel_stable:
  assumes "msg_rel n s a j m am" "am \<in> set (achan a j i)" "extends a b" "ainv n a" "nodes n \<noteq> {}"
    "cast_of s \<subseteq>\<^sub>m cast_of t"
  shows "msg_rel n t b j m am"
proof -
  have inv: "inv_hist n a" "inv_prop n a" "inv_agree n a" using assms(4) by (simp_all add: ainv_def)
  show ?thesis
  proof (cases am)
    case (Init x)
    then show ?thesis using assms(1,6) carries_mono by auto
  next
    case (Prop x)
    then have "x \<in> set (ahist a j)" using inv(2) assms(2) unfolding inv_prop_def by blast
    then show ?thesis using assms(1,6) carries_mono extends_rank(1) [OF assms(3)] Prop by auto
  next
    case (Agree x)
    then have "agot a x = nodes n" using inv(3) assms(2) unfolding inv_agree_def by blast
    then show ?thesis
      using assms(1,6) carries_mono extends_final(1) [OF assms(3) inv(1,2) _ assms(5)] Agree by auto
  qed
qed

lemma chan_stable:
  assumes "list_all2 (msg_rel n s a j) ms (achan a j i)" "extends a b" "ainv n a" "nodes n \<noteq> {}"
    "cast_of s \<subseteq>\<^sub>m cast_of t"
  shows "list_all2 (msg_rel n t b j) ms (achan a j i)"
proof (rule list.rel_mono_strong [OF assms(1)])
  fix m am assume "msg_rel n s a j m am" "am \<in> set (achan a j i)"
  then show "msg_rel n t b j m am" using msg_rel_stable assms(2-5) by blast
qed

lemma cur_key_stable:
  assumes "extends a b" "ainv n a" "nodes n \<noteq> {}" "aacc b i = aacc a i" "x \<in> set (ahist a i)"
  shows "cur_key n b i x = cur_key n a i x"
proof (cases "x \<in> aacc a i")
  case True
  then have "agot a x = nodes n" using assms(2) unfolding ainv_def inv_agree_def by blast
  then show ?thesis using True assms extends_final(2) [OF assms(1)] by (auto simp: cur_key_def ainv_def)
next
  case False
  then show ?thesis
    using assms extends_rank(1) [OF assms(1,5)] extends_sender [OF assms(1) _ assms(5)]
    by (auto simp: cur_key_def ainv_def)
qed

lemma rel_pq_stable:
  assumes "rel_pq n s pq a i" "extends a b" "ainv n a" "nodes n \<noteq> {}"
    "aacc b i = aacc a i" "ahist b i = ahist a i" "adlv b i = adlv a i" "cast_of s \<subseteq>\<^sub>m cast_of t"
  shows "rel_pq n t pq b i"
proof -
  have "cur_key n b i (Id_m m) = cur_key n a i (Id_m m)" if "m \<in> set pq" for m
  proof (rule cur_key_stable [OF assms(2-5)])
    show "Id_m m \<in> set (ahist a i)" using assms(1) that unfolding rel_pq_def by blast
  qed
  then show ?thesis using assms(1,5-8) carries_mono unfolding rel_pq_def by fastforce
qed

lemma rel_votes_stable:
  assumes "rel_votes n c a i" "extends a b" "ainv n a"
    "\<And>x. asent b x = None \<or> asent b x = Some i \<Longrightarrow>
       agot b x = agot a x \<and> (asent a x = None \<or> asent a x = Some i)"
  shows "rel_votes n c b i"
  unfolding rel_votes_def
proof (intro allI impI)
  fix x assume "asent b x = None \<or> asent b x = Some i"
  then have x: "agot b x = agot a x" "asent a x = None \<or> asent a x = Some i" using assms(4) by blast+
  have "(\<lambda>k. rank (ahist b k) x) ` agot a x = (\<lambda>k. rank (ahist a k) x) ` agot a x"
    using assms(3) extends_rank(1) [OF assms(2)] unfolding ainv_def inv_prop_def by (intro image_cong) auto
  then show "repliers c x = (if agot b x = {} then None else Some (int (card (agot b x)))) \<and>
     proposed c x = (if agot b x = {} then None else Some (int (Max ((\<lambda>k. rank (ahist b k) x) ` agot b x))))"
    using assms(1) [unfolded rel_votes_def, rule_format, OF x(2)] x(1) by simp
qed

lemma rel_lst_stable:
  assumes "rel_lst n s a" "extends a b" "ainv n a" "nodes n \<noteq> {}" "i \<in> nodes n" "d \<in> set (lst s i)"
  shows "msg_key d = final_key n b (Id_m d)"
proof -
  have "map Id_m (lst s i) = adlv a i" and k: "msg_key d = final_key n a (Id_m d)"
    using assms(1,5,6) unfolding rel_lst_def by blast+
  then have "Id_m d \<in> set (adlv a i)" using assms(6) by (metis image_eqI list.set_map)
  then have "agot a (Id_m d) = nodes n" using assms(3) unfolding ainv_def inv_agree_def by blast
  then show ?thesis using extends_final(2) [OF assms(2) _ _ _ assms(4)] assms(3) k by (auto simp: ainv_def)
qed

lemma rel_flow_step:
  assumes "rel_flow n s a" "rel_sent n s a" "astep n a b" "casts t = casts s" "cast_of t = cast_of s"
  shows "rel_flow n t b"
  unfolding rel_flow_def
proof (intro ballI)
  fix x k assume x: "x \<in> dom (cast_of t)" and k: "k \<in> nodes n"
  have ext: "extends a b" using astep_extends [OF assms(3)] .
  have "asent a x \<noteq> None" using x assms(2,5) by (auto simp: rel_sent_def)
  then have snd: "sender_of b x = sender_of a x" using ext by (simp add: extends_def sender_of_def)
  have "x \<in> set (ahist b k)" if "x \<in> set (ahist a k)" using extends_rank(3) [OF ext that] .
  moreover have "Init x \<in> set (achan b (sender_of a x) k) \<or> x \<in> set (ahist b k)"
    if "Init x \<in> set (achan a (sender_of a x) k)" using astep_taken [OF assms(3) that] by simp
  ultimately show "x \<in> set (ahist b k) \<or> Init x \<in> set (achan b (sender_of b x) k) \<or>
     (\<exists>c \<in> set (casts t (sender_of b x)). \<exists>p \<in> set c. fst p = name_of k \<and> Id_m (snd p) = x)"
    using assms(1) x k unfolding rel_flow_def snd assms(4,5) by blast
qed

subsection \<open>Steps outside the rounds of ISIS\<close>

lemma relD:
  assumes "rel n s a"
  shows "i \<in> nodes n \<Longrightarrow> rel_node n (mc s i) a i" "i \<in> nodes n \<Longrightarrow> rel_pq n s (pq_mc (mc s i)) a i"
    "i \<in> nodes n \<Longrightarrow> rel_votes n (mc s i) a i" "rel_sent n s a" "rel_casts n s" "rel_lst n s a"
    "rel_chan n s a"
    "i \<in> nodes n \<Longrightarrow> j \<in> nodes n \<Longrightarrow> list_all2 (msg_rel n s a j) (vchan s j i) (achan a j i)"
    "rel_flow n s a"
  using assms by (simp_all add: rel_def rel_chan_def)

lemma mc_Deliver_Some:
  assumes "mc_Deliver loc c (Some m) = (c', r)"
  shows "c' = c" and "r = Skipped \<Longrightarrow> Id_m m \<in> dom (messageCheck c) \<and> Status m = ''i''"
    and "r = Forward m' \<Longrightarrow> m' = m\<lparr>RNodeId := loc\<rparr>"
  using assms by (auto split: if_splits)

lemma mc_Cast_no_failure:
  "rel_node n c a i \<Longrightarrow> visits n encs \<Longrightarrow> mc_Cast encs c m = map (\<lambda>k. (k, m)) encs"
  by (auto simp: mc_Cast_def rel_node_def map_get_def filter_id_conv)

lemma msg_rel_status:
  "msg_rel n s a j m am \<Longrightarrow>
   (Status m = ''i'') = is_init am \<and> (\<exists>x. carries s x m \<and> (am = Init x \<or> am = Prop x \<or> am = Agree x))"
  by (cases am) auto

lemma msg_rel_pay:
  "pay m' = pay m \<Longrightarrow> Status m' = Status m \<Longrightarrow> Priority m' = Priority m \<Longrightarrow> cast_of t = cast_of s \<Longrightarrow>
   msg_rel n t a j m' am = msg_rel n s a j m am"
  by (cases am) (auto simp: carries_def)

lemma extends_refl [simp]: "extends a a"
  by (simp add: extends_def)

lemma extends_chan [simp]: "extends a (a\<lparr>achan := ch\<rparr>)"
  by (simp add: extends_def)

lemma key_chan [simp]:
  "final_key n (a\<lparr>achan := ch\<rparr>) = final_key n a" "cur_key n (a\<lparr>achan := ch\<rparr>) = cur_key n a"
  "agreed n (a\<lparr>achan := ch\<rparr>) = agreed n a" "sender_of (a\<lparr>achan := ch\<rparr>) = sender_of a"
  by (simp_all add: final_key_def cur_key_def agreed_def sender_of_def fun_eq_iff)

lemma msg_rel_chan [simp]: "msg_rel n s (a\<lparr>achan := ch\<rparr>) j = msg_rel n s a j"
proof (intro ext)
  fix m am show "msg_rel n s (a\<lparr>achan := ch\<rparr>) j m am = msg_rel n s a j m am" by (cases am) simp_all
qed

lemma msg_rel_cast: "cast_of t = cast_of s \<Longrightarrow> msg_rel n t a j = msg_rel n s a j"
  by (intro ext msg_rel_pay) simp_all

text \<open>A step that leaves the state of the nodes and of the specification alone but for channels.\<close>

lemma rel_chanI:
  assumes "rel n s a" "mc t = mc s" "cast_of t = cast_of s" "lst t = lst s"
    and "rel_casts n t" "rel_chan n t (a\<lparr>achan := ch\<rparr>)" "rel_flow n t (a\<lparr>achan := ch\<rparr>)"
  shows "rel n t (a\<lparr>achan := ch\<rparr>)"
  using assms
  by (simp add: rel_def rel_node_def rel_pq_def rel_votes_def rel_sent_def rel_lst_def carries_def)

lemma sim_submit:
  assumes R: "rel n s a" and inv: "ainv n a" and i: "i \<in> nodes n" "visits n encs" "cast_of s uuid = None"
    "card (dom (cast_of s)) < 2 ^ 53" "parse_tx (name_of i) uuid tx = Inr m" and n: "group_ok n"
  shows "\<exists>b. astep n a b \<and>
    rel n (s\<lparr>casts := (casts s)(i := casts s i @ [mc_Cast encs (mc s i) m]), cast_of := (cast_of s)(uuid \<mapsto> m)\<rparr>) b"
    (is "\<exists>b. _ \<and> rel n ?t b")
proof (intro exI conjI)
  let ?b = "a\<lparr>asent := (asent a)(uuid \<mapsto> i)\<rparr>"
  have "dom (asent a) = dom (cast_of s)" using relD(4) [OF R] by (simp add: rel_sent_def)
  then have new: "asent a uuid = None" using i(3) by auto
  then show step: "astep n a ?b" using i(1) by (rule astep.submit)
  note ext = astep_extends [OF step]
  have le: "cast_of s \<subseteq>\<^sub>m cast_of ?t" using i(3) by (auto simp: map_le_def)
  have ne: "nodes n \<noteq> {}" using i(1) by auto
  have r: "int64_range (int i)" using i(1) n by (auto simp: group_ok_def nodes_def int64_range_def)
  have m: "Id_m m = uuid" "Sender m = int i" "NodeId m = name_of i" "Status m = ''i''" "msg_names_ok m"
    using parse_tx_fields [OF i(5) r] by simp_all
  have "rel_sent n ?t ?b"
    using relD(4) [OF R] i(1,4) m by (auto simp: rel_sent_def card_insert_if)
  moreover have "rel_casts n ?t"
  proof -
    have "carries ?t uuid m" using m by (simp add: carries_def)
    then show ?thesis
      using relD(5) [OF R] m carries_mono [OF _ le] mc_Cast_no_failure [OF relD(1) [OF R i(1)] i(2)]
      by (fastforce simp: rel_casts_def)
  qed
  moreover have "rel_lst n ?t ?b"
    using relD(6) [OF R] carries_mono [OF _ le] rel_lst_stable [OF relD(6) [OF R] ext inv ne]
    by (auto simp: rel_lst_def)
  moreover have "rel_flow n ?t ?b"
    unfolding rel_flow_def
  proof (intro ballI)
    fix x k assume x: "x \<in> dom (cast_of ?t)" and k: "k \<in> nodes n"
    show "x \<in> set (ahist ?b k) \<or> Init x \<in> set (achan ?b (sender_of ?b x) k) \<or>
        (\<exists>c \<in> set (casts ?t (sender_of ?b x)). \<exists>p \<in> set c. fst p = name_of k \<and> Id_m (snd p) = x)"
    proof (cases "x = uuid")
      case True
      then show ?thesis
        using mc_Cast_no_failure [OF relD(1) [OF R i(1)] i(2)] m(1) visits_names [OF i(2), of "name_of k"] k
        by (force simp: sender_of_def)
    next
      case False
      then have "x \<in> dom (cast_of s)" "sender_of ?b x = sender_of a x" using x by (auto simp: sender_of_def)
      then have "x \<in> set (ahist a k) \<or> Init x \<in> set (achan a (sender_of ?b x) k) \<or>
        (\<exists>c \<in> set (casts s (sender_of ?b x)). \<exists>p \<in> set c. fst p = name_of k \<and> Id_m (snd p) = x)"
        using relD(9) [OF R] k unfolding rel_flow_def by metis
      then show ?thesis by auto
    qed
  qed
  moreover have "rel_chan n ?t ?b"
    using relD(8) [OF R] chan_stable [OF _ ext inv ne le] by (simp add: rel_chan_def vchan_def)
  moreover have "rel_node n (mc ?t k) ?b k \<and> rel_pq n ?t (pq_mc (mc ?t k)) ?b k \<and> rel_votes n (mc ?t k) ?b k"
    if k: "k \<in> nodes n" for k
  proof (intro conjI)
    show "rel_node n (mc ?t k) ?b k" using relD(1) [OF R k] by (simp add: rel_node_def)
    show "rel_pq n ?t (pq_mc (mc ?t k)) ?b k"
      using rel_pq_stable [OF relD(2) [OF R k] ext inv ne _ _ _ le] by simp
    show "rel_votes n (mc ?t k) ?b k"
      using rel_votes_stable [OF relD(3) [OF R k] ext inv] new by (auto split: if_splits)
  qed
  ultimately show "rel n ?t ?b" by (simp add: rel_def)
qed

lemma in_update_other: "c \<in> set xs \<Longrightarrow> c \<noteq> xs ! g \<Longrightarrow> c \<in> set (xs[g := y])"
  by (metis in_set_conv_nth length_list_update nth_list_update_neq)

lemma sim_transmit:
  assumes R: "rel n s a" and n: "group_ok n" and i: "i \<in> nodes n" "k \<in> nodes n" "g < length (casts s i)"
    "casts s i ! g = (name_of k, m) # rest"
  shows "\<exists>b. astep n a b \<and> rel n (s\<lparr>casts := (casts s)(i := (casts s i)[g := rest]),
                conn := (conn s)(i := (conn s i)(k := conn s i k @ [m]))\<rparr>) b"
    (is "\<exists>b. _ \<and> rel n ?t b")
proof -
  have p: "(name_of k, m) \<in> set (casts s i ! g)" "casts s i ! g \<in> set (casts s i)"
    using i(4) nth_mem [OF i(3)] by auto
  then have m: "Status m = ''i''" "carries s (Id_m m) m"
    using relD(5) [OF R] i(1) unfolding rel_casts_def by force+
  then have sent: "asent a (Id_m m) \<noteq> None" using carries_facts [OF relD(4) [OF R] m(2)] by (metis option.distinct(1))
  let ?h = "(case hand s i k of None \<Rightarrow> [] | Some m \<Rightarrow> [m]) @ conn s i k"
  have "list_all2 (msg_rel n s a i) (?h @ sent_to k (obox s i)) (achan a i k)"
    using relD(8) [OF R i(2,1)] by (simp add: vchan_def)
  then obtain us vs where uv: "achan a i k = us @ vs" "list_all2 (msg_rel n s a i) ?h us"
    "list_all2 (msg_rel n s a i) (sent_to k (obox s i)) vs"
    unfolding list_all2_append1 [of _ "?h"] by blast
  let ?ch = "(achan a)(i := (achan a i)(k := us @ Init (Id_m m) # vs))"
  have step: "astep n a (a\<lparr>achan := ?ch\<rparr>)" by (rule astep.transmit [OF sent i(1,2) uv(1)])
  have c: "msg_rel n ?t a j = msg_rel n s a j" for j by (rule msg_rel_cast) simp
  have "list_all2 (msg_rel n s a i) (?h @ [m] @ sent_to k (obox s i)) (us @ [Init (Id_m m)] @ vs)"
    using uv(2,3) m by (intro list_all2_appendI) simp_all
  then have "rel_chan n ?t (a\<lparr>achan := ?ch\<rparr>)"
    using relD(8) [OF R] by (auto simp: rel_chan_def vchan_def c)
  moreover have "rel_casts n ?t"
    unfolding rel_casts_def
  proof (intro ballI)
    fix j c p assume j: "j \<in> nodes n" "c \<in> set (casts ?t j)" "p \<in> set c"
    have "\<exists>c' \<in> set (casts s j). p \<in> set c'"
    proof (cases "j = i \<and> c = rest")
      case True
      then have "p \<in> set (casts s i ! g)" using i(4) j(3) by simp
      then show ?thesis using p(2) True by blast
    next
      case False
      then have "c \<in> set (casts s j)"
        using j(2) set_update_subset_insert [of "casts s i" g rest] by (auto split: if_splits)
      then show ?thesis using j(3) by blast
    qed
    then show "Status (snd p) = ''i'' \<and> carries ?t (Id_m (snd p)) (snd p)"
      using relD(5) [OF R] j(1) by (auto simp: rel_casts_def carries_def)
  qed
  moreover have "rel_flow n ?t (a\<lparr>achan := ?ch\<rparr>)"
    unfolding rel_flow_def
  proof (intro ballI)
    fix x l assume x: "x \<in> dom (cast_of ?t)" and l: "l \<in> nodes n"
    consider "x \<in> set (ahist a l)" | "Init x \<in> set (achan a (sender_of a x) l)"
      | c p where "c \<in> set (casts s (sender_of a x))" "p \<in> set c" "fst p = name_of l" "Id_m (snd p) = x"
      using relD(9) [OF R] x l unfolding rel_flow_def by fastforce
    then show "x \<in> set (ahist (a\<lparr>achan := ?ch\<rparr>) l) \<or>
        Init x \<in> set (achan (a\<lparr>achan := ?ch\<rparr>) (sender_of (a\<lparr>achan := ?ch\<rparr>) x) l) \<or>
        (\<exists>c \<in> set (casts ?t (sender_of (a\<lparr>achan := ?ch\<rparr>) x)). \<exists>p \<in> set c. fst p = name_of l \<and> Id_m (snd p) = x)"
    proof cases
      case 2
      then show ?thesis using uv(1) by auto
    next
      case (3 c p)
      show ?thesis
      proof (cases "sender_of a x = i \<and> c = casts s i ! g")
        case True
        then consider "p = (name_of k, m)" | "p \<in> set rest" using 3(2) i(4) by auto
        then show ?thesis
        proof cases
          case 1
          then show ?thesis using 3(3,4) name_of_inject [OF n i(2) l] True by auto
        next
          case 2
          moreover have "rest \<in> set ((casts s i)[g := rest])" using i(3) by (rule set_update_memI)
          ultimately show ?thesis using 3(3,4) True by auto
        qed
      next
        case False
        then have "c \<in> set (casts ?t (sender_of a x))"
          using 3(1) in_update_other [of c "casts s i" g rest] by auto
        then show ?thesis using 3(2-4) by auto
      qed
    qed simp
  qed
  ultimately have "rel n ?t (a\<lparr>achan := ?ch\<rparr>)" by (intro rel_chanI [OF R]) simp_all
  then show ?thesis using step by blast
qed

lemma rel_stutter:
  assumes "rel n s a" "mc t = mc s" "cast_of t = cast_of s" "lst t = lst s" "casts t = casts s"
    "\<And>i j. i \<in> nodes n \<Longrightarrow> j \<in> nodes n \<Longrightarrow>
       list_all2 (msg_rel n s a j) (vchan s j i) (achan a j i) \<Longrightarrow>
       list_all2 (msg_rel n s a j) (vchan t j i) (achan a j i)"
  shows "rel n t a"
proof -
  have c: "carries t = carries s" using carries_cong assms(3) .
  have m: "msg_rel n t a j = msg_rel n s a j" for j using msg_rel_cast assms(3) .
  have "rel_chan n t a" using relD(8) [OF assms(1)] assms(6) by (simp add: rel_chan_def m)
  moreover have "rel_casts n t" using relD(5) [OF assms(1)] assms(5) c by (simp add: rel_casts_def)
  ultimately show ?thesis
    using assms(1-5) by (simp add: rel_def rel_pq_def rel_sent_def rel_lst_def rel_flow_def c)
qed

lemma sim_flush:
  assumes R: "rel n s a" and i: "i \<in> nodes n" "k \<in> nodes n" "obox s i = (name_of k, m) # rest"
    and n: "group_ok n"
  shows "rel n (s\<lparr>obox := (obox s)(i := rest), conn := (conn s)(i := (conn s i)(k := conn s i k @ [m]))\<rparr>) a"
    (is "rel n ?t a")
proof (rule rel_stutter [OF R])
  fix j l assume "j \<in> nodes n" "l \<in> nodes n"
  moreover then have "vchan ?t l j = vchan s l j"
    using i name_of_inject [OF n, of k j] by (auto simp: vchan_def)
  ultimately show "list_all2 (msg_rel n s a l) (vchan s l j) (achan a l j) \<Longrightarrow>
    list_all2 (msg_rel n s a l) (vchan ?t l j) (achan a l j)" by simp
qed simp_all

lemma sim_deliver:
  assumes R: "rel n s a" and i: "i \<in> nodes n" "j \<in> nodes n" "hand s j i = None" "conn s j i = m # rest"
    "mc_Deliver loc (mc s i) (Some m) = (c, Forward m')"
  shows "rel n (s\<lparr>mc := (mc s)(i := c), conn := (conn s)(j := (conn s j)(i := rest)),
                hand := (hand s)(j := (hand s j)(i := Some m'))\<rparr>) a" (is "rel n ?t a")
proof -
  have m: "c = mc s i" "m' = m\<lparr>RNodeId := loc\<rparr>" using mc_Deliver_Some [OF i(5)] by simp_all
  have eq: "msg_rel n s a l m' am = msg_rel n s a l m am" for l am
    by (rule msg_rel_pay) (simp_all add: m)
  show ?thesis
  proof (rule rel_stutter [OF R])
    fix k l assume "list_all2 (msg_rel n s a l) (vchan s l k) (achan a l k)"
    then show "list_all2 (msg_rel n s a l) (vchan ?t l k) (achan a l k)"
      using i(3,4) by (auto simp: vchan_def list_all2_Cons1 eq)
  qed (simp_all add: m)
qed

text \<open>What the head of a connection stands for.\<close>

lemma head_of:
  assumes "rel n s a" "i \<in> nodes n" "j \<in> nodes n" "vchan s j i = m # rest"
  obtains am rest' where "achan a j i = am # rest'" "msg_rel n s a j m am"
    "list_all2 (msg_rel n s a j) rest rest'"
  using relD(8) [OF assms(1-3)] assms(4) by (auto simp: list_all2_Cons1)

lemma carries_Id: "rel_sent n s a \<Longrightarrow> carries s x m \<Longrightarrow> Id_m m = x"
  by (erule carries_facts) simp

lemma rel_see_old:
  assumes R: "rel n s a" and i: "i \<in> nodes n" "j \<in> nodes n" "vchan s j i = m # rest"
    and x: "Status m = ''i''" "Id_m m \<in> set (ahist a i)"
    and t: "mc t = mc s" "cast_of t = cast_of s" "lst t = lst s" "casts t = casts s"
    "\<And>l k. vchan t l k = (if l = j \<and> k = i then rest else vchan s l k)"
  shows "\<exists>b. astep n a b \<and> rel n t b"
proof -
  obtain am rest' where am: "achan a j i = am # rest'" "msg_rel n s a j m am"
    "list_all2 (msg_rel n s a j) rest rest'" using head_of [OF R i] .
  then obtain x' where x': "am = Init x'" "carries s x' m"
    using x(1) by (cases am) auto
  then have id: "Id_m m = x'" using carries_Id [OF relD(4) [OF R]] by simp
  have step: "astep n a (a\<lparr>achan := take_from (achan a) j i\<rparr>)"
    using astep.see_old [OF i(1,2)] am(1) x' x(2) id by simp
  have c: "carries t = carries s" using carries_cong t(2) .
  have m: "msg_rel n t a j = msg_rel n s a j" for j using msg_rel_cast t(2) .
  have "rel_chan n t (a\<lparr>achan := take_from (achan a) j i\<rparr>)"
    using relD(8) [OF R] am(1,3) by (auto simp: rel_chan_def t(5) m)
  moreover have "rel_casts n t" using relD(5) [OF R] by (simp add: rel_casts_def t(4) c)
  moreover have "rel_flow n t (a\<lparr>achan := take_from (achan a) j i\<rparr>)"
    by (rule rel_flow_step [OF relD(9) [OF R] relD(4) [OF R] step t(4,2)])
  ultimately have "rel n t (a\<lparr>achan := take_from (achan a) j i\<rparr>)" using t by (intro rel_chanI [OF R])
  then show ?thesis using step by blast
qed

lemma sim_skip:
  assumes R: "rel n s a" and i: "i \<in> nodes n" "j \<in> nodes n" "hand s j i = None" "conn s j i = m # rest"
    "mc_Deliver loc (mc s i) (Some m) = (c, Skipped)"
  shows "\<exists>b. astep n a b \<and>
    rel n (s\<lparr>mc := (mc s)(i := c), conn := (conn s)(j := (conn s j)(i := rest))\<rparr>) b"
proof (rule rel_see_old [OF R i(1,2)])
  have m: "c = mc s i" "Id_m m \<in> dom (messageCheck (mc s i))" "Status m = ''i''"
    using mc_Deliver_Some(1,2) [OF i(5)] by simp_all
  show "vchan s j i = m # rest @ sent_to i (obox s j)" using i(3,4) by (simp add: vchan_def)
  show "Status m = ''i''" by (fact m(3))
  show "Id_m m \<in> set (ahist a i)" using m(2) relD(1) [OF R i(1)] by (simp add: rel_node_def)
  show "mc (s\<lparr>mc := (mc s)(i := c), conn := (conn s)(j := (conn s j)(i := rest))\<rparr>) = mc s"
    using m(1) by simp
qed (auto simp: vchan_def i(3,4))

subsection \<open>The queue during a round\<close>

definition pq_item :: "nat \<Rightarrow> sys \<Rightarrow> string astate \<Rightarrow> nat \<Rightarrow> Message \<Rightarrow> bool" where
  "pq_item n s a i m \<longleftrightarrow> msg_key m = cur_key n a i (Id_m m) \<and> IsDeliverable m = (Id_m m \<in> aacc a i) \<and>
     carries s (Id_m m) m"

lemma pq_item_no_index [simp]: "pq_item n s a i (no_index m) = pq_item n s a i m"
  by (simp add: pq_item_def carries_def)

lemma mset_eq_mset_set: "finite S \<Longrightarrow> mset xs = mset_set S \<longleftrightarrow> distinct xs \<and> set xs = S"
  by (metis count_mset_set(1) count_mset_set(3) distinct_count_atmost_1 finite_set_mset_mset_set
      mset_set_set set_mset_mset)

lemma mset_set_split:
  assumes "finite H" "mset xs + M = mset_set H"
  shows "distinct xs" "set xs \<subseteq> H" "M = mset_set (H - set xs)"
proof -
  have c: "count (mset xs) x \<le> count (mset_set H) x" for x
    using arg_cong [OF assms(2), of "\<lambda>N. count N x"] by simp
  show sub: "set xs \<subseteq> H"
  proof
    fix x assume "x \<in> set xs"
    then have "0 < count (mset xs) x" by simp
    then show "x \<in> H" using c [of x] assms(1) by (metis count_mset_set(3) not_le)
  qed
  have "count (mset xs) x \<le> 1" for x
    using c [of x] assms(1) by (metis count_mset_set(1) count_mset_set(3) le_trans zero_le_one order_refl)
  then show d: "distinct xs"
    unfolding distinct_count_atmost_1 by (metis count_eq_zero_iff le_SucE le_zero_eq One_nat_def set_mset_mset)
  have "M = mset_set H - mset xs" using assms(2) by (metis add_diff_cancel_left')
  also have "\<dots> = mset_set (H - set xs)"
    using d sub assms(1) by (simp add: mset_set_Diff flip: mset_set_set)
  finally show "M = mset_set (H - set xs)" .
qed

lemma rel_pq_msgs:
  "rel_pq n s pq a i \<longleftrightarrow> pq_inv pq \<and>
     image_mset Id_m (pq_msgs pq) = mset_set (set (ahist a i) - set (adlv a i)) \<and>
     (\<forall>m \<in># pq_msgs pq. pq_item n s a i m)"
proof -
  have "image_mset Id_m (pq_msgs pq) = mset (map Id_m pq)"
    by (simp add: pq_msgs_def multiset.map_comp comp_def)
  then have "image_mset Id_m (pq_msgs pq) = mset_set (set (ahist a i) - set (adlv a i)) \<longleftrightarrow>
      distinct (map Id_m pq) \<and> Id_m ` set pq = set (ahist a i) - set (adlv a i)"
    using mset_eq_mset_set [of "set (ahist a i) - set (adlv a i)" "map Id_m pq"] by simp
  moreover have "(\<forall>m \<in># pq_msgs pq. pq_item n s a i m) \<longleftrightarrow> (\<forall>m \<in> set pq. pq_item n s a i m)"
    by (simp add: pq_msgs_def)
  ultimately show ?thesis unfolding rel_pq_def pq_item_def [symmetric] by blast
qed

lemma pq_Deliverable_inv:
  "pq_inv pq \<Longrightarrow> k < length pq \<Longrightarrow> pq_inv (pq[k := (pq ! k)\<lparr>IsDeliverable := d\<rparr>])"
  by (rule pq_set_inv) (simp_all add: msg_key_def)

text \<open>A new message enters the queue with the next priority of the node.\<close>

lemma rel_pq_push:
  assumes "rel_pq n s pq a i" "ainv n a" "i \<in> nodes n" "extends a b" "x \<notin> set (ahist a i)"
    "ahist b i = ahist a i @ [x]" "adlv b i = adlv a i" "aacc b i = aacc a i" "cast_of t = cast_of s"
    "Id_m m = x" "msg_key m = Key (int (Suc (length (ahist a i)))) (int (sender_of b x))"
    "\<not> IsDeliverable m" "carries s x m"
  shows "rel_pq n t (pq_heap_Push pq m) b i"
proof -
  have inv: "inv_prop n a" "inv_agree n a" using assms(2) by (simp_all add: ainv_def)
  have ne: "nodes n \<noteq> {}" using assms(3) by auto
  have seen: "aacc a i \<subseteq> set (ahist a i)"
  proof
    fix y assume "y \<in> aacc a i"
    then have "agot a y = nodes n" using inv(2) unfolding inv_agree_def by blast
    then show "y \<in> set (ahist a i)" by (rule decided_seen [OF inv(1) _ assms(3)])
  qed
  have old: "pq_inv pq" "image_mset Id_m (pq_msgs pq) = mset_set (set (ahist a i) - set (adlv a i))"
    "\<And>m. m \<in># pq_msgs pq \<Longrightarrow> pq_item n s a i m"
    using assms(1) by (simp_all add: rel_pq_msgs)
  note push = pq_heap_Push_inv [OF old(1), of m]
  have "x \<notin> set (adlv a i)" using inv(2) seen assms(5) unfolding inv_agree_def by blast
  then have "set (ahist b i) - set (adlv b i) = insert x (set (ahist a i) - set (adlv a i))"
    using assms(6,7) by auto
  then have "image_mset Id_m (pq_msgs (pq_heap_Push pq m)) = mset_set (set (ahist b i) - set (adlv b i))"
    using push(2) old(2) assms(5,10) by simp
  moreover have "pq_item n t b i y" if "y \<in># pq_msgs (pq_heap_Push pq m)" for y
  proof (cases "y = no_index m")
    case True
    have "x \<notin> aacc b i" using seen assms(5,8) by auto
    then have "cur_key n b i x = msg_key m" using assms(5,6,11) by (simp add: cur_key_def rank_snoc)
    then show ?thesis using True \<open>x \<notin> aacc b i\<close> assms(9,10,12,13) by (simp add: pq_item_def carries_def)
  next
    case False
    then have y: "y \<in># pq_msgs pq" using that push(2) by simp
    then have "Id_m y \<in># image_mset Id_m (pq_msgs pq)" by simp
    then have "Id_m y \<in> set (ahist a i)" unfolding old(2) by simp
    then show ?thesis
      using old(3) [OF y] cur_key_stable [OF assms(4,2) ne assms(8)] assms(8,9)
      by (simp add: pq_item_def carries_def)
  qed
  ultimately show ?thesis using push(1) by (simp add: rel_pq_msgs)
qed

text \<open>The agreed priority is entered in the queue.\<close>

lemma rel_pq_accept:
  assumes "rel_pq n s pq a i" "x \<in> set (ahist a i)" "x \<notin> set (adlv a i)"
    and b: "b = a\<lparr>aacc := (aacc a)(i := insert x (aacc a i)), achan := ch\<rparr>" and p: "p = int (agreed n a x)"
    and sent: "rel_sent n s a"
  obtains k pq' where "pq_FindById pq x = Some k"
    "pq_Update (pq[k := (pq ! k)\<lparr>IsDeliverable := True\<rparr>]) k p = Inr pq'" "rel_pq n s pq' b i"
proof -
  have old: "pq_inv pq" "image_mset Id_m (pq_msgs pq) = mset_set (set (ahist a i) - set (adlv a i))"
    "\<And>m. m \<in># pq_msgs pq \<Longrightarrow> pq_item n s a i m"
    using assms(1) by (simp_all add: rel_pq_msgs)
  have ids: "Id_m ` set pq = set (ahist a i) - set (adlv a i)" using assms(1) by (simp add: rel_pq_def)
  obtain k where k: "pq_FindById pq x = Some k"
    using pq_FindById_None [of pq x] assms(2,3) ids by (metis DiffI imageE not_Some_eq)
  then have kl: "k < length pq" "Id_m (pq ! k) = x" using pq_FindById_Some by blast+
  let ?pq = "pq[k := (pq ! k)\<lparr>IsDeliverable := True\<rparr>]"
  let ?item = "no_index ((pq ! k)\<lparr>IsDeliverable := True, Priority := p\<rparr>)"
  have inv1: "pq_inv ?pq" using pq_Deliverable_inv [OF old(1) kl(1)] .
  obtain pq' where u: "pq_Update ?pq k p = Inr pq'" "pq_inv pq'"
    "pq_msgs pq' = add_mset (no_index ((?pq ! k)\<lparr>Priority := p\<rparr>)) (pq_msgs ?pq - {#no_index (?pq ! k)#})"
    using pq_Update_inv [OF inv1, of k p] kl(1) by auto
  have "map no_index ?pq = (map no_index pq)[k := no_index ((pq ! k)\<lparr>IsDeliverable := True\<rparr>)]"
    by (simp add: map_update)
  then have "pq_msgs ?pq - {#no_index (?pq ! k)#} = pq_msgs pq - {#no_index (pq ! k)#}"
    using kl(1) by (simp add: pq_msgs_def mset_update)
  then have msgs: "pq_msgs pq' = add_mset ?item (pq_msgs pq - {#no_index (pq ! k)#})"
    using u(3) kl(1) by simp
  have split: "pq_msgs pq = add_mset (no_index (pq ! k)) (pq_msgs pq - {#no_index (pq ! k)#})"
    using in_pq_msgs_nth [OF kl(1)] by simp
  define R where "R = pq_msgs pq - {#no_index (pq ! k)#}"
  have splitR: "pq_msgs pq = add_mset (no_index (pq ! k)) R" and msgsR: "pq_msgs pq' = add_mset ?item R"
    using split msgs by (simp_all add: R_def)
  have "image_mset Id_m (pq_msgs pq) = add_mset x (image_mset Id_m R)" using splitR kl(2) by simp
  then have "Suc (count (image_mset Id_m R) x) = count (mset_set (set (ahist a i) - set (adlv a i))) x"
    unfolding old(2) [symmetric] by simp
  also have "\<dots> = 1" using assms(2,3) by simp
  finally have notR: "x \<notin># image_mset Id_m R" unfolding not_in_iff by simp
  have img: "image_mset Id_m (pq_msgs pq') = image_mset Id_m (pq_msgs pq)"
    using splitR msgsR kl(2) by simp
  have item: "pq_item n s a i (pq ! k)" using old(3) [of "no_index (pq ! k)"] in_pq_msgs_nth [OF kl(1)] by simp
  have fk: "final_key n b = final_key n a"
    by (simp add: fun_eq_iff final_key_def agreed_def sender_of_def b)
  have "pq_item n s b i y" if "y \<in># pq_msgs pq'" for y
  proof (cases "y = ?item")
    case True
    have "carries s x (pq ! k)" using item kl(2) by (simp add: pq_item_def)
    then have "Sender (pq ! k) = int (sender_of a x)" "carries s x y"
      using carries_facts [OF sent] True by (metis, simp add: carries_def)
    moreover have "Id_m y = x" "IsDeliverable y" using True kl(2) by simp_all
    ultimately show ?thesis using True p kl(2)
      by (simp add: pq_item_def msg_key_def cur_key_def final_key_def agreed_def sender_of_def b)
  next
    case False
    then have y: "y \<in># R" using that msgsR by simp
    then have "pq_item n s a i y" "Id_m y \<noteq> x" using old(3) splitR notR by auto
    then show ?thesis by (simp add: pq_item_def cur_key_def fk) (simp add: b sender_of_def)
  qed
  then have "rel_pq n s pq' b i" using u(2) img old(2) by (simp add: rel_pq_msgs) (simp add: b)
  then show thesis using that k u(1) by blast
qed

text \<open>What the loop at the root delivers, the specification may deliver.\<close>

lemma rel_pq_drain:
  assumes R: "rel_pq n s pq a i" and d: "drain pq = (pq', ds)"
  shows "may_deliver n a i (map Id_m ds)"
    and "rel_pq n s pq' (a\<lparr>adlv := (adlv a)(i := adlv a i @ map Id_m ds)\<rparr>) i"
    and "\<forall>d \<in> set ds. carries s (Id_m d) d \<and> msg_key d = final_key n a (Id_m d)"
proof -
  have old: "pq_inv pq" "image_mset Id_m (pq_msgs pq) = mset_set (set (ahist a i) - set (adlv a i))"
    "\<And>m. m \<in># pq_msgs pq \<Longrightarrow> pq_item n s a i m"
    using R by (simp_all add: rel_pq_msgs)
  note D = drain_spec [OF old(1) d]
  let ?H = "set (ahist a i) - set (adlv a i)" and ?b = "a\<lparr>adlv := (adlv a)(i := adlv a i @ map Id_m ds)\<rparr>"
  have img: "mset (map Id_m ds) + image_mset Id_m (pq_msgs pq') = mset_set ?H"
    using old(2) D(2) by (simp add: multiset.map_comp comp_def)
  have dist: "distinct (map Id_m ds)" and sub: "set (map Id_m ds) \<subseteq> ?H"
    and rest: "image_mset Id_m (pq_msgs pq') = mset_set (?H - set (map Id_m ds))"
    using mset_set_split [OF _ img] by simp_all
  have item: "pq_item n s a i d" if "d \<in> set ds" for d
    using old(3) [of "no_index d"] that D(2) by simp
  have key: "msg_key d = final_key n a (Id_m d)" "Id_m d \<in> aacc a i" if "d \<in> set ds" for d
    using item [OF that] D(3) that by (simp_all add: pq_item_def cur_key_def)
  show "\<forall>d \<in> set ds. carries s (Id_m d) d \<and> msg_key d = final_key n a (Id_m d)"
    using item key(1) by (simp add: pq_item_def)
  have "sorted (map (final_key n a) (map Id_m ds))"
    using D(4) key(1) by (simp add: comp_def cong: map_cong)
  moreover have "final_key n a (Id_m d) \<le> cur_key n a i x"
    if "d \<in> set ds" "x \<in> ?H - set (map Id_m ds)" for d x
  proof -
    have "x \<in># image_mset Id_m (pq_msgs pq')" using that(2) unfolding rest by simp
    then obtain y where y: "y \<in># pq_msgs pq'" "x = Id_m y" by auto
    then have "msg_key y = cur_key n a i x" using old(3) [of y] D(2) by (simp add: pq_item_def)
    then show ?thesis using D(5) that(1) y(1) key(1) by metis
  qed
  moreover have "?H - set (map Id_m ds) = {}" if "?H - set (map Id_m ds) \<subseteq> aacc a i"
  proof (rule ccontr)
    assume "?H - set (map Id_m ds) \<noteq> {}"
    then have "pq' \<noteq> []" using rest by (auto simp: mset_set_empty_iff)
    then have root: "\<not> IsDeliverable (pq' ! 0)" "no_index (pq' ! 0) \<in># pq_msgs pq'"
      using D(6) in_pq_msgs_nth by auto
    then have "Id_m (pq' ! 0) \<in># image_mset Id_m (pq_msgs pq')" by (metis image_eqI no_index_simps(1) set_image_mset)
    then have "Id_m (pq' ! 0) \<in> ?H - set (map Id_m ds)" unfolding rest by simp
    moreover have "pq_item n s a i (pq' ! 0)" using old(3) [of "no_index (pq' ! 0)"] D(2) root(2) by simp
    ultimately show False using that root(1) by (auto simp: pq_item_def)
  qed
  ultimately show "may_deliver n a i (map Id_m ds)"
    using dist sub key(2) unfolding may_deliver_def by (auto simp: comp_def)
  have "pq_item n s ?b i y" if "y \<in># pq_msgs pq'" for y
    using old(3) [of y] that D(2)
    by (simp add: pq_item_def cur_key_def final_key_def agreed_def sender_of_def)
  moreover have "set (ahist ?b i) - set (adlv ?b i) = ?H - set (map Id_m ds)" by auto
  ultimately show "rel_pq n s pq' ?b i" using D(1) rest by (simp add: rel_pq_msgs)
qed

subsection \<open>Rounds of ISIS\<close>

definition round_to :: "sys \<Rightarrow> nat \<Rightarrow> nat \<Rightarrow> Multicast \<Rightarrow> sends \<Rightarrow> Message list \<Rightarrow> sys" where
  "round_to s j i c out ds = s\<lparr>mc := (mc s)(i := c), hand := (hand s)(j := (hand s j)(i := None)),
                obox := (obox s)(i := out), lst := (lst s)(i := lst s i @ ds)\<rparr>"

lemma round_to_simps [simp]:
  "mc (round_to s j i c out ds) = (mc s)(i := c)" "cast_of (round_to s j i c out ds) = cast_of s"
  "casts (round_to s j i c out ds) = casts s" "lst (round_to s j i c out ds) = (lst s)(i := lst s i @ ds)"
  by (simp_all add: round_to_def)

lemma vchan_round:
  assumes "obox s i = []" "hand s j i = Some m"
  shows "vchan (round_to s j i c out ds) l k =
    (if l = j \<and> k = i then tl (vchan s j i) else vchan s l k) @ (if l = i then sent_to k out else [])"
  using assms by (auto simp: vchan_def round_to_def)

lemma rel_pq_cast: "cast_of t = cast_of s \<Longrightarrow> rel_pq n t = rel_pq n s"
  by (simp add: fun_eq_iff rel_pq_def carries_def)

lemma all2_tl: "list_all2 P xs ys \<Longrightarrow> list_all2 P (tl xs) (tl ys)"
  by (cases xs; cases ys) auto

lemma rel_round:
  assumes R: "rel n s a" and inv: "ainv n a" and ij: "i \<in> nodes n" "j \<in> nodes n" "obox s i = []" "hand s j i = Some m"
    and step: "astep n a b" and ch: "achan b = put (take_from (achan a) j i) i aout"
    and out: "\<And>k. k \<in> nodes n \<Longrightarrow> list_all2 (msg_rel n s b i) (sent_to k out) (aout k)"
    and other: "\<And>k. k \<noteq> i \<Longrightarrow> ahist b k = ahist a k \<and> adlv b k = adlv a k \<and> aacc b k = aacc a k"
      "asent b = asent a" "\<And>x. asent a x \<noteq> Some i \<Longrightarrow> agot b x = agot a x"
    and own: "rel_node n c b i" "rel_pq n s (pq_mc c) b i" "rel_votes n c b i"
    and ds: "adlv b i = adlv a i @ map Id_m ds"
      "\<forall>d \<in> set ds. carries s (Id_m d) d \<and> msg_key d = final_key n b (Id_m d)"
  shows "rel n (round_to s j i c out ds) b" (is "rel n ?t b")
proof -
  note ext = astep_extends [OF step]
  have ne: "nodes n \<noteq> {}" using ij(1) by auto
  have cc: "carries ?t = carries s" by (rule carries_cong) simp
  have mm: "msg_rel n ?t b k = msg_rel n s b k" for k by (rule msg_rel_cast) simp
  have "rel_chan n ?t b"
    unfolding rel_chan_def
  proof (intro ballI)
    fix l k assume lk: "l \<in> nodes n" "k \<in> nodes n"
    have old: "list_all2 (msg_rel n s b l) (vchan s l k) (achan a l k)"
      by (rule chan_stable [OF relD(8) [OF R lk(2,1)] ext inv ne map_le_refl])
    have "list_all2 (msg_rel n s b l) (if l = j \<and> k = i then tl (vchan s j i) else vchan s l k)
        (take_from (achan a) j i l k)"
      using old by (auto intro: all2_tl)
    moreover have "list_all2 (msg_rel n s b l) (if l = i then sent_to k out else []) (if l = i then aout k else [])"
      using out lk by simp
    ultimately have "list_all2 (msg_rel n s b l) (vchan ?t l k)
        (take_from (achan a) j i l k @ (if l = i then aout k else []))"
      unfolding vchan_round [OF ij(3,4)] by (rule list_all2_appendI)
    then show "list_all2 (msg_rel n ?t b l) (vchan ?t l k) (achan b l k)"
      unfolding mm ch by (cases "l = i") (simp_all del: take_from_apply)
  qed
  moreover have "rel_node n (mc ?t k) b k \<and> rel_pq n ?t (pq_mc (mc ?t k)) b k \<and> rel_votes n (mc ?t k) b k"
    if k: "k \<in> nodes n" for k
  proof (cases "k = i")
    case True
    then show ?thesis using own rel_pq_cast [of ?t s n] by simp
  next
    case False
    have "rel_node n (mc s k) b k" using relD(1) [OF R k] other(1) [OF False] by (simp add: rel_node_def)
    moreover have "rel_pq n s (pq_mc (mc s k)) b k"
      using rel_pq_stable [OF relD(2) [OF R k] ext inv ne] other(1) [OF False] by simp
    moreover have "rel_votes n (mc s k) b k"
    proof (rule rel_votes_stable [OF relD(3) [OF R k] ext inv])
      fix x assume "asent b x = None \<or> asent b x = Some k"
      then show "agot b x = agot a x \<and> (asent a x = None \<or> asent a x = Some k)"
        using other(2) other(3) [of x] False by auto
    qed
    ultimately show ?thesis using False rel_pq_cast [of ?t s n] by simp
  qed
  moreover have "rel_sent n ?t b" using relD(4) [OF R] other(2) by (simp add: rel_sent_def)
  moreover have "rel_casts n ?t" using relD(5) [OF R] by (simp add: rel_casts_def cc)
  moreover have "rel_lst n ?t b"
    using relD(6) [OF R] ds other(1) rel_lst_stable [OF relD(6) [OF R] ext inv ne] by (auto simp: rel_lst_def cc)
  moreover have "rel_flow n ?t b"
    by (rule rel_flow_step [OF relD(9) [OF R] relD(4) [OF R] step]) simp_all
  ultimately show ?thesis by (simp add: rel_def)
qed

text \<open>The branches of a round, at a node that knows of no failure.\<close>

lemma no_failure: "rel_node n c a i \<Longrightarrow> nfailCheck c k \<noteq> Some True"
  by (simp add: rel_node_def)

lemma pq_self_no_index:
  assumes "no_index m \<in># pq_msgs pq"
  shows "no_index (pq_self pq m) = no_index m"
proof -
  have "find (\<lambda>x. no_index x = no_index m) pq \<noteq> None"
    using assms unfolding find_None_iff pq_msgs_def by auto
  then obtain x where x: "find (\<lambda>x. no_index x = no_index m) pq = Some x" by blast
  then have "no_index x = no_index m" by (auto simp: find_Some_iff)
  then show ?thesis using x by (simp add: pq_self_def)
qed

lemma isis_old:
  assumes "rel_node n c a i" "Status m = ''i''" "Id_m m \<in> set (ahist a i)"
  shows "isis encs nks c m = Inr (c, [], [])"
proof -
  have "messageCheck c (Id_m m) \<noteq> None" using assms(1,3) by (auto simp: rel_node_def)
  then show ?thesis
    using fail_sweep_no_failure [OF no_failure [OF assms(1)]] assms(2) by (simp add: isis_def isis_i_def)
qed

definition see_state :: "Multicast \<Rightarrow> Message \<Rightarrow> int \<Rightarrow> Multicast" where
  "see_state c m p = c\<lparr>messageCheck := (messageCheck c)(Id_m m \<mapsto> True), P_mc := p,
     pq_mc := pq_heap_Push (pq_mc c) (m\<lparr>Status := ''p'', Priority := p, IsDeliverable := False\<rparr>)\<rparr>"

lemma isis_new:
  assumes "rel_node n c a i" "Status m = ''i''" "Id_m m \<notin> set (ahist a i)" "length (ahist a i) \<le> 2 ^ 53"
    "node_name (Sender m) \<in> set encs" "pq_inv (pq_mc c)"
  obtains reply where "isis encs nks c m =
      Inr (see_state c m ((int (length (ahist a i)) + 1)),
           map (\<lambda>k. (k, m)) (filter (\<lambda>k. k \<noteq> name_of i) encs) @ [(node_name (Sender m), reply)], [])"
    "pay reply = pay m" "Status reply = ''p''" "Priority reply = (int (length (ahist a i)) + 1)"
proof -
  let ?p = "(int (length (ahist a i)) + 1)"
  let ?m = "m\<lparr>Status := ''p'', Priority := ?p, IsDeliverable := False\<rparr>"
  define reply where "reply = pq_self (pq_heap_Push (pq_mc c) ?m) ?m"
  have eq: "no_index reply = no_index ?m"
    unfolding reply_def using pq_heap_Push_inv(2) [OF assms(6)] by (intro pq_self_no_index) simp
  have r: "pay reply = pay m" "Status reply = ''p''" "Priority reply = ?p"
    using arg_cong [OF eq, of pay] arg_cong [OF eq, of Status] arg_cong [OF eq, of Priority] by simp_all
  have c: "messageCheck c (Id_m m) = None" "A_mc c = 0" "P_mc c = int (length (ahist a i))" "curNodeId c = name_of i"
    using assms(1,3) by (auto simp: rel_node_def)
  have p: "max_f64 (A_mc c) (P_mc c) + 1 = ?p" using c assms(4) by simp
  show thesis
  proof (rule that [OF _ r])
    show "isis encs nks c m = Inr (see_state c m ?p,
           map (\<lambda>k. (k, m)) (filter (\<lambda>k. k \<noteq> name_of i) encs) @ [(node_name (Sender m), reply)], [])"
      using fail_sweep_no_failure [OF no_failure [OF assms(1)]] assms(2,5) c p
      by (simp add: isis_def isis_i_def Let_def bcast_Cast_def reply_def see_state_def)
  qed
qed

lemma sim_round_init:
  assumes R: "rel n s a" and inv: "ainv n a" and n: "group_ok n"
    and ij: "i \<in> nodes n" "j \<in> nodes n" "obox s i = []" "hand s j i = Some m"
    and v: "visits n encs" and am: "achan a j i = Init x # rest" "msg_rel n s a j m (Init x)"
    and r: "isis encs nks (mc s i) m = r"
  shows "\<exists>c out ds b. r = Inr (c, out, ds) \<and> astep n a b \<and> rel n (round_to s j i c out ds) b"
proof -
  note N = relD(1-3) [OF R ij(1)]
  have m: "Status m = ''i''" "carries s x m" using am(2) by simp_all
  obtain q where q: "q \<in> nodes n" "Id_m m = x" "Sender m = int q" "asent a x = Some q" "sender_of a x = q"
    using carries_facts [OF relD(4) [OF R] m(2)] by metis
  have vc: "vchan s j i = m # tl (vchan s j i)" using ij(4) by (simp add: vchan_def)
  show ?thesis
  proof (cases "x \<in> set (ahist a i)")
    case True
    have "r = Inr (mc s i, [], [])" using isis_old [OF N(1) m(1)] True q(2) r by simp
    moreover have "\<exists>b. astep n a b \<and> rel n (round_to s j i (mc s i) [] []) b"
      by (rule rel_see_old [OF R ij(1,2) vc]) (simp_all add: m q True vchan_round [OF ij(3,4)])
    ultimately show ?thesis by blast
  next
    case False
    have hist: "distinct (ahist a i)" "set (ahist a i) \<subseteq> dom (cast_of s)" "finite (dom (cast_of s))"
      "card (dom (cast_of s)) \<le> 2 ^ 53"
      using inv relD(4) [OF R] by (auto simp: ainv_def inv_hist_def rel_sent_def)
    then have "length (ahist a i) \<le> 2 ^ 53" by (metis card_mono distinct_card order_trans)
    moreover have "node_name (Sender m) \<in> set encs" using v q(1,3) visits_names by fastforce
    moreover have "pq_inv (pq_mc (mc s i))" using N(2) by (simp add: rel_pq_def)
    ultimately obtain reply where re: "isis encs nks (mc s i) m =
        Inr (see_state (mc s i) m ((int (length (ahist a i)) + 1)),
           map (\<lambda>k. (k, m)) (filter (\<lambda>k. k \<noteq> name_of i) encs) @ [(node_name (Sender m), reply)], [])"
      "pay reply = pay m" "Status reply = ''p''" "Priority reply = (int (length (ahist a i)) + 1)"
      using isis_new [OF N(1) m(1)] False q(2) by metis
    let ?c = "see_state (mc s i) m ((int (length (ahist a i)) + 1))"
    let ?out = "map (\<lambda>k. (k, m)) (filter (\<lambda>k. k \<noteq> name_of i) encs) @ [(node_name (Sender m), reply)]"
    let ?b = "a\<lparr>ahist := (ahist a)(i := ahist a i @ [x]),
                achan := put (take_from (achan a) j i) i (see_out n a i x)\<rparr>"
    have step: "astep n a ?b" by (rule astep.see_new [OF ij(1,2) am(1) False])
    have "rel n (round_to s j i ?c ?out []) ?b"
    proof (rule rel_round [OF R inv ij step])
      fix k assume k: "k \<in> nodes n"
      have "msg_rel n s ?b i reply (Prop x)"
        using re(2-4) m(2) False carries_pay [OF re(2), of s x] by (simp add: rank_snoc)
      moreover have "sent_to k ?out = (if k = i then [] else [m]) @ (if k = q then [reply] else [])"
        using q(3) name_of_inject [OF n k ij(1)] name_of_inject [OF n q(1) k] sent_to_all [OF v k, of m]
        by (auto simp: sent_to_filter)
      moreover have "see_out n a i x k = (if k = i then [] else [Init x]) @ (if k = q then [Prop x] else [])"
        using k q(5) by (simp add: see_out_def)
      ultimately show "list_all2 (msg_rel n s ?b i) (sent_to k ?out) (see_out n a i x k)"
        using m by (simp del: msg_rel_chan)
    next
      show "rel_node n ?c ?b i" using N(1) q(2) by (auto simp: rel_node_def see_state_def)
    next
      have "carries s x (m\<lparr>Status := ''p'', Priority := p, IsDeliverable := False\<rparr>)" for p
        using m(2) by (simp add: carries_def)
      then have "rel_pq n s (pq_heap_Push (pq_mc (mc s i))
          (m\<lparr>Status := ''p'', Priority := (int (length (ahist a i)) + 1), IsDeliverable := False\<rparr>)) ?b i"
        using q False
        by (intro rel_pq_push [OF N(2) inv ij(1) astep_extends [OF step] False])
          (simp_all add: msg_key_def sender_of_def)
      then show "rel_pq n s (pq_mc ?c) ?b i" by (simp add: see_state_def)
    next
      have "rel_votes n (mc s i) ?b i"
        using rel_votes_stable [OF N(3) astep_extends [OF step] inv] by simp
      then show "rel_votes n ?c ?b i" by (simp add: rel_votes_def see_state_def)
    qed simp_all
    then show ?thesis using re(1) r step by blast
  qed
qed

text \<open>A reply to the sender.\<close>

definition reply_state :: "Multicast \<Rightarrow> string \<Rightarrow> int \<Rightarrow> int \<Rightarrow> int \<Rightarrow> Multicast" where
  "reply_state c x p r alive =
     c\<lparr>proposed := (proposed c)(x \<mapsto> p), repliers := (repliers c)(x \<mapsto> r), aliveNodes := alive\<rparr>"

lemma count_alive_all: "rel_node n c a i \<Longrightarrow> visits n nks \<Longrightarrow> group_ok n \<Longrightarrow> count_alive nks c = int n"
proof -
  assume r: "rel_node n c a i" and v: "visits n nks" and n: "group_ok n"
  have "filter (\<lambda>k. nfailCheck c k = Some False) nks = nks"
    using r v by (auto simp: rel_node_def visits_def filter_id_conv)
  then show ?thesis using length_visits [OF n v] by (simp add: count_alive_def)
qed

lemma isis_first_reply:
  assumes "rel_node n c a i" "Status m = ''p''" "repliers c (Id_m m) = None" "proposed c (Id_m m) = None"
  shows "isis encs nks c m = Inr (reply_state c (Id_m m) (Priority m) 1 (aliveNodes c), [], [])"
proof -
  have "\<not> map_get False (nfailCheck c) (NodeId m)" using assms(1) by (simp add: rel_node_def map_get_def)
  then show ?thesis
    using fail_sweep_no_failure [OF no_failure [OF assms(1)]] assms(2-4)
    by (simp add: isis_def isis_p_def isis_tally_def reply_state_def Let_def)
qed

lemma isis_next_reply:
  assumes "rel_node n c a i" "Status m = ''p''" "repliers c (Id_m m) = Some r" "proposed c (Id_m m) = Some q"
    "visits n encs" "visits n nks" "group_ok n"
  shows "isis encs nks c m = Inr (reply_state c (Id_m m) (max q (Priority m)) (r + 1) (int n),
    if r + 1 = int n then map (\<lambda>k. (k, m\<lparr>Status := ''a'', Priority := max q (Priority m)\<rparr>)) encs else [], [])"
proof -
  have nf: "\<not> map_get False (nfailCheck c) (NodeId m)" using assms(1) by (simp add: rel_node_def map_get_def)
  have alive: "count_alive nks (c\<lparr>proposed := f\<rparr>) = int n" "count_alive nks c = int n" for f
    using count_alive_all [OF assms(1,6,7)] by (simp_all add: count_alive_def)
  have cast: "mc_Cast encs (reply_state c x p r' al) msg = map (\<lambda>k. (k, msg)) encs" for x p r' al msg
  proof (rule mc_Cast_no_failure [OF _ assms(5)])
    show "rel_node n (reply_state c x p r' al) a i" using assms(1) by (simp add: rel_node_def reply_state_def)
  qed
  have "isis_p encs nks c m [] = (let c3 = reply_state c (Id_m m) (max q (Priority m)) (r + 1) (int n)
      in Inr (c3, if r + 1 = int n then isis_agree encs c3 m else []))"
  proof (cases "Priority m > q")
    case True
    then show ?thesis using nf assms(3,4) alive by (simp add: isis_p_def isis_tally_def Let_def reply_state_def)
  next
    case False
    then have "(proposed c)(Id_m m \<mapsto> max q (Priority m)) = proposed c"
      using assms(4) by (simp add: max_def map_upd_triv)
    then have "reply_state c (Id_m m) (max q (Priority m)) (r + 1) (int n) =
        c\<lparr>repliers := (repliers c)(Id_m m \<mapsto> r + 1), aliveNodes := int n\<rparr>"
      by (simp add: reply_state_def)
    then show ?thesis using nf assms(3,4) alive False by (simp add: isis_p_def isis_tally_def Let_def)
  qed
  also have "\<dots> = Inr (reply_state c (Id_m m) (max q (Priority m)) (r + 1) (int n),
    if r + 1 = int n then map (\<lambda>k. (k, m\<lparr>Status := ''a'', Priority := max q (Priority m)\<rparr>)) encs else [])"
    by (simp add: Let_def isis_agree_def cast) (simp add: reply_state_def)
  finally show ?thesis
    using fail_sweep_no_failure [OF no_failure [OF assms(1)]] assms(2) by (simp add: isis_def)
qed

lemma rel_votes_reply:
  assumes "rel_votes n c a i" "asent a x = Some i" "j \<notin> agot a x" "finite (agot a x)"
    "b = a\<lparr>agot := (agot a)(x := insert j (agot a x)), achan := ch\<rparr>"
    "p = (case proposed c x of None \<Rightarrow> int (rank (ahist a j) x) | Some q \<Rightarrow> max q (int (rank (ahist a j) x)))"
    "r = (case repliers c x of None \<Rightarrow> 1 | Some r \<Rightarrow> r + 1)"
  shows "rel_votes n (reply_state c x p r al) b i" "p = int (Max ((\<lambda>k. rank (ahist a k) x) ` insert j (agot a x)))"
    "r = int (card (insert j (agot a x)))"
proof -
  have old: "repliers c x = (if agot a x = {} then None else Some (int (card (agot a x))))"
    "proposed c x = (if agot a x = {} then None else Some (int (Max ((\<lambda>k. rank (ahist a k) x) ` agot a x))))"
    using assms(1) [unfolded rel_votes_def, rule_format, of x] assms(2) by simp_all
  show p: "p = int (Max ((\<lambda>k. rank (ahist a k) x) ` insert j (agot a x)))"
    using assms(4,6) old by (cases "agot a x = {}") (simp_all add: max.commute of_nat_max)
  show r: "r = int (card (insert j (agot a x)))"
    using assms(3,4,7) old by (cases "agot a x = {}") simp_all
  have "repliers c y = (if agot a y = {} then None else Some (int (card (agot a y)))) \<and>
    proposed c y = (if agot a y = {} then None else Some (int (Max ((\<lambda>k. rank (ahist a k) y) ` agot a y))))"
    if "asent a y = None \<or> asent a y = Some i" for y
    using assms(1) that unfolding rel_votes_def by blast
  then show "rel_votes n (reply_state c x p r al) b i"
    unfolding rel_votes_def by (auto simp: assms(5) reply_state_def p r simp del: Max_insert)
qed

lemma sim_round_prop:
  assumes R: "rel n s a" and inv: "ainv n a" and n: "group_ok n"
    and ij: "i \<in> nodes n" "j \<in> nodes n" "obox s i = []" "hand s j i = Some m"
    and v: "visits n encs" "visits n nks" and am: "achan a j i = Prop x # rest" "msg_rel n s a j m (Prop x)"
    and r: "isis encs nks (mc s i) m = r"
  shows "\<exists>c out ds b. r = Inr (c, out, ds) \<and> astep n a b \<and> rel n (round_to s j i c out ds) b"
proof -
  note N = relD(1-3) [OF R ij(1)]
  have m: "Status m = ''p''" "Priority m = int (rank (ahist a j) x)" "carries s x m" using am(2) by simp_all
  have id: "Id_m m = x" using carries_Id [OF relD(4) [OF R] m(3)] .
  have "Prop x \<in> set (achan a j i)" using am(1) by simp
  then have x: "asent a x = Some i" "j \<notin> agot a x" "agot a x \<subseteq> nodes n"
    using inv unfolding ainv_def inv_prop_def by blast+
  have fin: "finite (agot a x)" using x(3) finite_nodes by (rule finite_subset)
  define G where "G = insert j (agot a x)"
  have G: "G \<subseteq> nodes n" "finite G" "card G = Suc (card (agot a x))" using x fin ij(2) by (auto simp: G_def)
  have full: "G = nodes n \<longleftrightarrow> card G = n"
    using G(1) card_subset_eq [OF finite_nodes G(1)] by (auto simp: nodes_def)
  define p where "p = (case proposed (mc s i) x of None \<Rightarrow> int (rank (ahist a j) x)
      | Some q \<Rightarrow> max q (int (rank (ahist a j) x)))"
  define k where "k = (case repliers (mc s i) x of None \<Rightarrow> 1 | Some r \<Rightarrow> r + 1)"
  note V = rel_votes_reply [OF N(3) x(1,2) fin refl p_def k_def]
  have old: "repliers (mc s i) x = None \<longleftrightarrow> agot a x = {}" "proposed (mc s i) x = None \<longleftrightarrow> agot a x = {}"
    using N(3) [unfolded rel_votes_def, rule_format, of x] x(1) by simp_all
  define msg where "msg = m\<lparr>Status := ''a'', Priority := p\<rparr>"
  obtain al where re: "r = Inr (reply_state (mc s i) x p k al,
      if G = nodes n then map (\<lambda>k. (k, msg)) encs else [], [])"
  proof (cases "agot a x = {}")
    case True
    then have "G \<noteq> nodes n" using n full by (simp add: G(3) group_ok_def)
    then show thesis
      using isis_first_reply [OF N(1) m(1), of encs nks] True old id m(2) r that by (simp add: p_def k_def)
  next
    case False
    then obtain rr q where rq: "repliers (mc s i) x = Some rr" "proposed (mc s i) x = Some q" using old by blast
    have "rr + 1 = int n \<longleftrightarrow> G = nodes n" using full V(3) rq by (simp add: k_def G_def)
    then show thesis
      using isis_next_reply [OF N(1) m(1) _ _ v n, of rr q] rq id m(2) r that
      by (simp add: p_def k_def msg_def)
  qed
  let ?c = "reply_state (mc s i) x p k al"
  have own: "rel_node n ?c b i" if "ahist b i = ahist a i" for b :: "string astate"
    using N(1) that by (simp add: rel_node_def reply_state_def)
  show ?thesis
  proof (cases "G = nodes n")
    case False
    let ?b = "a\<lparr>agot := (agot a)(x := insert j (agot a x)), achan := take_from (achan a) j i\<rparr>"
    have step: "astep n a ?b" using False by (intro astep.reply [OF ij(1,2) am(1)]) (simp add: G_def)
    have "rel n (round_to s j i ?c [] []) ?b"
    proof (rule rel_round [OF R inv ij step, where aout = "\<lambda>_. []"])
      show "rel_pq n s (pq_mc ?c) ?b i"
        using rel_pq_stable [OF N(2) astep_extends [OF step] inv _ _ _ _ map_le_refl] ij(1)
        by (auto simp: reply_state_def)
    qed (use V(1) own x(1) in auto)
    then show ?thesis using re step False by auto
  next
    case True
    let ?b = "a\<lparr>agot := (agot a)(x := insert j (agot a x)),
      achan := put (take_from (achan a) j i) i (\<lambda>k. if k \<in> nodes n then [Agree x] else [])\<rparr>"
    have step: "astep n a ?b" using True by (intro astep.decide [OF ij(1,2) am(1)]) (simp add: G_def)
    have ag: "p = int (agreed n a x)" using V(2) unfolding agreed_def G_def [symmetric] True .
    have "rel n (round_to s j i ?c (map (\<lambda>k. (k, msg)) encs) []) ?b"
    proof (rule rel_round [OF R inv ij step])
      show "rel_pq n s (pq_mc ?c) ?b i"
        using rel_pq_stable [OF N(2) astep_extends [OF step] inv _ _ _ _ map_le_refl] ij(1)
        by (auto simp: reply_state_def)
    next
      fix k assume k: "k \<in> nodes n"
      have "msg_rel n s ?b i msg (Agree x)"
        using ag m(3) by (simp add: msg_def carries_def agreed_def)
      then show "list_all2 (msg_rel n s ?b i) (sent_to k (map (\<lambda>k. (k, msg)) encs))
          (if k \<in> nodes n then [Agree x] else [])"
        using k sent_to_all [OF v(1) k] by (simp del: msg_rel_chan)
    qed (use V(1) own x(1) in auto)
    then show ?thesis using re step True by auto
  qed
qed

text \<open>An agreement.\<close>

lemma sim_round_agree:
  assumes R: "rel n s a" and inv: "ainv n a"
    and ij: "i \<in> nodes n" "j \<in> nodes n" "obox s i = []" "hand s j i = Some m"
    and am: "achan a j i = Agree x # rest" "msg_rel n s a j m (Agree x)"
    and r: "isis encs nks (mc s i) m = r"
  shows "\<exists>c out ds b. r = Inr (c, out, ds) \<and> astep n a b \<and> rel n (round_to s j i c out ds) b"
proof -
  note N = relD(1-3) [OF R ij(1)]
  have m: "Status m = ''a''" "Priority m = int (agreed n a x)" "carries s x m" using am(2) by simp_all
  have id: "Id_m m = x" using carries_Id [OF relD(4) [OF R] m(3)] .
  have I: "inv_prop n a" "inv_agree n a" using inv by (simp_all add: ainv_def)
  have "Agree x \<in> set (achan a j i)" using am(1) by simp
  then have x: "agot a x = nodes n" "x \<notin> aacc a i" using I(2) unfolding inv_agree_def by blast+
  have hist: "x \<in> set (ahist a i)" using decided_seen [OF I(1) x(1) ij(1)] .
  have dlv: "x \<notin> set (adlv a i)" using I(2) x(2) unfolding inv_agree_def by blast
  let ?b1 = "a\<lparr>aacc := (aacc a)(i := insert x (aacc a i)), achan := take_from (achan a) j i\<rparr>"
  obtain k pq2 where k: "pq_FindById (pq_mc (mc s i)) x = Some k"
    "pq_Update ((pq_mc (mc s i))[k := (pq_mc (mc s i) ! k)\<lparr>IsDeliverable := True\<rparr>]) k (Priority m) = Inr pq2"
    "rel_pq n s pq2 ?b1 i"
    using rel_pq_accept [OF N(2) hist dlv refl m(2) relD(4) [OF R]] .
  obtain pq3 ds where d: "drain pq2 = (pq3, ds)" by fastforce
  note D = rel_pq_drain [OF k(3) d]
  let ?b = "?b1\<lparr>adlv := (adlv a)(i := adlv a i @ map Id_m ds)\<rparr>" and ?c = "(mc s i)\<lparr>pq_mc := pq3\<rparr>"
  have re: "r = Inr (?c, [], ds)"
    using fail_sweep_no_failure [OF no_failure [OF N(1)]] m(1) id k d r by (auto simp: isis_def isis_a_def Let_def)
  have step: "astep n a ?b" by (rule astep.accept [OF ij(1,2) am(1) refl D(1)])
  have "rel n (round_to s j i ?c [] ds) ?b"
  proof (rule rel_round [OF R inv ij step, where aout = "\<lambda>_. []"])
    show "rel_node n ?c ?b i" using N(1) by (simp add: rel_node_def)
    show "rel_pq n s (pq_mc ?c) ?b i" using D(2) by simp
    show "rel_votes n ?c ?b i" using N(3) by (simp add: rel_votes_def)
    show "\<forall>d \<in> set ds. carries s (Id_m d) d \<and> msg_key d = final_key n ?b (Id_m d)"
      using D(3) by (simp add: final_key_def agreed_def sender_of_def)
  qed simp_all
  then show ?thesis using re step by blast
qed

subsection \<open>The refinement\<close>

text \<open>Every round succeeds and is a step of the specification.\<close>

lemma sim_round:
  assumes "rel n s a" "ainv n a" "group_ok n" "i \<in> nodes n" "j \<in> nodes n" "obox s i = []" "hand s j i = Some m"
    "visits n encs" "visits n nks"
  shows "\<exists>c out ds b. isis encs nks (mc s i) m = Inr (c, out, ds) \<and> astep n a b \<and> rel n (round_to s j i c out ds) b"
proof -
  have "vchan s j i = m # tl (vchan s j i)" using assms(7) by (simp add: vchan_def)
  then obtain am rest where am: "achan a j i = am # rest" "msg_rel n s a j m am"
    using head_of [OF assms(1,4,5)] by metis
  show ?thesis
  proof (cases am)
    case (Init x)
    then show ?thesis using sim_round_init [OF assms(1-8) _ _ refl] am by simp
  next
    case (Prop x)
    then show ?thesis using sim_round_prop [OF assms _ _ refl] am by simp
  next
    case (Agree x)
    then show ?thesis using sim_round_agree [OF assms(1,2,4-7) _ _ refl] am by simp
  qed
qed

lemma sim_step:
  assumes "sstep n s t" "rel n s a" "ainv n a" "group_ok n"
  shows "\<exists>b. (b = a \<or> astep n a b) \<and> rel n t b"
  using assms
proof (induction rule: sstep.induct)
  case (submit i encs s uuid tx m)
  then show ?case using sim_submit [OF submit(6,7,1-5,8)] by blast
next
  case (transmit i k g s m rest)
  then show ?case using sim_transmit [OF transmit(5,7,1-4)] by blast
next
  case (flush i k s m rest)
  then show ?case using sim_flush [OF flush(4,1-3,6)] by blast
next
  case (skip i j s m rest loc c)
  then show ?case using sim_skip [OF skip(6,1-5)] by blast
next
  case (deliver i j s m rest loc c m')
  then show ?case using sim_deliver [OF deliver(6,1-5)] by blast
next
  case (round i j s m encs nks c out ds)
  then show ?case using sim_round [OF round(8,9,10,1-6)] by (auto simp: round_to_def)
qed

subsection \<open>The start\<close>

text \<open>
  At least two nodes, as many as an \<^verbatim>\<open>int\<close> can number, each with its own entry in the configuration.
\<close>

definition conf_ok :: "SockAddr list \<Rightarrow> bool" where
  "conf_ok addrs \<longleftrightarrow> group_ok (length addrs) \<and> distinct (map nodeId addrs)"

lemma rename_pool_other: "myid \<notin> nodeId ` set as \<Longrightarrow> snd (rename_pool myid i nidx as) = nidx"
  by (induction as arbitrary: i nidx) (auto simp: Let_def case_prod_beta)

lemma rename_pool_index:
  "distinct (map nodeId as) \<Longrightarrow> k < length as \<Longrightarrow>
   snd (rename_pool (nodeId (as ! k)) i nidx as) = i + 1 + int k"
proof (induction as arbitrary: i nidx k)
  case (Cons a as)
  show ?case
  proof (cases k)
    case 0
    then show ?thesis using Cons.prems by (simp add: Let_def case_prod_beta rename_pool_other)
  next
    case (Suc l)
    then have "nodeId a \<noteq> nodeId (as ! l)" using Cons.prems by (metis distinct.simps(2) image_eqI length_Cons
        list.set_map list.simps(9) nth_mem Suc_less_eq)
    then show ?thesis using Cons.IH [of l "i + 1" nidx] Cons.prems Suc
      by (simp add: Let_def case_prod_beta)
  qed
qed simp

lemma run_names_pool: "nodeId ` set (pool (run_names me \<lparr>nid = x, port = p, pool = addrs\<rparr>)) = set (node_names (length addrs))"
proof -
  have "map nodeId (fst (rename_pool me 0 0 addrs)) = map node_name [1..int (length addrs)]"
    using rename_pool_names [of me 0 0 addrs] by simp
  then have "nodeId ` set (fst (rename_pool me 0 0 addrs)) = node_name ` {1..int (length addrs)}"
    by (metis list.set_map set_upto)
  also have "\<dots> = set (node_names (length addrs))"
    by (force simp: set_node_names nodes_def image_iff intro: bexI [of _ "nat _"])
  finally show ?thesis by (simp add: run_names_def case_prod_beta)
qed

lemma rel_init:
  assumes "conf_ok addrs"
  shows "rel (length addrs) (sys_init addrs) ainit"
proof -
  have "rel_node (length addrs) (mc (sys_init addrs) i) ainit i" if i: "i \<in> nodes (length addrs)" for i
  proof -
    have "snd (rename_pool (nodeId (addrs ! (i - 1))) 0 0 addrs) = int i"
      using assms i rename_pool_index [of addrs "i - 1" 0 0] by (auto simp: conf_ok_def nodes_def)
    then show ?thesis
      using run_names_pool [of "nodeId (addrs ! (i - 1))" "nodeId (addrs ! (i - 1))" "[]" addrs]
      by (simp add: rel_node_def sys_init_def run_mcast_def ainit_def Let_def)
         (simp add: run_names_def case_prod_beta)
  qed
  then show ?thesis
    by (simp add: rel_def rel_pq_def rel_votes_def rel_sent_def rel_casts_def rel_lst_def rel_chan_def
        rel_flow_def vchan_def)
      (simp add: sys_init_def ainit_def run_mcast_def Let_def)
qed

lemma sreach_rel:
  assumes "sreach addrs s" "conf_ok addrs"
  obtains a where "areach (length addrs) a" "rel (length addrs) s a" "ainv (length addrs) a"
proof -
  have "\<exists>a. areach (length addrs) a \<and> rel (length addrs) s a"
    using assms
  proof (induction rule: sreach.induct)
    case start
    then show ?case using rel_init areach.start by blast
  next
    case (step s t)
    then obtain a where "areach (length addrs) a" "rel (length addrs) s a" by blast
    then show ?case
      using sim_step [OF step.hyps(2)] areach_ainv areach.step step.prems unfolding conf_ok_def by metis
  qed
  then show thesis using that areach_ainv by blast
qed

subsection \<open>Runs\<close>

text \<open>
  One schedule of the group as a function, for concrete runs: every action names the goroutine
  that moves. Maps are visited in the order of the node numbers.
\<close>

datatype act = Submit nat string string | Transmit nat nat nat | Flush nat nat | Receive nat nat | Round nat nat

fun run_act :: "nat \<Rightarrow> act \<Rightarrow> sys \<Rightarrow> sys option" where
  "run_act n (Submit i uuid tx) s =
     (case parse_tx (name_of i) uuid tx of
        Inl _ \<Rightarrow> None
      | Inr m \<Rightarrow>
          if 1 \<le> i \<and> i \<le> n \<and> cast_of s uuid = None
          then Some (s\<lparr>casts := (casts s)(i := casts s i @ [mc_Cast (node_names n) (mc s i) m]),
                      cast_of := (cast_of s)(uuid \<mapsto> m)\<rparr>)
          else None)"
| "run_act n (Transmit i k g) s =
     (if 1 \<le> i \<and> i \<le> n \<and> 1 \<le> k \<and> k \<le> n \<and> g < length (casts s i)
      then (case casts s i ! g of
              [] \<Rightarrow> None
            | (d, m) # rest \<Rightarrow>
                if d = name_of k
                then Some (s\<lparr>casts := (casts s)(i := (casts s i)[g := rest]),
                            conn := (conn s)(i := (conn s i)(k := conn s i k @ [m]))\<rparr>)
                else None)
      else None)"
| "run_act n (Flush i k) s =
     (if 1 \<le> i \<and> i \<le> n \<and> 1 \<le> k \<and> k \<le> n
      then (case obox s i of
              [] \<Rightarrow> None
            | (d, m) # rest \<Rightarrow>
                if d = name_of k
                then Some (s\<lparr>obox := (obox s)(i := rest),
                            conn := (conn s)(i := (conn s i)(k := conn s i k @ [m]))\<rparr>)
                else None)
      else None)"
| "run_act n (Receive j i) s =
     (if 1 \<le> i \<and> i \<le> n \<and> 1 \<le> j \<and> j \<le> n \<and> hand s j i = None
      then (case conn s j i of
              [] \<Rightarrow> None
            | m # rest \<Rightarrow>
                (case mc_Deliver (name_of j) (mc s i) (Some m) of
                   (c, Stopped) \<Rightarrow> None
                 | (c, Skipped) \<Rightarrow> Some (s\<lparr>mc := (mc s)(i := c), conn := (conn s)(j := (conn s j)(i := rest))\<rparr>)
                 | (c, Forward m') \<Rightarrow>
                     Some (s\<lparr>mc := (mc s)(i := c), conn := (conn s)(j := (conn s j)(i := rest)),
                            hand := (hand s)(j := (hand s j)(i := Some m'))\<rparr>)))
      else None)"
| "run_act n (Round j i) s =
     (if 1 \<le> i \<and> i \<le> n \<and> 1 \<le> j \<and> j \<le> n \<and> obox s i = []
      then (case hand s j i of
              None \<Rightarrow> None
            | Some m \<Rightarrow>
                (case isis (node_names n) (node_names n) (mc s i) m of
                   Inl _ \<Rightarrow> None
                 | Inr (c, out, ds) \<Rightarrow>
                     Some (s\<lparr>mc := (mc s)(i := c), hand := (hand s)(j := (hand s j)(i := None)),
                            obox := (obox s)(i := out), lst := (lst s)(i := lst s i @ ds)\<rparr>)))
      else None)"

fun run_acts :: "nat \<Rightarrow> act list \<Rightarrow> sys \<Rightarrow> sys option" where
  "run_acts n [] s = Some s"
| "run_acts n (a # as) s = (case run_act n a s of None \<Rightarrow> None | Some s' \<Rightarrow> run_acts n as s')"

lemma visits_node_names: "n < 2 ^ 63 \<Longrightarrow> visits n (node_names n)"
  using name_of_inject_lt [of n]
  by (auto simp: visits_def node_names_def distinct_map inj_on_def nodes_def less_Suc_eq_le)

lemma run_act_step:
  assumes "run_act n a s = Some t" "n < 2 ^ 63" "card (dom (cast_of s)) < 2 ^ 53"
  shows "sstep n s t"
proof (cases a)
  case (Submit i uuid tx)
  then show ?thesis using assms visits_node_names
    by (auto intro: sstep.submit simp: nodes_def split: sum.splits if_splits)
next
  case (Transmit i k g)
  then show ?thesis using assms(1)
    by (auto split: list.splits if_splits) (rule sstep.transmit, simp_all add: nodes_def)
next
  case (Flush i k)
  then show ?thesis using assms(1)
    by (auto split: list.splits if_splits) (rule sstep.flush, simp_all add: nodes_def)
next
  case (Receive j i)
  then show ?thesis using assms(1)
    by (auto intro: sstep.skip [where loc = "name_of j"] sstep.deliver [where loc = "name_of j"]
        simp: nodes_def simp del: mc_Deliver.simps
        split: list.splits if_splits prod.splits deliver_result.splits)
next
  case (Round j i)
  then show ?thesis using assms(1) visits_node_names [OF assms(2)]
    by (auto intro: sstep.round simp: nodes_def split: option.splits sum.splits prod.splits if_splits)
qed

lemma run_act_casts:
  "run_act n a s = Some t \<Longrightarrow> finite (dom (cast_of s)) \<Longrightarrow>
   finite (dom (cast_of t)) \<and> card (dom (cast_of t)) \<le> Suc (card (dom (cast_of s)))"
  by (cases a) (auto simp: card_insert_if simp del: mc_Deliver.simps
      split: sum.splits if_splits list.splits option.splits prod.splits deliver_result.splits)

lemma run_acts_reach:
  assumes "run_acts (length addrs) as s = Some t" "sreach addrs s" "length addrs < 2 ^ 63" "finite (dom (cast_of s))"
    "card (dom (cast_of s)) + length as \<le> 2 ^ 53"
  shows "sreach addrs t"
  using assms
proof (induction as arbitrary: s)
  case (Cons a as)
  then obtain s' where s': "run_act (length addrs) a s = Some s'" "run_acts (length addrs) as s' = Some t"
    by (auto split: option.splits)
  have "sstep (length addrs) s s'"
    using run_act_step [OF s'(1)] Cons.prems(3,5) by simp
  then have "sreach addrs s'" using Cons.prems(2) by (rule sreach.step [rotated])
  then show ?case
    using Cons.IH [OF s'(2)] run_act_casts [OF s'(1) Cons.prems(4)] Cons.prems(3,5) by simp
qed simp

subsection \<open>Properties of the group\<close>

definition quiet :: "nat \<Rightarrow> sys \<Rightarrow> bool" where
  "quiet n s \<longleftrightarrow> (\<forall>i \<in> nodes n. obox s i = [] \<and> concat (casts s i) = [] \<and>
     (\<forall>j \<in> nodes n. conn s j i = [] \<and> hand s j i = None))"

lemma lst_facts:
  assumes "rel n s a" "areach n a" "i \<in> nodes n"
  shows "map Id_m (lst s i) = adlv a i" "map msg_key (lst s i) = map (final_key n a) (adlv a i)"
    "\<And>d. d \<in> set (lst s i) \<Longrightarrow> carries s (Id_m d) d \<and> msg_key d = final_key n a (Id_m d)"
proof -
  show 1: "map Id_m (lst s i) = adlv a i"
    and 2: "\<And>d. d \<in> set (lst s i) \<Longrightarrow> carries s (Id_m d) d \<and> msg_key d = final_key n a (Id_m d)"
    using relD(6) [OF assms(1)] assms(3) by (simp_all add: rel_lst_def)
  show "map msg_key (lst s i) = map (final_key n a) (adlv a i)"
    unfolding 1 [symmetric] using 2 by simp
qed

lemma before_map: "before xs x y \<Longrightarrow> before (map f xs) (f x) (f y)"
  by (force simp: before_def)

lemma before_map_inj:
  assumes "before (map f xs) (f x) (f y)" "inj_on f (set xs)" "x \<in> set xs" "y \<in> set xs"
  shows "before xs x y"
proof -
  obtain us vs ws where "map f xs = us @ f x # vs @ f y # ws" using assms(1) by (auto simp: before_def)
  then obtain us' x' vs' y' ws' where "xs = us' @ x' # vs' @ y' # ws'" "f x' = f x" "f y' = f y"
    by (fastforce simp: map_eq_append_conv map_eq_Cons_conv append_eq_map_conv Cons_eq_map_conv)
  moreover from this have "x' \<in> set xs" "y' \<in> set xs" by simp_all
  ultimately have "xs = us' @ x # vs' @ y # ws'" using inj_onD [OF assms(2)] assms(3,4) by metis
  then show ?thesis by (auto simp: before_def)
qed

lemma mc_sorted_lemma:
  assumes "conf_ok addrs" "sreach addrs s" "i \<in> nodes (length addrs)"
  shows "sorted (map msg_key (lst s i)) \<and> distinct (map Id_m (lst s i)) \<and>
    (\<forall>d \<in> set (lst s i). \<exists>m. cast_of s (Id_m d) = Some m \<and> pay d = pay m)"
proof -
  obtain a where a: "areach (length addrs) a" "rel (length addrs) s a" using sreach_rel [OF assms(2,1)] .
  show ?thesis
    using areach_sorted [OF a(1) assms(3)] lst_facts [OF a(2,1) assms(3)] by (simp add: carries_def)
qed

text \<open>
  C1: Total order. While no node fails, if one node delivers a message before another one and a
  second node delivers both, it delivers them in the same order, provided their keys (agreed
  priority, number of the sender) differ.
\<close>

theorem mc_total_order:
  assumes "conf_ok addrs" "sreach addrs s" "i \<in> nodes (length addrs)" "k \<in> nodes (length addrs)"
    and "before (lst s i) d e" "d' \<in> set (lst s k)" "e' \<in> set (lst s k)" "Id_m d' = Id_m d" "Id_m e' = Id_m e"
    and "msg_key d \<noteq> msg_key e"
  shows "before (lst s k) d' e'"
proof -
  obtain a where a: "areach (length addrs) a" "rel (length addrs) s a" using sreach_rel [OF assms(2,1)] .
  note L = lst_facts [OF a(2,1)]
  have de: "d \<in> set (lst s i)" "e \<in> set (lst s i)" using before_imp_set [OF assms(5)] by auto
  have "before (adlv a i) (Id_m d) (Id_m e)" using before_map [OF assms(5), of Id_m] L(1) [OF assms(3)] by simp
  moreover have "Id_m d \<in> set (adlv a k)" "Id_m e \<in> set (adlv a k)"
    using L(1) [OF assms(4)] assms(6-9) by (metis image_eqI list.set_map)+
  moreover have "final_key (length addrs) a (Id_m d) \<noteq> final_key (length addrs) a (Id_m e)"
    using L(3) [OF assms(3) de(1)] L(3) [OF assms(3) de(2)] assms(10) by simp
  ultimately have "before (adlv a k) (Id_m d) (Id_m e)" by (rule areach_total_order [OF a(1) assms(3,4)])
  then have "before (map Id_m (lst s k)) (Id_m d') (Id_m e')" using L(1) [OF assms(4)] assms(8,9) by simp
  moreover have "inj_on Id_m (set (lst s k))" using mc_sorted_lemma [OF assms(1,2,4)] by (simp add: distinct_map)
  ultimately show ?thesis using assms(6,7) by (rule before_map_inj)
qed

text \<open>
  C10: Integrity. Every node delivers in the order of the keys, delivers no message twice, and
  delivers only messages that were cast, with the contents they were cast with.
\<close>

theorem mc_integrity:
  assumes "conf_ok addrs" "sreach addrs s" "i \<in> nodes (length addrs)"
  shows "sorted (map msg_key (lst s i)) \<and> distinct (map Id_m (lst s i)) \<and>
    (\<forall>d \<in> set (lst s i). \<exists>m. cast_of s (Id_m d) = Some m \<and> pay d = pay m)"
  by (rule mc_sorted_lemma [OF assms])

text \<open>
  Agreement on a message. Two nodes that deliver a message deliver it under the same key
  and with the same contents.
\<close>

theorem mc_same_key:
  assumes "conf_ok addrs" "sreach addrs s" "i \<in> nodes (length addrs)" "k \<in> nodes (length addrs)"
    and "d \<in> set (lst s i)" "e \<in> set (lst s k)" "Id_m d = Id_m e"
  shows "msg_key d = msg_key e \<and> pay d = pay e"
proof -
  obtain a where a: "areach (length addrs) a" "rel (length addrs) s a" using sreach_rel [OF assms(2,1)] .
  show ?thesis
    using lst_facts(3) [OF a(2,1) assms(3,5)] lst_facts(3) [OF a(2,1) assms(4,6)] assms(7)
    by (auto simp: carries_def)
qed

text \<open>
  C19: No crash. A round of ISIS on any message that a reachable group hands to it ends without
  a panic: no missing connection, no message missing from the queue, no index out of range.
\<close>

theorem mc_no_panic:
  assumes "conf_ok addrs" "sreach addrs s" "i \<in> nodes (length addrs)" "j \<in> nodes (length addrs)"
    and "hand s j i = Some m" "obox s i = []" "visits (length addrs) encs" "visits (length addrs) nks"
  shows "is_ok (isis encs nks (mc s i) m)"
proof -
  obtain a where a: "rel (length addrs) s a" "ainv (length addrs) a" using sreach_rel [OF assms(2,1)] .
  then show ?thesis
    using sim_round [OF a _ assms(3,4,6,5,7,8)] assms(1) by (auto simp: conf_ok_def)
qed

lemma quiet_chan:
  assumes "rel n s a" "quiet n s" "i \<in> nodes n" "j \<in> nodes n"
  shows "achan a j i = []"
  using relD(8) [OF assms(1,3,4)] assms(2-4) by (simp add: vchan_def quiet_def)

lemma mc_quiet_lemma:
  assumes "conf_ok addrs" "sreach addrs s" "quiet (length addrs) s" "cast_of s x = Some m"
    "i \<in> nodes (length addrs)"
  shows "x \<in> Id_m ` set (lst s i)"
proof -
  let ?n = "length addrs"
  obtain a where a: "areach ?n a" "rel ?n s a" "ainv ?n a" using sreach_rel [OF assms(2,1)] .
  obtain k where k: "k \<in> nodes ?n" "sender_of a x = k"
    using relD(4) [OF a(2)] assms(4) unfolding rel_sent_def sender_of_def by force
  have "c = []" if "c \<in> set (casts s k)" for c using assms(3) k(1) that by (auto simp: quiet_def)
  then have "x \<in> set (ahist a k)"
    using relD(9) [OF a(2)] assms(4) k quiet_chan [OF a(2) assms(3) k(1) k(1)] unfolding rel_flow_def by fastforce
  then have "x \<in> set (adlv a i)"
    using quiet_delivered [of ?n a i k x] a(3) quiet_chan [OF a(2) assms(3)] assms(5) k(1)
    by (auto simp: ainv_def)
  then show ?thesis using lst_facts(1) [OF a(2,1) assms(5)] by (metis list.set_map)
qed

text \<open>
  C7: Delivery. In a group of at least two nodes (and fewer than \<open>2 ^ 63\<close>) with different entries in the
  configuration, in which no node fails: when everything that was written has been read and no goroutine has
  a send left to make, every node has delivered every message that any node has cast: nothing waits in a hold-back
  queue for ever. A group of one node delivers nothing, as \<open>one_node_never_delivers\<close> in \<open>Multicast_Runs\<close>
  shows.
\<close>

theorem mc_quiet_delivered:
  assumes "2 \<le> length addrs" "length addrs < 2 ^ 63" "distinct (map nodeId addrs)"
    and "sreach addrs s" "quiet (length addrs) s" "cast_of s x = Some m" "i \<in> nodes (length addrs)"
  shows "x \<in> Id_m ` set (lst s i)"
  using mc_quiet_lemma [OF _ assms(4-7)] assms(1-3) by (simp add: conf_ok_def group_ok_def)

lemma quiet_same_lists:
  assumes "conf_ok addrs" "sreach addrs s" "quiet (length addrs) s"
    and ik: "i \<in> nodes (length addrs)" "k \<in> nodes (length addrs)"
    and inj: "inj_on msg_key (set (lst s i))"
  shows "map pay (lst s i) = map pay (lst s k)"
proof -
  obtain a where a: "areach (length addrs) a" "rel (length addrs) s a" using sreach_rel [OF assms(2,1)] .
  note S = mc_sorted_lemma [OF assms(1,2)] and L = lst_facts(3) [OF a(2,1)]
  have ids: "Id_m ` set (lst s l) = dom (cast_of s)" if "l \<in> nodes (length addrs)" for l
    using S [OF that] mc_quiet_lemma [OF assms(1-3) _ that] by auto
  have key: "map msg_key (lst s l) = map (final_key (length addrs) a) (map Id_m (lst s l))"
    if "l \<in> nodes (length addrs)" for l using L [OF that] by simp
  have inj': "inj_on (final_key (length addrs) a) (dom (cast_of s))"
    unfolding ids [OF ik(1), symmetric] using inj L [OF ik(1)] by (auto simp: inj_on_def)
  have dist: "distinct (map msg_key (lst s l))" if "l \<in> nodes (length addrs)" for l
    unfolding key [OF that] distinct_map [of "final_key (length addrs) a"]
    using S [OF that] inj' ids [OF that] by simp
  have "set (map msg_key (lst s l)) = final_key (length addrs) a ` dom (cast_of s)"
    if "l \<in> nodes (length addrs)" for l
    unfolding key [OF that] ids [OF that, symmetric] by (simp only: set_map)
  then have "set (map msg_key (lst s i)) = set (map msg_key (lst s k))" using ik by simp
  then have "map msg_key (lst s i) = map msg_key (lst s k)"
    using S [OF ik(1)] S [OF ik(2)] dist [OF ik(1)] dist [OF ik(2)] by (intro sorted_distinct_set_unique) simp_all
  then have "map (final_key (length addrs) a) (map Id_m (lst s i)) = map (final_key (length addrs) a) (map Id_m (lst s k))"
    unfolding key [OF ik(1)] key [OF ik(2)] .
  moreover have "set (map Id_m (lst s i)) \<union> set (map Id_m (lst s k)) = dom (cast_of s)"
    using ids [OF ik(1)] ids [OF ik(2)] by simp
  ultimately have "map Id_m (lst s i) = map Id_m (lst s k)" using inj' by (metis map_inj_on)
  moreover have p: "map pay (lst s l) = map (\<lambda>x. pay (the (cast_of s x))) (map Id_m (lst s l))"
    if "l \<in> nodes (length addrs)" for l
    using S [OF that] by fastforce
  ultimately show ?thesis unfolding p [OF ik(1)] p [OF ik(2)] by (simp only:)
qed

text \<open>
  C4: Equal ledgers. When the group is quiet and the keys of the messages differ, the
  applications of any two nodes have the same accounts and have printed the same text, whenever
  each of them received the messages.
\<close>

theorem mc_same_ledger:
  assumes "conf_ok addrs" "sreach addrs s" "quiet (length addrs) s"
    and "i \<in> nodes (length addrs)" "k \<in> nodes (length addrs)" "inj_on msg_key (set (lst s i))"
    and "length ts = length (lst s i)" "length us = length (lst s k)"
  shows "\<exists>a b. listen_all app_Init (zip ts (lst s i)) = Inr a \<and> listen_all app_Init (zip us (lst s k)) = Inr b \<and>
    Accts a = Accts b \<and> stdout a = stdout b \<and> writer a = writer b"
proof -
  obtain c where c: "rel (length addrs) s c" "areach (length addrs) c" using sreach_rel [OF assms(2,1)] .
  have ok: "is_ok (listen_all app_Init (zip xs (lst s l)))" if "l \<in> nodes (length addrs)" for xs l
  proof (rule listen_all_ok, intro ballI)
    fix m assume "m \<in> snd ` set (zip xs (lst s l))"
    then have "m \<in> set (lst s l)" by (auto dest: set_zip_rightD)
    then have "carries s (Id_m m) m" using lst_facts(3) [OF c that] by blast
    then show "msg_names_ok m" using carries_facts [OF relD(4) [OF c(1)]] by metis
  qed
  define f where "f = (\<lambda>(_ :: string, _ :: int, _ :: string, d :: bool, ns :: string list, am :: goint). (d, ns, am))"
  have f: "map (\<lambda>m. (IsDeposit m, Names m, Amount m)) (lst s l) = map f (map pay (lst s l))" for l
    by (simp add: pay_def f_def)
  have "map (\<lambda>m. (IsDeposit m, Names m, Amount m)) (lst s i) = map (\<lambda>m. (IsDeposit m, Names m, Amount m)) (lst s k)"
    unfolding f quiet_same_lists [OF assms(1-6)] ..
  from shown_listen_all [OF assms(7,8) this refl, of app_Init]
  show ?thesis using ok [OF assms(4), of ts] ok [OF assms(5), of us] by (auto simp: is_ok_iff shown_def)
qed

text \<open>
  C16: Refinement. Every reachable state of the group corresponds to a reachable state of the
  abstract protocol: every round, delivery and send of the code is a step of it or none.
\<close>

theorem mc_refines_spec:
  assumes "conf_ok addrs" "sreach addrs s"
  shows "\<exists>a. areach (length addrs) a \<and> rel (length addrs) s a"
  using sreach_rel [OF assms(2,1)] by blast

end
