(* ===== verification/Multicast_Runs.thy ===== *)
theory Multicast_Runs
  imports Multicast_System
begin

section \<open>Multicast: concrete runs\<close>

text \<open>
  Two runs of a group of two nodes, evaluated step by step with the definitions of the code.
  In \<open>run_two\<close> both nodes cast a message at the same time; it ends quiet, and shows that the
  hypotheses of the properties of the group can be met. In \<open>run_tie\<close> one node casts two
  messages from two goroutines, and the nodes deliver them in different orders.
\<close>

definition addrs2 :: "SockAddr list" where
  "addrs2 = [\<lparr>nodeId = ''a'', host = ''h1'', ip = ''10.0.0.1'', sport = ''9000''\<rparr>,
             \<lparr>nodeId = ''b'', host = ''h2'', ip = ''10.0.0.2'', sport = ''9000''\<rparr>]"

definition run_two :: "act list" where
  "run_two = [Submit 1 ''x'' ''DEPOSIT a 1'', Submit 2 ''y'' ''DEPOSIT b 1'',
    Transmit 1 1 0, Transmit 2 1 0, Transmit 1 2 0, Transmit 2 2 0,
    Receive 1 1, Round 1 1, Flush 1 2, Flush 1 1, Receive 2 1, Round 2 1, Flush 1 2, Flush 1 2,
    Receive 2 2, Round 2 2, Flush 2 1, Flush 2 2, Receive 1 2, Round 1 2, Flush 2 1, Flush 2 1,
    Receive 1 1, Round 1 1, Receive 2 1, Receive 2 1, Receive 2 1, Round 2 1, Flush 1 1, Flush 1 2,
    Receive 2 2, Round 2 2, Receive 1 2, Receive 1 2, Receive 1 2, Round 1 2, Flush 2 1, Flush 2 2,
    Receive 1 1, Round 1 1, Receive 1 2, Round 1 2, Receive 2 1, Round 2 1, Receive 2 2, Round 2 2]"

definition run_tie :: "act list" where
  "run_tie = [Submit 1 ''x'' ''DEPOSIT a 1'', Submit 1 ''y'' ''DEPOSIT b 1'',
    Transmit 1 1 1, Transmit 1 1 0, Transmit 1 2 0, Transmit 1 2 1,
    Receive 1 2, Round 1 2, Flush 2 1, Flush 2 1, Receive 1 2, Round 1 2, Flush 2 1, Flush 2 1,
    Receive 1 1, Round 1 1, Flush 1 2, Flush 1 1, Receive 1 1, Round 1 1, Flush 1 2, Flush 1 1,
    Receive 2 1, Receive 2 1, Round 2 1, Receive 2 1, Receive 2 1, Round 2 1,
    Receive 1 1, Round 1 1, Flush 1 1, Flush 1 2, Receive 1 1, Round 1 1, Flush 1 1, Flush 1 2,
    Receive 1 1, Round 1 1, Receive 1 1, Round 1 1,
    Receive 1 2, Receive 1 2, Receive 1 2, Round 1 2, Receive 1 2, Round 1 2]"

definition summary :: "sys \<Rightarrow> (string \<times> int \<times> int) list \<times> (string \<times> int \<times> int) list" where
  "summary s = (map (\<lambda>m. (Id_m m, Priority m, Sender m)) (lst s 1), map (\<lambda>m. (Id_m m, Priority m, Sender m)) (lst s 2))"

definition idle :: "sys \<Rightarrow> bool" where
  "idle s \<longleftrightarrow> (\<forall>i \<in> set [1, 2]. obox s i = [] \<and> concat (casts s i) = [] \<and>
     (\<forall>j \<in> set [1, 2]. conn s j i = [] \<and> hand s j i = None))"

lemma conf_ok_addrs2: "conf_ok addrs2"
  by (simp add: conf_ok_def group_ok_def addrs2_def)

lemma length_addrs2 [simp]: "length addrs2 = 2"
  by (simp add: addrs2_def)

lemma nodes_2: "nodes 2 = {1, 2}"
  by (auto simp: nodes_def)

lemma run_reach:
  assumes "run_acts 2 acts (sys_init addrs2) = Some s" "length acts \<le> 2 ^ 53"
  shows "sreach addrs2 s"
  using assms by (intro run_acts_reach [OF _ sreach.start]) (simp_all add: sys_init_def)

lemma run_two_result:
  "map_option (\<lambda>s. (summary s, idle s, cast_of s ''x'' \<noteq> None)) (run_acts 2 run_two (sys_init addrs2)) =
   Some (([(''x'', 2, 1), (''y'', 2, 2)], [(''x'', 2, 1), (''y'', 2, 2)]), True, True)"
  by code_simp

lemma run_two_busy:
  "map_option (\<lambda>s. (hand s 1 1 \<noteq> None, obox s 1 = [])) (run_acts 2 (take 7 run_two) (sys_init addrs2)) = Some (True, True)"
  by code_simp

lemma run_tie_result:
  "map_option (\<lambda>s. (summary s, idle s)) (run_acts 2 run_tie (sys_init addrs2)) =
   Some (([(''y'', 2, 1), (''x'', 2, 1)], [(''x'', 2, 1), (''y'', 2, 1)]), True)"
  by code_simp

lemma idle_quiet: "idle s \<Longrightarrow> quiet 2 s"
  by (simp add: idle_def quiet_def nodes_2)

lemma two_elements: "map f xs = [a, b] \<Longrightarrow> \<exists>x y. xs = [x, y] \<and> f x = a \<and> f y = b"
  by (auto simp: map_eq_Cons_conv)

lemma run_two_state:
  obtains s d e d' e' m where "sreach addrs2 s" "quiet 2 s" "cast_of s ''x'' = Some m"
    "lst s 1 = [d, e]" "lst s 2 = [d', e']" "Id_m d = ''x''" "Id_m d' = ''x''" "Id_m e = ''y''" "Id_m e' = ''y''"
    "msg_key d = Key 2 1" "msg_key e = Key 2 2"
proof -
  obtain s where s: "run_acts 2 run_two (sys_init addrs2) = Some s"
    "summary s = ([(''x'', 2, 1), (''y'', 2, 2)], [(''x'', 2, 1), (''y'', 2, 2)])" "idle s" "cast_of s ''x'' \<noteq> None"
    using run_two_result by auto
  have "sreach addrs2 s" by (rule run_reach [OF s(1)]) (simp add: run_two_def)
  moreover obtain d e where "lst s 1 = [d, e]" "Id_m d = ''x''" "Id_m e = ''y''" "msg_key d = Key 2 1" "msg_key e = Key 2 2"
    using s(2) two_elements [of "\<lambda>m. (Id_m m, Priority m, Sender m)" "lst s 1"] by (auto simp: summary_def msg_key_def)
  moreover obtain d' e' where "lst s 2 = [d', e']" "Id_m d' = ''x''" "Id_m e' = ''y''"
    using s(2) two_elements [of "\<lambda>m. (Id_m m, Priority m, Sender m)" "lst s 2"] by (auto simp: summary_def)
  ultimately show thesis using that s(4) idle_quiet [OF s(3)] by blast
qed

subsection \<open>The properties of the group on the first run\<close>

theorem mc_total_order_witness:
  "\<exists>s d e d' e'. sreach addrs2 s \<and> before (lst s 1) d e \<and> msg_key d \<noteq> msg_key e \<and> Id_m d' = Id_m d \<and>
     Id_m e' = Id_m e \<and> before (lst s 2) d' e'"
proof -
  obtain s d e d' e' where s: "sreach addrs2 s" "lst s 1 = [d, e]" "lst s 2 = [d', e']"
    "Id_m d = ''x''" "Id_m d' = ''x''" "Id_m e = ''y''" "Id_m e' = ''y''" "msg_key d = Key 2 1" "msg_key e = Key 2 2"
    by (rule run_two_state) blast
  have b: "before (lst s 1) d e" unfolding before_def s(2) by (rule exI [of _ "[]"], rule exI [of _ "[]"]) simp
  have "before (lst s 2) d' e'"
    by (rule mc_total_order [OF conf_ok_addrs2 s(1) _ _ b]) (simp_all add: nodes_2 s del: One_nat_def)
  then show ?thesis using s b by (metis isis_key.inject zero_neq_numeral numeral_eq_one_iff semiring_norm(85))
qed

theorem mc_integrity_witness:
  "\<exists>s. sreach addrs2 s \<and> length (lst s 1) = 2 \<and> sorted (map msg_key (lst s 1)) \<and> distinct (map Id_m (lst s 1)) \<and>
     (\<forall>d \<in> set (lst s 1). \<exists>m. cast_of s (Id_m d) = Some m \<and> pay d = pay m)"
proof -
  obtain s d e where s: "sreach addrs2 s" "lst s 1 = [d, e]" by (rule run_two_state) blast
  have "sorted (map msg_key (lst s 1)) \<and> distinct (map Id_m (lst s 1)) \<and>
     (\<forall>d \<in> set (lst s 1). \<exists>m. cast_of s (Id_m d) = Some m \<and> pay d = pay m)"
    by (rule mc_integrity [OF conf_ok_addrs2 s(1)]) (simp add: nodes_2)
  then show ?thesis using s by (intro exI [of _ s]) simp
qed

theorem mc_same_key_witness:
  "\<exists>s d e. sreach addrs2 s \<and> d \<in> set (lst s 1) \<and> e \<in> set (lst s 2) \<and> Id_m d = Id_m e \<and>
     msg_key d = msg_key e \<and> pay d = pay e"
proof -
  obtain s d e d' e' where s: "sreach addrs2 s" "lst s 1 = [d, e]" "lst s 2 = [d', e']" "Id_m d = ''x''" "Id_m d' = ''x''"
    by (rule run_two_state) blast
  have "msg_key d = msg_key d' \<and> pay d = pay d'"
    by (rule mc_same_key [OF conf_ok_addrs2 s(1), of 1 2]) (simp_all add: nodes_2 s del: One_nat_def)
  then show ?thesis using s by (intro exI [of _ s] exI [of _ d] exI [of _ d']) simp
qed

theorem mc_no_panic_witness:
  "\<exists>s m. sreach addrs2 s \<and> hand s 1 1 = Some m \<and> is_ok (isis (node_names 2) (node_names 2) (mc s 1) m)"
proof -
  obtain s m where s: "run_acts 2 (take 7 run_two) (sys_init addrs2) = Some s" "hand s 1 1 = Some m" "obox s 1 = []"
    using run_two_busy by auto
  have r: "sreach addrs2 s" by (rule run_reach [OF s(1)]) (simp add: run_two_def)
  have "visits 2 (node_names 2)" by (rule visits_node_names) (simp add: group_ok_def)
  then have "is_ok (isis (node_names 2) (node_names 2) (mc s 1) m)"
    by (intro mc_no_panic [OF conf_ok_addrs2 r _ _ s(2,3)]) (simp_all add: nodes_2)
  then show ?thesis using r s(2) by blast
qed

theorem mc_quiet_delivered_witness: "\<exists>s. sreach addrs2 s \<and> quiet 2 s \<and> ''x'' \<in> Id_m ` set (lst s 2)"
proof -
  obtain s m where s: "sreach addrs2 s" "quiet 2 s" "cast_of s ''x'' = Some m" by (rule run_two_state) blast
  have "distinct (map nodeId addrs2)" using conf_ok_addrs2 by (simp add: conf_ok_def)
  then have "''x'' \<in> Id_m ` set (lst s 2)"
    by (intro mc_quiet_delivered [OF _ _ _ s(1) _ s(3)]) (simp_all add: s(2) nodes_2)
  then show ?thesis using s by blast
qed

theorem mc_same_ledger_witness:
  "\<exists>s a b. sreach addrs2 s \<and> length (lst s 1) = 2 \<and> listen_all app_Init (zip [''1.0'', ''2.0''] (lst s 1)) = Inr a \<and>
     listen_all app_Init (zip [''3.0'', ''4.0''] (lst s 2)) = Inr b \<and> Accts a = Accts b \<and> stdout a = stdout b"
proof -
  obtain s d e d' e' where s: "sreach addrs2 s" "quiet 2 s" "lst s 1 = [d, e]" "lst s 2 = [d', e']"
    "msg_key d = Key 2 1" "msg_key e = Key 2 2" by (rule run_two_state) blast
  have "\<exists>a b. listen_all app_Init (zip [''1.0'', ''2.0''] (lst s 1)) = Inr a \<and>
     listen_all app_Init (zip [''3.0'', ''4.0''] (lst s 2)) = Inr b \<and> Accts a = Accts b \<and> stdout a = stdout b \<and>
     writer a = writer b"
    by (rule mc_same_ledger [OF conf_ok_addrs2 s(1)]) (auto simp: s nodes_2 simp del: One_nat_def)
  then show ?thesis using s by (intro exI [of _ s]) auto
qed

theorem mc_refines_spec_witness: "\<exists>s a. sreach addrs2 s \<and> length (lst s 1) = 2 \<and> areach 2 a \<and> rel 2 s a"
proof -
  obtain s d e where s: "sreach addrs2 s" "lst s 1 = [d, e]" by (rule run_two_state) blast
  show ?thesis using mc_refines_spec [OF conf_ok_addrs2 s(1)] s by (intro exI [of _ s]) simp
qed

subsection \<open>A group of one node\<close>

text \<open>
  The sender compares the number of replies with the number of nodes only when a reply is not the first one; alone in its
  group it gets no second one. The message stays in the queue although nothing is left to be done.
\<close>

definition addrs1 :: "SockAddr list" where
  "addrs1 = [\<lparr>nodeId = ''a'', host = ''h1'', ip = ''10.0.0.1'', sport = ''9000''\<rparr>]"

definition run_one :: "act list" where
  "run_one = [Submit 1 ''x'' ''DEPOSIT a 1'', Transmit 1 1 0, Receive 1 1, Round 1 1, Flush 1 1, Receive 1 1, Round 1 1]"

lemma run_one_result:
  "map_option (\<lambda>s. (map Id_m (lst s 1), map Id_m (pq_mc (mc s 1)), cast_of s ''x'' \<noteq> None,
     obox s 1 = [] \<and> concat (casts s 1) = [] \<and> conn s 1 1 = [] \<and> hand s 1 1 = None)) (run_acts 1 run_one (sys_init addrs1)) =
   Some ([], [''x''], True, True)"
  by code_simp

lemma one_node_never_delivers:
  "\<exists>s m. sreach addrs1 s \<and> quiet (length addrs1) s \<and> cast_of s ''x'' = Some m \<and> lst s 1 = []"
proof -
  have len: "length addrs1 = 1" "length addrs1 < 2 ^ 63" by (simp_all add: addrs1_def)
  have start: "finite (dom (cast_of (sys_init addrs1)))" "card (dom (cast_of (sys_init addrs1))) + length run_one \<le> 2 ^ 53"
    by (simp_all add: sys_init_def run_one_def)
  obtain s where s: "run_acts 1 run_one (sys_init addrs1) = Some s" "lst s 1 = []" "cast_of s ''x'' \<noteq> None"
    "obox s 1 = [] \<and> concat (casts s 1) = [] \<and> conn s 1 1 = [] \<and> hand s 1 1 = None"
    using run_one_result by auto
  have "sreach addrs1 s" using run_acts_reach [OF _ sreach.start len(2) start] s(1) len(1) by metis
  moreover have "nodes 1 = {1}" by (auto simp: nodes_def)
  then have "quiet 1 s" using s(4) by (simp add: quiet_def)
  ultimately show ?thesis using s(2,3) len(1) by auto
qed

subsection \<open>Ties\<close>

text \<open>
  C39: The order is not total for two messages of one sender that are agreed with the same
  priority. The group reaches a state with nothing under way in which one node has delivered
  them in one order and the other node in the other order.
\<close>

theorem mc_tie_breaks_order:
  "\<exists>s. sreach addrs2 s \<and> quiet (length addrs2) s \<and> map Id_m (lst s 1) = [''y'', ''x''] \<and> map Id_m (lst s 2) = [''x'', ''y'']"
proof -
  obtain s where s: "run_acts 2 run_tie (sys_init addrs2) = Some s" "idle s"
    "summary s = ([(''y'', 2, 1), (''x'', 2, 1)], [(''x'', 2, 1), (''y'', 2, 1)])"
    using run_tie_result by auto
  have "sreach addrs2 s" by (rule run_reach [OF s(1)]) (simp add: run_tie_def)
  then show ?thesis using idle_quiet [OF s(2)] s(3) by (intro exI [of _ s]) (auto simp: summary_def)
qed

end
