(* ===== verification/Multicast_Faults.thy ===== *)
theory Multicast_Faults
  imports Multicast_Runs
begin

section \<open>Multicast: one node whatever happens around it\<close>

text \<open>
  The group of \<open>Multicast_System\<close> loses no node. Here one node of any configuration runs the rounds of \<^verbatim>\<open>ISIS\<close> on
  messages it knows nothing about: any message, from any node, in any order, repeated or lost, with any connection
  found broken at any time. What is left of the guarantees is proved for all of these runs: what the node hands to its
  application, it hands over once, and as it first heard of it. What is lost is shown by a run.
\<close>

subsection \<open>The node and its surroundings\<close>

text \<open>\<open>handed\<close> is what the application has been given, \<open>heard\<close> the message with which an identifier first arrived.\<close>

record faulty =
  at_node :: Multicast
  handed :: "Message list"
  heard :: "string \<rightharpoonup> Message"

definition hear :: "Multicast \<Rightarrow> Message \<Rightarrow> (string \<rightharpoonup> Message) \<Rightarrow> string \<rightharpoonup> Message" where
  "hear c m h = (if Status m = ''i'' \<and> messageCheck c (Id_m m) = None then h(Id_m m \<mapsto> m) else h)"

inductive fstep :: "faulty \<Rightarrow> faulty \<Rightarrow> bool" where
  broken: "mc_Deliver loc (at_node s) None = (c, Stopped) \<Longrightarrow> fstep s (s\<lparr>at_node := c\<rparr>)"
| round: "isis encs nks (at_node s) m = Inr (c, out, ds) \<Longrightarrow>
    fstep s \<lparr>at_node = c, handed = handed s @ ds, heard = hear (at_node s) m (heard s)\<rparr>"

inductive freach :: "Node \<Rightarrow> faulty \<Rightarrow> bool" for n where
  start: "freach n \<lparr>at_node = run_mcast n k, handed = [], heard = Map.empty\<rparr>"
| step: "freach n s \<Longrightarrow> fstep s s' \<Longrightarrow> freach n s'"

subsection \<open>What a round does to the contents of the queue\<close>

definition pays :: "MessagePQ \<Rightarrow> (string \<times> int \<times> string \<times> bool \<times> string list \<times> goint) multiset" where
  "pays pq = image_mset pay (pq_msgs pq)"

lemma pays_mset: "pays pq = mset (map pay pq)"
  by (simp add: pays_def pq_msgs_def multiset.map_comp comp_def)

lemma pays_update: "i < length pq \<Longrightarrow> pay x = pay (pq ! i) \<Longrightarrow> pays (pq[i := x]) = pays pq"
proof -
  assume a: "i < length pq" "pay x = pay (pq ! i)"
  have "map pay (pq[i := x]) = map pay pq" by (rule nth_equalityI) (use a in \<open>auto simp: nth_list_update\<close>)
  then show ?thesis unfolding pays_mset by simp
qed

lemma pays_Remove:
  assumes "pq_inv pq" "k < length pq" "pq_Remove pq k = Inr q"
  shows "pays q \<subseteq># pays pq" "pq_inv q"
proof -
  obtain q' where q': "pq_Remove pq k = Inr q'" "pq_inv q'" "pq_msgs pq = add_mset (no_index (pq ! k)) (pq_msgs q')"
    using pq_Remove_inv [OF assms(1,2)] by blast
  then show "pays q \<subseteq># pays pq" "pq_inv q" using assms(3) by (simp_all add: pays_def)
qed

lemma fail_items_pays:
  "pq_inv pq \<Longrightarrow> fail_items encs nFail is pq out = Inr (pq', out') \<Longrightarrow> pays pq' \<subseteq># pays pq"
proof (induction "is" arbitrary: pq out)
  case (Cons i "is")
  show ?case
  proof (cases "i < length pq \<and> Status (pq ! i) = ''p''")
    case p: True
    show ?thesis
    proof (cases "NodeId (pq ! i) = nFail")
      case True
      then obtain q where q: "pq_Remove pq i = Inr q" "fail_items encs nFail is q out = Inr (pq', out')"
        using Cons.prems(2) p by (auto simp: bind_result_Inr_iff)
      note r = pays_Remove [OF Cons.prems(1) _ q(1)]
      show ?thesis using Cons.IH [OF r(2) q(2)] r(1) p by (meson subset_mset.order_trans)
    next
      case False
      let ?q = "pq[i := (pq ! i)\<lparr>Status := ''pf''\<rparr>]"
      have "pq_inv ?q" using pq_set_inv [OF Cons.prems(1)] p by (simp add: msg_key_def)
      then have "pays pq' \<subseteq># pays ?q" using Cons.IH [of ?q] Cons.prems(2) p False by (auto simp: Let_def bind_result_Inr_iff)
      then show ?thesis using pays_update [of i pq] p by simp
    qed
  next
    case False
    then have "fail_items encs nFail is pq out = Inr (pq', out')" using Cons.prems(2) by auto
    then show ?thesis using Cons.IH [OF Cons.prems(1)] by simp
  qed
qed simp

lemma fail_sweep_pays:
  "pq_inv (pq_mc m) \<Longrightarrow> fail_sweep encs nks m out = Inr (m', out') \<Longrightarrow>
   pays (pq_mc m') \<subseteq># pays (pq_mc m) \<and> messageCheck m' = messageCheck m"
proof (induction encs nks m out rule: fail_sweep.induct)
  case (2 encs nFail nks m out)
  show ?case
  proof (cases "nfailCheck m nFail = Some True \<and> map_get 0 (messageNCheck m) nFail = 0")
    case True
    let ?m1 = "m\<lparr>messageNCheck := (messageNCheck m)(nFail \<mapsto> map_get 0 (messageNCheck m) nFail + 1)\<rparr>"
    obtain q o' where q: "fail_items encs nFail [0..<length (pq_mc ?m1)] (pq_mc ?m1) out = Inr (q, o')"
      "fail_sweep encs nks (?m1\<lparr>pq_mc := q\<rparr>) o' = Inr (m', out')"
      using 2(4) True by (auto simp: Let_def bind_result_Inr_iff)
    have i: "pq_inv q" "pays q \<subseteq># pays (pq_mc m)" using fail_items_inv [OF _ q(1)] fail_items_pays [OF _ q(1)] 2(3) by simp_all
    have "pays (pq_mc m') \<subseteq># pays q \<and> messageCheck m' = messageCheck m"
      using 2(1) [OF True refl _ q(2)] i(1) by simp
    then show ?thesis using i(2) by (meson subset_mset.order_trans)
  next
    case False
    then have "fail_sweep encs nks m out = Inr (m', out')" using 2(4) by (simp split: if_splits)
    then show ?thesis using 2(2) [OF False] 2(3) by blast
  qed
qed simp

lemma isis_i_pays:
  assumes "pq_inv (pq_mc m)" "isis_i encs m message out = Inr (m', out')"
  shows "if messageCheck m (Id_m message) = None
     then pays (pq_mc m') = add_mset (pay message) (pays (pq_mc m)) \<and> messageCheck m' = (messageCheck m)(Id_m message \<mapsto> True)
     else m' = m"
proof (cases "messageCheck m (Id_m message) = None")
  case True
  then show ?thesis using assms pq_heap_Push_inv(2) [OF assms(1)] by (auto simp: isis_i_def Let_def bind_result_Inr_iff pays_def)
next
  case False
  then show ?thesis using assms(2) by (auto simp: isis_i_def)
qed

lemma isis_p_pays:
  assumes "pq_inv (pq_mc m)" "isis_p encs nks m message out = Inr (m', out')"
  shows "pays (pq_mc m') \<subseteq># pays (pq_mc m)" "messageCheck m' = messageCheck m"
proof -
  let ?first = "if map_get False (nfailCheck m) (NodeId message) then
          case pq_FindById (pq_mc m) (Id_m message) of
            None \<Rightarrow> Inr m
          | Some k \<Rightarrow> bind_result (pq_Remove (pq_mc m) k) (\<lambda>pq'. Inr (m\<lparr>pq_mc := pq'\<rparr>))
        else Inr m"
  obtain m1 where m1: "?first = Inr m1" "m' = fst (isis_tally encs nks m1 message out)"
    using assms(2) unfolding isis_p_def bind_result_Inr_iff by auto
  have m2: "pq_mc m' = pq_mc m1" "messageCheck m' = messageCheck m1"
    unfolding m1(2) by (auto simp: isis_tally_def Let_def split: option.splits)
  have rm: "pays q \<subseteq># pays (pq_mc m)" if "pq_FindById (pq_mc m) (Id_m message) = Some k" "pq_Remove (pq_mc m) k = Inr q" for k q
    using pays_Remove(1) [OF assms(1) _ that(2)] pq_FindById_Some [OF that(1)] by blast
  show "pays (pq_mc m') \<subseteq># pays (pq_mc m)" "messageCheck m' = messageCheck m"
    using m1(1) rm unfolding m2 by (auto simp: bind_result_Inr_iff split: if_splits option.splits)
qed

lemma isis_a_pays:
  assumes "pq_inv (pq_mc m)" "isis_a m message = Inr (m', ds)"
  shows "pays (pq_mc m) = mset (map pay ds) + pays (pq_mc m')" "messageCheck m' = messageCheck m"
proof -
  obtain k where k: "pq_FindById (pq_mc m) (Id_m message) = Some k" using assms(2) by (auto simp: isis_a_def split: option.splits)
  then have l: "k < length (pq_mc m)" using pq_FindById_Some by blast
  let ?pq = "(pq_mc m)[k := (pq_mc m ! k)\<lparr>IsDeliverable := True\<rparr>]"
  have inv: "pq_inv ?pq" using pq_set_inv [OF assms(1) l] by (simp add: msg_key_def)
  obtain q where q: "pq_Update ?pq k (Priority message) = Inr q" "pq_inv q"
    "pq_msgs q = add_mset (no_index ((?pq ! k)\<lparr>Priority := Priority message\<rparr>)) (pq_msgs ?pq - {#no_index (?pq ! k)#})"
    using pq_Update_inv [OF inv, of k "Priority message"] l by auto
  have "pays ?pq = pays (pq_mc m)" using pays_update [OF l] by simp
  moreover have "pays q = pays ?pq"
  proof -
    have "no_index (?pq ! k) \<in># pq_msgs ?pq" using l in_pq_msgs_nth [of k ?pq] by simp
    then have "pq_msgs ?pq = add_mset (no_index (?pq ! k)) (pq_msgs ?pq - {#no_index (?pq ! k)#})" by simp
    then have "pays ?pq = add_mset (pay (?pq ! k)) (image_mset pay (pq_msgs ?pq - {#no_index (?pq ! k)#}))"
      unfolding pays_def by (metis image_mset_add_mset pay_simps(6))
    then show ?thesis unfolding pays_def q(3) by simp
  qed
  moreover obtain r es where r: "drain q = (r, es)" by fastforce
  moreover have "pays q = mset (map pay es) + pays r"
    using drain_spec(2) [OF q(2) r] by (simp add: pays_def multiset.map_comp comp_def)
  ultimately show "pays (pq_mc m) = mset (map pay ds) + pays (pq_mc m')" "messageCheck m' = messageCheck m"
    using assms(2) k q(1) r by (auto simp: isis_a_def Let_def)
qed

lemma isis_pays:
  assumes inv: "pq_inv (pq_mc m)" and r: "isis encs nks m message = Inr (m', out, ds)"
  shows "if Status message = ''i'' \<and> messageCheck m (Id_m message) = None
    then pays (pq_mc m') + mset (map pay ds) \<subseteq># add_mset (pay message) (pays (pq_mc m)) \<and>
      messageCheck m' = (messageCheck m)(Id_m message \<mapsto> True)
    else pays (pq_mc m') + mset (map pay ds) \<subseteq># pays (pq_mc m) \<and> messageCheck m' = messageCheck m"
proof -
  obtain m1 out1 where s: "fail_sweep encs nks m [] = Inr (m1, out1)" using r by (auto simp: isis_def bind_result_Inr_iff)
  note i1 = fail_sweep_inv [OF inv s] and p1 = fail_sweep_pays [OF inv s]
  consider (i) "Status message = ''i''" | (pf) "Status message = ''pf''" | (p) "Status message = ''p''"
    | (a) "Status message \<notin> {''i'', ''pf'', ''p''}" by auto
  then show ?thesis
  proof cases
    case i
    then obtain o2 where "isis_i encs m1 message out1 = Inr (m', o2)" "ds = []"
      using r s by (auto simp: isis_def bind_result_Inr_iff)
    with isis_i_pays [OF i1] show ?thesis using p1 i by (cases "messageCheck m (Id_m message) = None") fastforce+
  next
    case pf
    then have "m' = fst (isis_pf encs nks m1 message out1)" "ds = []"
      using r s by (auto simp: isis_def bind_result_Inr_iff split: prod.splits)
    moreover have "pq_mc (fst (isis_pf encs nks m1 message out1)) = pq_mc m1"
      "messageCheck (fst (isis_pf encs nks m1 message out1)) = messageCheck m1" by (simp_all add: isis_pf_def Let_def)
    ultimately show ?thesis using p1 pf by simp
  next
    case p
    then obtain o2 where "isis_p encs nks m1 message out1 = Inr (m', o2)" "ds = []"
      using r s by (auto simp: isis_def bind_result_Inr_iff)
    with isis_p_pays [OF i1] have "pays (pq_mc m') \<subseteq># pays (pq_mc m1)" "messageCheck m' = messageCheck m1" by blast+
    then show ?thesis using p1 p \<open>ds = []\<close> by (auto intro: subset_mset.order_trans)
  next
    case a
    then have "isis_a m1 message = Inr (m', ds)" using r s by (auto simp: isis_def bind_result_Inr_iff)
    from isis_a_pays [OF i1 this] show ?thesis using p1 a by (simp add: add.commute)
  qed
qed

subsection \<open>The invariant\<close>

definition once :: "(string \<rightharpoonup> Message) \<Rightarrow> (string \<times> int \<times> string \<times> bool \<times> string list \<times> goint) multiset \<Rightarrow> bool" where
  "once h M \<longleftrightarrow> (\<forall>p \<in># M. \<exists>m. h (fst p) = Some m \<and> pay m = p) \<and> (\<forall>x. count (image_mset fst M) x \<le> 1)"

definition faulty_ok :: "faulty \<Rightarrow> bool" where
  "faulty_ok s \<longleftrightarrow> pq_inv (pq_mc (at_node s)) \<and> dom (messageCheck (at_node s)) = dom (heard s) \<and>
     once (heard s) (pays (pq_mc (at_node s)) + mset (map pay (handed s)))"

lemma once_mono: "once h M \<Longrightarrow> N \<subseteq># M \<Longrightarrow> once h N"
  unfolding once_def by (meson image_mset_subseteq_mono le_trans mset_subset_eqD mset_subset_eq_count)

lemma once_add:
  assumes "once h M" "h (Id_m m) = None"
  shows "once (h(Id_m m \<mapsto> m)) (add_mset (pay m) M)"
proof -
  have id: "fst (pay m) = Id_m m" by (simp add: pay_def)
  have new: "fst p \<noteq> Id_m m" if "p \<in># M" for p using assms that unfolding once_def by fastforce
  have "Id_m m \<notin> fst ` set_mset M" using new by (metis imageE)
  then have "Id_m m \<notin># image_mset fst M" by simp
  then have "count (image_mset fst M) (Id_m m) = 0" by (simp add: count_eq_zero_iff)
  then show ?thesis using assms(1) new unfolding once_def by (auto simp: id)
qed

lemma fstep_ok: "fstep s s' \<Longrightarrow> faulty_ok s \<Longrightarrow> faulty_ok s'"
proof (induction rule: fstep.induct)
  case (broken loc s c)
  then show ?case by (simp add: faulty_ok_def) (metis Multicast.select_convs(6,8) Multicast.surjective Multicast.update_convs(5))
next
  case (round encs nks s m c out ds)
  have inv: "pq_inv (pq_mc (at_node s))" "dom (messageCheck (at_node s)) = dom (heard s)"
    "once (heard s) (pays (pq_mc (at_node s)) + mset (map pay (handed s)))"
    using round(2) by (simp_all add: faulty_ok_def)
  have c: "pq_inv (pq_mc c)" by (rule isis_keeps_queue [OF inv(1) round(1)])
  note p = isis_pays [OF inv(1) round(1)]
  show ?case
  proof (cases "Status m = ''i'' \<and> messageCheck (at_node s) (Id_m m) = None")
    case True
    then have n: "heard s (Id_m m) = None" using inv(2) by (metis domIff)
    have "once ((heard s)(Id_m m \<mapsto> m)) (add_mset (pay m) (pays (pq_mc (at_node s)) + mset (map pay (handed s))))"
      by (rule once_add [OF inv(3) n])
    moreover have "pays (pq_mc c) + mset (map pay (handed s @ ds)) \<subseteq>#
        add_mset (pay m) (pays (pq_mc (at_node s)) + mset (map pay (handed s)))"
      using p True by (simp add: ac_simps)
    ultimately have "once ((heard s)(Id_m m \<mapsto> m)) (pays (pq_mc c) + mset (map pay (handed s @ ds)))"
      using once_mono by blast
    then show ?thesis using c p True inv(2) by (simp add: faulty_ok_def hear_def)
  next
    case False
    then have "pays (pq_mc c) + mset (map pay ds) \<subseteq># pays (pq_mc (at_node s))" using p by (simp only: if_False)
    then have "pays (pq_mc c) + mset (map pay (handed s @ ds)) \<subseteq># pays (pq_mc (at_node s)) + mset (map pay (handed s))"
      by (simp add: ac_simps)
    then have "once (heard s) (pays (pq_mc c) + mset (map pay (handed s @ ds)))" using once_mono inv(3) by blast
    moreover have "hear (at_node s) m (heard s) = heard s" "messageCheck c = messageCheck (at_node s)"
      using False p by (auto simp: hear_def)
    ultimately show ?thesis using c inv(2) by (simp add: faulty_ok_def)
  qed
qed

lemma freach_ok: "freach n s \<Longrightarrow> faulty_ok s"
proof (induction rule: freach.induct)
  case (start k)
  show ?case by (simp add: faulty_ok_def run_mcast_def once_def pays_def)
qed (rule fstep_ok)

subsection \<open>What survives failures, and what does not\<close>

text \<open>
  C13: Delivery at most once, unaltered, under any failures. Whatever messages reach a node, however often, and whichever
  connections break, the node hands no message to its application twice, hands over only messages that first arrived as
  an initial multicast, with the sender, the accounts and the amount they arrived with, and its queue stays a heap.
\<close>

theorem faulty_integrity:
  assumes "freach n s"
  shows "distinct (map Id_m (handed s)) \<and> (\<forall>d \<in> set (handed s). \<exists>m. heard s (Id_m d) = Some m \<and> pay d = pay m) \<and>
    pq_inv (pq_mc (at_node s))"
proof -
  have id: "fst \<circ> pay = Id_m" by (simp add: fun_eq_iff pay_def)
  have ok: "pq_inv (pq_mc (at_node s))" "once (heard s) (pays (pq_mc (at_node s)) + mset (map pay (handed s)))"
    using freach_ok [OF assms] by (simp_all add: faulty_ok_def)
  then have o: "once (heard s) (mset (map pay (handed s)))" using once_mono mset_subset_eq_add_right by blast
  have "count (mset (map Id_m (handed s))) x \<le> 1" for x
    using o by (simp add: once_def multiset.map_comp id)
  then have "distinct (map Id_m (handed s))" by (metis One_nat_def count_mset_0_iff distinct_count_atmost_1 le_0_eq le_Suc_eq)
  moreover have "\<exists>m. heard s (Id_m d) = Some m \<and> pay d = pay m" if "d \<in> set (handed s)" for d
  proof -
    have "pay d \<in># mset (map pay (handed s))" using that by simp
    then obtain m where "heard s (fst (pay d)) = Some m \<and> pay m = pay d" using o unfolding once_def by blast
    then show ?thesis by (intro exI [of _ m]) (simp add: pay_def)
  qed
  ultimately show ?thesis using ok(1) by blast
qed

text \<open>A run of node 1 of a group of three with failures.\<close>

definition node1 :: Node where
  "node1 = \<lparr>nid = node_name 1, port = ''9000'',
     pool = map (\<lambda>i. \<lparr>nodeId = node_name i, host = ''h'', ip = ''10.0.0.1'', sport = ''9000''\<rparr>) [1, 2, 3]\<rparr>"

definition all_nodes :: "string list" where
  "all_nodes = map node_name [1, 2, 3]"

datatype event = Broken string | Message_in Message

fun react :: "event \<Rightarrow> faulty \<Rightarrow> faulty result" where
  "react (Broken k) s = Inr (s\<lparr>at_node := fst (mc_Deliver k (at_node s) None)\<rparr>)"
| "react (Message_in m) s = bind_result (isis all_nodes all_nodes (at_node s) m) (\<lambda>(c, out, ds).
     Inr \<lparr>at_node = c, handed = handed s @ ds, heard = hear (at_node s) m (heard s)\<rparr>)"

fun reacts :: "event list \<Rightarrow> faulty \<Rightarrow> faulty result" where
  "reacts [] s = Inr s"
| "reacts (e # es) s = bind_result (react e s) (reacts es)"

definition fstart :: faulty where
  "fstart = \<lparr>at_node = run_mcast node1 3, handed = [], heard = Map.empty\<rparr>"

lemma react_step: "react e s = Inr s' \<Longrightarrow> fstep s s'"
  by (cases e) (auto simp: bind_result_Inr_iff intro: fstep.broken fstep.round)

lemma reacts_reach: "reacts es s = Inr s' \<Longrightarrow> freach n s \<Longrightarrow> freach n s'"
proof (induction es arbitrary: s)
  case (Cons e es)
  then obtain s1 where "react e s = Inr s1" "reacts es s1 = Inr s'" by (auto simp: bind_result_Inr_iff)
  then show ?case using Cons freach.step react_step by blast
qed simp

lemma fstart_reach: "freach node1 fstart"
  unfolding fstart_def by (rule freach.start)

definition tx_msg :: "string \<Rightarrow> int \<Rightarrow> string \<Rightarrow> int \<Rightarrow> Message" where
  "tx_msg x i st p = \<lparr>Id_m = x, Sender = i, Priority = p, Index = - 1, NodeId = node_name i, RNodeId = node_name i,
     Status = st, IsDeliverable = False, IsDeposit = True, Names = [''a''], Amount = 1\<rparr>"

text \<open>Node 3 dies before the message of node 2 is agreed on; the message arrives three times.\<close>

definition run_faults :: "event list" where
  "run_faults = [Message_in (tx_msg ''x'' 2 ''i'' 0), Message_in (tx_msg ''x'' 2 ''i'' 0), Broken (node_name 3),
     Message_in (tx_msg ''x'' 2 ''a'' 4), Message_in (tx_msg ''x'' 2 ''i'' 0)]"

theorem faulty_integrity_witness:
  "\<exists>s. freach node1 s \<and> map Id_m (handed s) = [''x''] \<and> distinct (map Id_m (handed s)) \<and> pq_inv (pq_mc (at_node s))"
proof -
  have "map_sum id (\<lambda>s. map Id_m (handed s)) (reacts run_faults fstart) = Inr [''x'']" by code_simp
  then obtain s where s: "reacts run_faults fstart = Inr s" "map Id_m (handed s) = [''x'']"
    by (cases "reacts run_faults fstart") auto
  have "freach node1 s" by (rule reacts_reach [OF s(1) fstart_reach])
  then show ?thesis using faulty_integrity [of node1 s] s(2) by (intro exI [of _ s]) simp
qed

subsection \<open>One failure can crash another node\<close>

lemma remove_only:
  assumes "pq_inv [q]"
  shows "pq_Remove [q] 0 = Inr []"
proof -
  obtain r where r: "pq_Remove [q] 0 = Inr r" "pq_inv r" "pq_msgs [q] = add_mset (no_index ([q] ! 0)) (pq_msgs r)"
    using pq_Remove_inv [OF assms, of 0] by auto
  have "size (pq_msgs [q]) = Suc (size (pq_msgs r))" unfolding r(3) by simp
  then show ?thesis using r(1) by simp
qed

lemma fail_sweep_nothing:
  "\<forall>f \<in> set nks. nfailCheck c f \<noteq> Some True \<or> map_get 0 (messageNCheck c) f \<noteq> 0 \<Longrightarrow> fail_sweep encs nks c out = Inr (c, out)"
  by (induction nks) auto

text \<open>The sweep over one failed node that has sent the only message in the queue.\<close>

lemma fail_sweep_only:
  assumes "pq_mc c = [q]" "pq_inv [q]" "Status q = ''p''" "NodeId q = k" "map_get 0 (messageNCheck c) k = 0"
    and "nfailCheck c k = Some True" "\<forall>f \<in> set nks. f \<noteq> k \<longrightarrow> nfailCheck c f \<noteq> Some True" "k \<in> set nks"
  shows "fail_sweep encs nks c out = Inr (c\<lparr>messageNCheck := (messageNCheck c)(k \<mapsto> 1), pq_mc := []\<rparr>, out)"
  using assms(7,8)
proof (induction nks)
  case (Cons f fs)
  let ?c = "c\<lparr>messageNCheck := (messageNCheck c)(k \<mapsto> 1), pq_mc := []\<rparr>"
  show ?case
  proof (cases "f = k")
    case True
    have "fail_sweep encs fs ?c out = Inr (?c, out)" by (rule fail_sweep_nothing) (use Cons.prems(1) in auto)
    moreover have "fail_items encs k [0..<1] [q] out = Inr ([], out)" using assms(3,4) remove_only [OF assms(2)] by simp
    ultimately show ?thesis using True assms(1,5,6) by (simp add: Let_def fun_upd_def)
  next
    case False
    then show ?thesis using Cons by simp
  qed
qed simp

lemma isis_a_only:
  assumes "pq_mc c = [q]" "pq_inv [q]" "Id_m m = Id_m q"
  obtains c' d where "isis_a c m = Inr (c', [d])" "Id_m d = Id_m m"
proof -
  let ?pq = "[q\<lparr>IsDeliverable := True\<rparr>]"
  have inv: "pq_inv ?pq" using pq_set_inv [OF assms(2), of 0 "q\<lparr>IsDeliverable := True\<rparr>"] by (simp add: msg_key_def)
  obtain r where r: "pq_Update ?pq 0 (Priority m) = Inr r" "pq_inv r"
    "pq_msgs r = {#no_index (q\<lparr>IsDeliverable := True, Priority := Priority m\<rparr>)#}"
    using pq_Update_inv [OF inv, of 0 "Priority m"] by (auto simp: pq_msgs_def)
  have "size (pq_msgs r) = 1" unfolding r(3) by simp
  then obtain x where x: "r = [x]" by (auto simp: length_Suc_conv)
  then have "no_index x = no_index (q\<lparr>IsDeliverable := True, Priority := Priority m\<rparr>)" using r(3) by (simp add: pq_msgs_def)
  then have "IsDeliverable x" by (metis Message.select_convs(8) Message.surjective Message.update_convs(3,8) no_index_simps(7))
  moreover obtain p d where p: "pq_heap_Pop [x] = (p, d)" by fastforce
  moreover have "p = []" using length_pq_heap_Pop [of "[x]"] p by simp
  ultimately have "drain r = ([], [d])" unfolding x by (simp add: drain.simps [of "[x]"] drain.simps [of "[]"])
  then have a: "isis_a c m = Inr (c\<lparr>pq_mc := []\<rparr>, [d])" using assms(1,3) r(1) by (simp add: isis_a_def)
  have "mset (map pay [d]) = pays [q]" using isis_a_pays(1) [OF _ a] assms(1,2) by (simp add: pays_def pq_msgs_def)
  then have "pay d = pay q" by (simp add: pays_mset)
  then have "Id_m d = Id_m q" by (simp add: pay_def)
  then show thesis using that [OF a] assms(3) by simp
qed

text \<open>
  C38: The failure of one node can crash another. Take a reachable node, to which no connection is broken, whose queue holds
  just one message \<open>q\<close>, proposed to its sender and not agreed on yet, and an agreement \<open>m\<close> on it, already taken from
  the channel. If the round begins now, it delivers the message. If the connection to the sender of \<open>q\<close> is found
  broken first, the sweep of the round removes the message from the queue, \<^verbatim>\<open>FindById\<close> returns nil, and the assignment to
  its \<^verbatim>\<open>IsDeliverable\<close> is a nil dereference: the process dies with the node it depends on.
\<close>

theorem one_failure_crashes_another:
  assumes "freach n s" "pq_mc (at_node s) = [q]" "Status q = ''p''" "k = NodeId q"
    and "Status m = ''a''" "Id_m m = Id_m q"
    and "k \<in> set nks" "\<forall>f \<in> set nks. nfailCheck (at_node s) f \<noteq> Some True" "map_get 0 (messageNCheck (at_node s)) k = 0"
  shows "(\<exists>c d. isis encs nks (at_node s) m = Inr (c, [], [d]) \<and> Id_m d = Id_m q) \<and>
    fstep s (s\<lparr>at_node := fst (mc_Deliver k (at_node s) None)\<rparr>) \<and>
    isis encs nks (fst (mc_Deliver k (at_node s) None)) m = Inl NilDereference"
proof -
  have inv: "pq_inv [q]" using freach_ok [OF assms(1)] assms(2) by (simp add: faulty_ok_def)
  obtain c d where "isis_a (at_node s) m = Inr (c, [d])" "Id_m d = Id_m m" using isis_a_only [OF assms(2) inv assms(6)] by blast
  then have "\<exists>c d. isis encs nks (at_node s) m = Inr (c, [], [d]) \<and> Id_m d = Id_m q"
    using assms(5,6) fail_sweep_nothing [of nks "at_node s" encs "[]"] assms(8) by (simp add: isis_def)
  moreover let ?c = "fst (mc_Deliver k (at_node s) None)"
  have "fail_sweep encs nks ?c [] = Inr (?c\<lparr>messageNCheck := (messageNCheck ?c)(k \<mapsto> 1), pq_mc := []\<rparr>, [])"
    by (rule fail_sweep_only [OF _ inv assms(3) assms(4) [symmetric] _ _ _ assms(7)]) (use assms(2,8,9) in simp_all)
  then have "isis encs nks (fst (mc_Deliver k (at_node s) None)) m = Inl NilDereference"
    using assms(5) by (simp add: isis_def isis_a_def)
  moreover have "fstep s (s\<lparr>at_node := fst (mc_Deliver k (at_node s) None)\<rparr>)" by (rule fstep.broken [of k]) simp
  ultimately show ?thesis by blast
qed

text \<open>Node 1 of a group of three holds a message of node 3.\<close>

theorem one_failure_crashes_another_witness:
  "\<exists>s. freach node1 s \<and> is_ok (isis all_nodes all_nodes (at_node s) (tx_msg ''x'' 3 ''a'' 1)) \<and>
     isis all_nodes all_nodes (fst (mc_Deliver (node_name 3) (at_node s) None)) (tx_msg ''x'' 3 ''a'' 1) = Inl NilDereference"
proof -
  let ?es = "[Message_in (tx_msg ''x'' 3 ''i'' 0)]"
  have "map_sum id (\<lambda>s. (map (\<lambda>q. (Status q, NodeId q, Id_m q)) (pq_mc (at_node s)),
      map_get 0 (messageNCheck (at_node s)) (node_name 3), map (nfailCheck (at_node s)) all_nodes)) (reacts ?es fstart) =
      Inr ([(''p'', node_name 3, ''x'')], 0, [Some False, Some False, Some False])" by code_simp
  then obtain s where s: "reacts ?es fstart = Inr s" "map_get 0 (messageNCheck (at_node s)) (node_name 3) = 0"
    "map (\<lambda>q. (Status q, NodeId q, Id_m q)) (pq_mc (at_node s)) = [(''p'', node_name 3, ''x'')]"
    "map (nfailCheck (at_node s)) all_nodes = [Some False, Some False, Some False]"
    by (cases "reacts ?es fstart") auto
  obtain q where q: "pq_mc (at_node s) = [q]" "Status q = ''p''" "node_name 3 = NodeId q" "Id_m q = ''x''"
    using s(3) by (auto simp: map_eq_Cons_conv)
  have "nfailCheck (at_node s) f \<noteq> Some True" if "f \<in> set all_nodes" for f
    using s(4) that by (auto simp: all_nodes_def)
  moreover have r: "freach node1 s" by (rule reacts_reach [OF s(1) fstart_reach])
  ultimately have "(\<exists>c d. isis all_nodes all_nodes (at_node s) (tx_msg ''x'' 3 ''a'' 1) = Inr (c, [], [d]) \<and> Id_m d = Id_m q) \<and>
    fstep s (s\<lparr>at_node := fst (mc_Deliver (node_name 3) (at_node s) None)\<rparr>) \<and>
    isis all_nodes all_nodes (fst (mc_Deliver (node_name 3) (at_node s) None)) (tx_msg ''x'' 3 ''a'' 1) = Inl NilDereference"
    by (intro one_failure_crashes_another [OF r q(1-3)]) (simp_all add: tx_msg_def q(4) s(2), simp add: all_nodes_def)
  then show ?thesis using r by (auto simp: is_ok_def)
qed

end
