(* ===== verification/Multicast_Start.thy ===== *)
theory Multicast_Start
  imports Multicast_Runs
begin

section \<open>Multicast: a node from its command line to the running group\<close>

text \<open>
  \<^verbatim>\<open>main.go\<close> and the rest of \<^verbatim>\<open>Node.Run\<close>: the command line, the listener, the goroutines that dial the other nodes
  and the wait for them, the loop that registers the connections, the accept loop, and the loop that reads transactions
  from the console. A connection stands for its address. Which goroutine tries next and whether the other node
  listens by then (\<open>tries\<close>), the order in which \<^verbatim>\<open>conns.Range\<close> visits the connections (\<open>ks\<close>) and whether
  \<^verbatim>\<open>net.Listen\<close> succeeds are arguments; \<open>None\<close> means that a goroutine still dials and \<^verbatim>\<open>Run\<close> waits. The
  theorems connect the start of the nodes with the initial state of the group in \<open>Multicast_System\<close>.
\<close>

subsection \<open>Dialling\<close>

record starting =
  dialing :: "SockAddr list"
  conns :: "string \<rightharpoonup> SockAddr"

definition dial_try :: "starting \<Rightarrow> nat \<times> bool \<Rightarrow> starting" where
  "dial_try st = (\<lambda>(k, up).
     if k < length (dialing st) \<and> up then
       \<lparr>dialing = take k (dialing st) @ drop (Suc k) (dialing st),
        conns = (conns st)(nodeId (dialing st ! k) \<mapsto> dialing st ! k)\<rparr>
     else st)"

definition dial_pool :: "Node \<Rightarrow> (nat \<times> bool) list \<Rightarrow> starting" where
  "dial_pool n tries = foldl dial_try \<lparr>dialing = pool n, conns = Map.empty\<rparr> tries"

subsection \<open>The state of the protocol\<close>

definition new_mcast :: "string \<Rightarrow> int \<Rightarrow> Multicast" where
  "new_mcast myname numOfNodes =
     \<lparr>A_mc = 0, P_mc = 0, curNodeId = myname, aliveNodes = numOfNodes, nfailCheck = Map.empty, messageCheck = Map.empty,
      messageNCheck = Map.empty, pq_mc = [], proposed = Map.empty, repliers = Map.empty\<rparr>"

fun register :: "string list \<Rightarrow> Multicast \<Rightarrow> string list \<Rightarrow> Multicast \<times> string list" where
  "register [] m encs = (m, encs)"
| "register (k # ks) m encs =
     register ks (m\<lparr>nfailCheck := (nfailCheck m)(k \<mapsto> False), messageNCheck := (messageNCheck m)(k \<mapsto> 0)\<rparr>) (encs @ [k])"

definition node_Run ::
  "(string \<Rightarrow> string option) \<Rightarrow> (string \<Rightarrow> bool) \<Rightarrow> string \<Rightarrow> string \<Rightarrow> (nat \<times> bool) list \<Rightarrow> string list \<Rightarrow>
   (Node \<times> Multicast \<times> string list) result option" where
  "node_Run resolve listens myid text tries ks =
     (case readConf resolve \<lparr>nid = myid, port = [], pool = []\<rparr> text of
        Inl e \<Rightarrow> Some (Inl e)
      | Inr (n0, numOfNodes) \<Rightarrow>
          let n = run_names myid n0
          in if \<not> listens (port n) then Some (Inl (PanicErr []))
             else
               let st = dial_pool n tries
               in if dialing st \<noteq> [] then None
                  else
                    let (m, encs) = register ks (new_mcast (nid n) numOfNodes) []
                    in if conns st (nid n) = None then Some (Inl (PanicErr ''interface conversion: interface is nil, not net.Conn''))
                       else Some (Inr (n, m, encs)))"

definition multi_main ::
  "(string \<Rightarrow> string option) \<Rightarrow> (string \<Rightarrow> bool) \<Rightarrow> (string \<Rightarrow> string option) \<Rightarrow> string list \<Rightarrow> (nat \<times> bool) list \<Rightarrow> string list \<Rightarrow>
   (Node \<times> Multicast \<times> string list) result option" where
  "multi_main resolve listens files args tries ks =
     (case args of
        [nodeArg, fp] \<Rightarrow>
          (case files fp of
             None \<Rightarrow> Some (Inl (PanicErr []))
           | Some text \<Rightarrow> node_Run resolve listens nodeArg text tries ks)
      | _ \<Rightarrow> Some (Inl (PanicErr ''usage: ./main [identifier] [configuration file]'')))"

text \<open>Whose connection the accept loop takes one from \<open>remote\<close> to be.\<close>

definition accept_conn :: "Node \<Rightarrow> string \<Rightarrow> string result" where
  "accept_conn n remote =
     bind_result (slice_get (split_on CHR '':'' remote) 0) (\<lambda>ip_addr. Inr (peer_of_ip (pool n) ip_addr []))"

subsection \<open>The console\<close>

text \<open>The casts the loop starts, and the panic it ends with; \<open>uuid k\<close> is the \<open>k\<close>-th identifier drawn.\<close>

function console :: "string \<Rightarrow> (nat \<Rightarrow> string) \<Rightarrow> nat \<Rightarrow> string \<Rightarrow> Message list \<times> go_error" where
  "console myname uuid k input =
     (case read_string input of (tx, rest, eof) \<Rightarrow>
        if eof then ([], PanicErr [])
        else case parse_tx myname (uuid k) tx of
               Inl e \<Rightarrow> ([], e)
             | Inr m \<Rightarrow> (let (ms, e) = console myname uuid (Suc k) rest in (m # ms, e)))"
  by pat_completeness auto
termination
  by (relation "measure (\<lambda>(_, _, _, input). length input)") (auto dest: sym [THEN read_string_shorter])

declare console.simps [simp del]

subsection \<open>Dialling ends with every node of the pool\<close>

lemma dial_try_names:
  "nodeId ` set (dialing (dial_try st t)) \<union> dom (conns (dial_try st t)) = nodeId ` set (dialing st) \<union> dom (conns st)"
proof (cases t)
  case (Pair k up)
  show ?thesis
  proof (cases "k < length (dialing st) \<and> up")
    case True
    then have "set (dialing st) = insert (dialing st ! k) (set (take k (dialing st) @ drop (Suc k) (dialing st)))"
      by (metis id_take_nth_drop list.simps(15) set_append Un_insert_right)
    then show ?thesis using True by (auto simp: dial_try_def Pair)
  qed (auto simp: dial_try_def Pair)
qed

lemma dial_pool_names: "nodeId ` set (dialing (dial_pool n tries)) \<union> dom (conns (dial_pool n tries)) = nodeId ` set (pool n)"
proof -
  have "nodeId ` set (dialing (foldl dial_try st tries)) \<union> dom (conns (foldl dial_try st tries)) =
      nodeId ` set (dialing st) \<union> dom (conns st)" for st
    by (induction tries arbitrary: st) (simp_all add: dial_try_names)
  from this [of "\<lparr>dialing = pool n, conns = Map.empty\<rparr>"] show ?thesis by (simp add: dial_pool_def)
qed

lemma register_spec:
  "register ks m encs =
     (m\<lparr>nfailCheck := (\<lambda>k. if k \<in> set ks then Some False else nfailCheck m k),
        messageNCheck := (\<lambda>k. if k \<in> set ks then Some 0 else messageNCheck m k)\<rparr>, encs @ ks)"
proof (induction ks arbitrary: m encs)
  case (Cons k ks)
  show ?case by (simp add: Cons) (auto intro!: arg_cong2 [where f = "\<lambda>f g. m\<lparr>nfailCheck := f, messageNCheck := g\<rparr>"])
qed simp

lemma register_run_mcast:
  "set ks = nodeId ` set (pool n) \<Longrightarrow> register ks (new_mcast (nid n) k) [] = (run_mcast n k, ks)"
  by (simp add: register_spec new_mcast_def run_mcast_def) (auto simp: fun_eq_iff)

subsection \<open>The configuration file is read back\<close>

definition addr_line :: "SockAddr \<Rightarrow> string" where
  "addr_line a = nodeId a @ '' '' @ host a @ '' '' @ sport a"

definition addr_field :: "string \<Rightarrow> bool" where
  "addr_field s \<longleftrightarrow> CHR '' '' \<notin> set s \<and> CHR 0x0A \<notin> set s"

definition addr_ok :: "(string \<Rightarrow> string option) \<Rightarrow> SockAddr \<Rightarrow> bool" where
  "addr_ok resolve a \<longleftrightarrow> addr_field (nodeId a) \<and> addr_field (host a) \<and> addr_field (sport a) \<and> resolve (host a) = Some (ip a)"

definition conf_file :: "SockAddr list \<Rightarrow> string" where
  "conf_file addrs = itoa_int (int (length addrs)) @ nl @ concat (map (\<lambda>a. addr_line a @ nl) addrs)"

fun own_port :: "string \<Rightarrow> string \<Rightarrow> SockAddr list \<Rightarrow> string" where
  "own_port me p [] = p"
| "own_port me p (a # as) = own_port me (if nodeId a = me then sport a else p) as"

lemma conf_line_addr:
  assumes "addr_ok resolve a"
  shows "conf_line resolve n (addr_line a @ nl) =
    Inr (n\<lparr>port := if nodeId a = nid n then sport a else port n, pool := pool n @ [a]\<rparr>)"
proof -
  have s: "split_on CHR '' '' (addr_line a) = [nodeId a, host a, sport a]"
    using split_join [of "[nodeId a, host a, sport a]" "CHR '' ''"] assms by (simp add: addr_line_def addr_ok_def addr_field_def)
  have a: "\<lparr>nodeId = nodeId a, host = host a, ip = ip a, sport = sport a\<rparr> = a" by simp
  show ?thesis unfolding conf_line_def nl_def trim_suffix_append Let_def s
    using assms by (simp add: slice_get_def addr_ok_def ExitFromErr_def a)
qed

lemma conf_lines_addrs:
  "list_all (addr_ok resolve) as \<Longrightarrow> conf_lines resolve (length as) n (concat (map (\<lambda>a. addr_line a @ nl) as)) =
    Inr (n\<lparr>port := own_port (nid n) (port n) as, pool := pool n @ as\<rparr>)"
proof (induction as arbitrary: n)
  case (Cons a as)
  have "CHR 0x0A \<notin> set (addr_line a)" using Cons.prems by (simp add: addr_line_def addr_ok_def addr_field_def)
  then have r: "read_string (concat (map (\<lambda>a. addr_line a @ nl) (a # as))) =
      (addr_line a @ nl, concat (map (\<lambda>a. addr_line a @ nl) as), False)"
    using read_string_line by (simp add: nl_def)
  have "conf_lines resolve (length (a # as)) n (concat (map (\<lambda>a. addr_line a @ nl) (a # as))) =
      bind_result (conf_line resolve n (addr_line a @ nl)) (\<lambda>n'. conf_lines resolve (length as) n' (concat (map (\<lambda>a. addr_line a @ nl) as)))"
    by (simp only: length_Cons conf_lines.simps r prod.case)
  then show ?case using Cons conf_line_addr [of resolve a n] by simp
qed simp

lemma readConf_file:
  assumes "list_all (addr_ok resolve) addrs" "length addrs < 2 ^ 63"
  shows "readConf resolve n (conf_file addrs) =
    Inr (n\<lparr>port := own_port (nid n) (port n) addrs, pool := pool n @ addrs\<rparr>, int (length addrs))"
proof -
  have d: "CHR 0x0A \<notin> set (itoa_int (int (length addrs)))" using itoa_int_chars [of "CHR 0x0A"] by (auto simp: is_digit_def)
  have r: "read_string (conf_file addrs) = (itoa_int (int (length addrs)) @ nl, concat (map (\<lambda>a. addr_line a @ nl) addrs), False)"
    using read_string_line [OF d] by (simp add: conf_file_def nl_def)
  have "atoi_int (itoa_int (int (length addrs))) = Some (int (length addrs))"
    using assms(2) by (intro atoi_itoa_int) (simp add: int64_range_def)
  then show ?thesis
    unfolding readConf_def r prod.case if_False nl_def trim_suffix_append
    using conf_lines_addrs [OF assms(1), of n] by (simp add: ExitFromErr_def nl_def del: trim_suffix_char)
qed

subsection \<open>The nodes form the group\<close>

lemma run_mcast_names: "nid n = nid n' \<Longrightarrow> pool n = pool n' \<Longrightarrow> run_mcast n k = run_mcast n' k"
  by (simp add: run_mcast_def)

lemma started:
  assumes "list_all (addr_ok resolve) addrs" "length addrs < 2 ^ 63" "\<And>p. listens p"
    and "n = run_names myid \<lparr>nid = myid, port = own_port myid [] addrs, pool = addrs\<rparr>"
    and "dialing (dial_pool n tries) = []"
  shows "node_Run resolve listens myid (conf_file addrs) tries ks =
    Some (if nid n \<in> nodeId ` set (pool n) then Inr (n, register ks (new_mcast (nid n) (int (length addrs))) [])
      else Inl (PanicErr ''interface conversion: interface is nil, not net.Conn''))"
proof -
  have d: "dom (conns (dial_pool n tries)) = nodeId ` set (pool n)" using dial_pool_names [of n tries] assms(5) by simp
  have "conns (dial_pool n tries) (nid n) = None \<longleftrightarrow> nid n \<notin> nodeId ` set (pool n)" using d by (metis domIff)
  then show ?thesis
    using assms(3-5) by (simp add: node_Run_def case_prod_beta readConf_file [OF assms(1,2)] Let_def)
qed

text \<open>
  C22: The nodes that are started form the group that is studied. When all of a group start with the same configuration file, each with
  its own identifier, then a node whose dialling has ended, whatever order and failures it had, is connected to exactly
  the nodes of the group and begins with the state it has at the start of \<open>sreach\<close>.
\<close>

theorem node_starts_in_group:
  assumes "conf_ok addrs" "list_all (addr_ok resolve) addrs" "i \<in> nodes (length addrs)" "\<And>p. listens p"
    and "node_Run resolve listens (nodeId (addrs ! (i - 1))) (conf_file addrs) tries ks \<noteq> None"
    and "visits (length addrs) ks"
  shows "\<exists>n. node_Run resolve listens (nodeId (addrs ! (i - 1))) (conf_file addrs) tries ks =
    Some (Inr (n, mc (sys_init addrs) i, ks)) \<and> nid n = name_of i \<and> dom (conns (dial_pool n tries)) = set ks"
proof -
  let ?me = "nodeId (addrs ! (i - 1))"
  define n where "n = run_names ?me \<lparr>nid = ?me, port = own_port ?me [] addrs, pool = addrs\<rparr>"
  have len: "length addrs < 2 ^ 63" using assms(1) by (simp add: conf_ok_def group_ok_def)
  have d: "dialing (dial_pool n tries) = []"
    using assms(4,5) by (auto simp: node_Run_def readConf_file [OF assms(2) len] Let_def n_def split: if_splits)
  have names: "nodeId ` set (pool n) = set (node_names (length addrs))"
    using run_names_pool [of ?me ?me "own_port ?me [] addrs" addrs] by (simp add: n_def)
  have "snd (rename_pool ?me 0 0 addrs) = int i"
    using assms(1,3) rename_pool_index [of addrs "i - 1" 0 0] by (auto simp: conf_ok_def nodes_def)
  then have me: "nid n = name_of i" by (simp add: n_def run_names_def case_prod_beta)
  have v: "dom (conns (dial_pool n tries)) = set ks"
    using assms(6) dial_pool_names [of n tries] d names by (simp add: visits_def)
  have reg: "register ks (new_mcast (nid n) (int (length addrs))) [] = (run_mcast n (int (length addrs)), ks)"
    using assms(6) names by (intro register_run_mcast) (simp add: visits_def)
  have "mc (sys_init addrs) i = run_mcast n (int (length addrs))"
    by (simp add: sys_init_def Let_def n_def) (auto intro!: run_mcast_names simp: run_names_def case_prod_beta)
  moreover have "node_Run resolve listens ?me (conf_file addrs) tries ks = Some (Inr (n, run_mcast n (int (length addrs)), ks))"
    using started [OF assms(2) len assms(4) n_def d, where ks = ks] reg me names name_in_names [OF assms(3)] by simp
  ultimately show ?thesis using me v by (intro exI [of _ n]) simp
qed

text \<open>
  A node whose identifier is not in the configuration file calls itself node0, is not connected to itself, and ends with a
  panic as soon as it is connected to the others.
\<close>

theorem unknown_node_panics:
  assumes "list_all (addr_ok resolve) addrs" "length addrs < 2 ^ 63" "\<And>p. listens p" "myid \<notin> nodeId ` set addrs"
    and "files fp = Some (conf_file addrs)" "multi_main resolve listens files [myid, fp] tries ks = Some r"
  shows "\<exists>e. r = Inl (PanicErr e)"
proof -
  define n where "n = run_names myid \<lparr>nid = myid, port = own_port myid [] addrs, pool = addrs\<rparr>"
  have run: "node_Run resolve listens myid (conf_file addrs) tries ks = Some r" using assms(5,6) by (simp add: multi_main_def)
  have d: "dialing (dial_pool n tries) = []"
    using run assms(3) by (auto simp: node_Run_def readConf_file [OF assms(1,2)] Let_def n_def split: if_splits)
  have nm: "nodeId ` set (pool n) = name_of ` nodes (length addrs)"
    using run_names_pool [of myid myid "own_port myid [] addrs" addrs] by (simp add: n_def set_node_names)
  have me: "nid n = node_name 0"
    using rename_pool_other [OF assms(4), of 0 0] by (simp add: n_def run_names_def case_prod_beta)
  have "node_name 0 \<noteq> name_of i" if "i \<in> nodes (length addrs)" for i
    using that assms(2) by (subst node_name_inject) (auto simp: nodes_def int64_range_def)
  then have "nid n \<notin> nodeId ` set (pool n)" unfolding nm me by auto
  then show ?thesis using started [OF assms(1-3) n_def d, where ks = ks] run by auto
qed

subsection \<open>Who is connected\<close>

lemma accept_conn_addr: "CHR '':'' \<notin> set x \<Longrightarrow> accept_conn n (x @ '':'' @ p) = Inr (peer_of_ip (pool n) x [])"
  using split_on_append [of "CHR '':''" x p] by (simp add: accept_conn_def slice_get_def)

text \<open>
  C25: Whose connection it is. The accept loop takes every connection for that of its node exactly when no two nodes of the
  pool have the same address; with two nodes on one host it takes the connections of one for those of the other, and
  a failure is booked on the wrong node.
\<close>

theorem accept_identifies_peers:
  assumes "distinct (map nodeId (pool n))" "\<And>a. a \<in> set (pool n) \<Longrightarrow> CHR '':'' \<notin> set (ip a)"
  shows "(\<forall>a \<in> set (pool n). accept_conn n (ip a @ '':'' @ p) = Inr (nodeId a)) = distinct (map ip (pool n))"
proof
  assume all: "\<forall>a \<in> set (pool n). accept_conn n (ip a @ '':'' @ p) = Inr (nodeId a)"
  have "inj_on ip (set (pool n))"
  proof (rule inj_onI)
    fix a b assume ab: "a \<in> set (pool n)" "b \<in> set (pool n)" "ip a = ip b"
    then have "nodeId a = nodeId b" using all accept_conn_addr [OF assms(2)] by (metis sum.inject(2))
    then show "a = b" using assms(1) ab(1,2) by (auto simp: distinct_map dest: inj_onD)
  qed
  then show "distinct (map ip (pool n))" using assms(1) by (simp add: distinct_map)
next
  assume d: "distinct (map ip (pool n))"
  show "\<forall>a \<in> set (pool n). accept_conn n (ip a @ '':'' @ p) = Inr (nodeId a)"
  proof
    fix a assume a: "a \<in> set (pool n)"
    then obtain b where b: "b \<in> set (pool n)" "ip b = ip a" "peer_of_ip (pool n) (ip a) [] = nodeId b"
      using peer_of_ip_last [OF a refl, of "[]"] by auto
    then have "b = a" using d a by (auto simp: distinct_map dest: inj_onD)
    then show "accept_conn n (ip a @ '':'' @ p) = Inr (nodeId a)" using b(3) accept_conn_addr [OF assms(2) [OF a]] by simp
  qed
qed

subsection \<open>What the console casts\<close>

text \<open>
  The console. Every complete line that parses is cast, in the order of the input and with an identifier of its own, and
  nothing else is; the end of the input, with or without a last line that is not terminated, ends the node with a panic.
\<close>

theorem console_casts:
  assumes "\<And>l. l \<in> set ls \<Longrightarrow> CHR 0x0A \<notin> set l" "CHR 0x0A \<notin> set unfinished"
    and "\<And>j. j < length ls \<Longrightarrow> is_ok (parse_tx myname (uuid (k + j)) (ls ! j @ nl))"
  shows "\<exists>ms. console myname uuid k (concat (map (\<lambda>l. l @ nl) ls) @ unfinished) = (ms, PanicErr []) \<and>
    length ms = length ls \<and> (\<forall>j < length ls. parse_tx myname (uuid (k + j)) (ls ! j @ nl) = Inr (ms ! j))"
  using assms(1,3)
proof (induction ls arbitrary: k)
  case Nil
  then show ?case using read_string_eof [OF assms(2)] by (simp add: console.simps [of myname uuid k])
next
  case (Cons l ls)
  have l: "CHR 0x0A \<notin> set l" using Cons.prems(1) by simp
  obtain m where m: "parse_tx myname (uuid k) (l @ nl) = Inr m" using Cons.prems(2) [of 0] by (auto simp: is_ok_iff)
  have "is_ok (parse_tx myname (uuid (Suc k + j)) (ls ! j @ nl))" if "j < length ls" for j
    using Cons.prems(2) [of "Suc j"] that by simp
  then obtain ms where ms: "console myname uuid (Suc k) (concat (map (\<lambda>l. l @ nl) ls) @ unfinished) = (ms, PanicErr [])"
    "length ms = length ls" "\<forall>j < length ls. parse_tx myname (uuid (Suc k + j)) (ls ! j @ nl) = Inr (ms ! j)"
    using Cons.IH [of "Suc k"] Cons.prems(1) by auto
  have "read_string (concat (map (\<lambda>l. l @ nl) (l # ls)) @ unfinished) = (l @ nl, concat (map (\<lambda>l. l @ nl) ls) @ unfinished, False)"
    using read_string_line [OF l] by (simp add: nl_def)
  then have "console myname uuid k (concat (map (\<lambda>l. l @ nl) (l # ls)) @ unfinished) = (m # ms, PanicErr [])"
    using m ms(1) by (subst console.simps) (simp only: prod.case if_False sum.case Let_def)
  moreover have "parse_tx myname (uuid (k + j)) ((l # ls) ! j @ nl) = Inr ((m # ms) ! j)" if "j < length (l # ls)" for j
    using that m ms(3) by (cases j) simp_all
  ultimately show ?case using ms(2) by (intro exI [of _ "m # ms"]) simp
qed

subsection \<open>Witnesses\<close>

definition resolve2 :: "string \<Rightarrow> string option" where
  "resolve2 h = (if h = ''h1'' then Some ''10.0.0.1'' else if h = ''h2'' then Some ''10.0.0.2'' else None)"

lemma addrs2_ok: "list_all (addr_ok resolve2) addrs2"
  by (simp add: addrs2_def addr_ok_def addr_field_def resolve2_def)

definition tries2 :: "(nat \<times> bool) list" where
  "tries2 = [(1, False), (1, True), (0, False), (0, True)]"

lemma dial_two:
  assumes "pool n = [a, b]"
  shows "dial_pool n tries2 = \<lparr>dialing = [], conns = [nodeId b \<mapsto> b, nodeId a \<mapsto> a]\<rparr>"
  by (simp add: dial_pool_def tries2_def dial_try_def assms)

lemma pool_two: "\<exists>a b. pool (run_names me \<lparr>nid = me, port = p, pool = addrs2\<rparr>) = [a, b]"
  by (simp add: addrs2_def run_names_def Let_def)

lemma addrs2_text: "CHR '':'' \<notin> set ''10.0.0.1''" "node_name 2 = ''node2''"
  by (simp, code_simp)

lemma run_two_dials: "node_Run resolve2 (\<lambda>_. True) me (conf_file addrs2) tries2 ks \<noteq> None"
proof -
  obtain a b where p: "pool (run_names me \<lparr>nid = me, port = own_port me [] addrs2, pool = addrs2\<rparr>) = [a, b]"
    using pool_two by blast
  show ?thesis
    using readConf_file [OF addrs2_ok, of "\<lparr>nid = me, port = [], pool = []\<rparr>"] dial_two [OF p]
    by (simp add: node_Run_def Let_def split: prod.split)
qed

theorem node_starts_in_group_witness:
  "\<exists>n. node_Run resolve2 (\<lambda>_. True) ''b'' (conf_file addrs2) tries2 (node_names 2) =
     Some (Inr (n, mc (sys_init addrs2) 2, node_names 2)) \<and> nid n = ''node2''"
proof -
  have n2: "nodeId (addrs2 ! (2 - 1)) = ''b''" by (simp add: addrs2_def)
  have v: "visits (length addrs2) (node_names 2)" by (simp, rule visits_node_names) (simp add: group_ok_def)
  have "2 \<in> nodes (length addrs2)" by (simp add: nodes_2)
  from node_starts_in_group [OF conf_ok_addrs2 addrs2_ok this, of "\<lambda>_. True" tries2 "node_names 2", OF TrueI run_two_dials v]
  show ?thesis unfolding n2 by (auto simp: addrs2_text(2))
qed

theorem unknown_node_panics_witness:
  "\<exists>e. multi_main resolve2 (\<lambda>_. True) [''conf'' \<mapsto> conf_file addrs2] [''z'', ''conf''] tries2 [] = Some (Inl (PanicErr e))"
proof -
  obtain r where r: "multi_main resolve2 (\<lambda>_. True) [''conf'' \<mapsto> conf_file addrs2] [''z'', ''conf''] tries2 [] = Some r"
    using run_two_dials [of "''z''" "[]"] by (auto simp: multi_main_def)
  have "length addrs2 < 2 ^ 63" "''z'' \<notin> nodeId ` set addrs2" "[''conf'' \<mapsto> conf_file addrs2] ''conf'' = Some (conf_file addrs2)"
    by (simp, simp add: addrs2_def, simp)
  from unknown_node_panics [OF addrs2_ok this(1) TrueI this(2,3) r] show ?thesis using r by auto
qed

theorem accept_identifies_peers_witness:
  "accept_conn \<lparr>nid = ''a'', port = ''9000'', pool = addrs2\<rparr> ''10.0.0.1:40000'' = Inr ''a'' \<and>
   accept_conn \<lparr>nid = ''a'', port = ''9000'', pool = addrs2\<rparr> ''10.0.0.2:40000'' = Inr ''b''"
proof -
  have d: "distinct (map nodeId addrs2)" by (simp add: addrs2_def)
  have c: "CHR '':'' \<notin> set (ip a)" if "a \<in> set addrs2" for a using that by (auto simp: addrs2_def)
  have "(\<forall>a \<in> set addrs2. accept_conn \<lparr>nid = ''a'', port = ''9000'', pool = addrs2\<rparr> (ip a @ '':'' @ ''40000'') = Inr (nodeId a)) =
      distinct (map ip addrs2)"
    using accept_identifies_peers [of "\<lparr>nid = ''a'', port = ''9000'', pool = addrs2\<rparr>" "''40000''", unfolded Node.select_convs, OF d c] .
  moreover have "distinct (map ip addrs2)" by (simp add: addrs2_def)
  ultimately show ?thesis by (simp add: addrs2_def)
qed

theorem console_casts_witness:
  "\<exists>m. console (node_name 1) (\<lambda>k. itoa_int (int k)) 0 (''DEPOSIT a 5'' @ nl @ ''TRANSF'') = ([m], PanicErr []) \<and> Id_m m = ''0''"
proof -
  have p: "map_sum id Id_m (parse_tx (node_name 1) (itoa_int 0) (''DEPOSIT a 5'' @ nl)) = Inr ''0''" by code_simp
  then have ok: "is_ok (parse_tx (node_name 1) (itoa_int 0) (''DEPOSIT a 5'' @ nl))"
    by (cases "parse_tx (node_name 1) (itoa_int 0) (''DEPOSIT a 5'' @ nl)") auto
  have "\<exists>ms. console (node_name 1) (\<lambda>k. itoa_int (int k)) 0 (concat (map (\<lambda>l. l @ nl) [''DEPOSIT a 5'']) @ ''TRANSF'') = (ms, PanicErr []) \<and>
      length ms = length [''DEPOSIT a 5''] \<and>
      (\<forall>j < length [''DEPOSIT a 5'']. parse_tx (node_name 1) (itoa_int (int (0 + j))) ([''DEPOSIT a 5''] ! j @ nl) = Inr (ms ! j))"
    by (rule console_casts) (use ok in simp_all)
  then obtain m where "console (node_name 1) (\<lambda>k. itoa_int (int k)) 0 (''DEPOSIT a 5'' @ nl @ ''TRANSF'') = ([m], PanicErr [])"
    "parse_tx (node_name 1) (itoa_int 0) (''DEPOSIT a 5'' @ nl) = Inr m"
    by (auto simp: length_Suc_conv)
  then show ?thesis using p by auto
qed

end
