(* ===== verification/Tx_Account.thy ===== *)
theory Tx_Account
  imports Go_Strings
begin

section \<open>Transactions: locks and accounts of a branch\<close>

text \<open>
  \<^verbatim>\<open>transactions-demo/server/account.go\<close>. A branch keeps its committed balances, the changes of
  every running transaction in \<open>cache\<close>, and a read-write lock per account. \<^verbatim>\<open>AcquireRWLock\<close> may
  block in the middle, in \<^verbatim>\<open>RLock\<close> or \<^verbatim>\<open>Lock\<close>: it is split into \<open>acquire_start\<close>, what happens
  before it blocks, and \<open>acquire_finish\<close>, what happens once the mutex is granted. Debug output
  is left out (\<^verbatim>\<open>Debug\<close> is 0). Map iteration orders are arguments.
\<close>

subsection \<open>Go's read-write mutex\<close>

text \<open>
  \<open>None\<close> means that the call blocks, \<^const>\<open>SyncFatal\<close> is the fatal error of unlocking a mutex
  that is not locked. A reader may overtake a waiting writer here, which Go prevents; the model
  allows more schedules than Go.
\<close>

record RWMutex =
  readers :: nat
  writer :: bool

definition rw_new :: RWMutex where
  "rw_new = \<lparr>readers = 0, writer = False\<rparr>"

definition rw_RLock :: "RWMutex \<Rightarrow> RWMutex option" where
  "rw_RLock mu = (if writer mu then None else Some (mu\<lparr>readers := readers mu + 1\<rparr>))"

definition rw_Lock :: "RWMutex \<Rightarrow> RWMutex option" where
  "rw_Lock mu = (if writer mu \<or> 0 < readers mu then None else Some (mu\<lparr>writer := True\<rparr>))"

definition rw_RUnlock :: "RWMutex \<Rightarrow> RWMutex result" where
  "rw_RUnlock mu = (if readers mu = 0 then Inl SyncFatal else Inr (mu\<lparr>readers := readers mu - 1\<rparr>))"

definition rw_Unlock :: "RWMutex \<Rightarrow> RWMutex result" where
  "rw_Unlock mu = (if writer mu then Inr (mu\<lparr>writer := False\<rparr>) else Inl SyncFatal)"

subsection \<open>What the lock table relies on\<close>

text \<open>
  The contract of a read-write mutex, and the invariant between a mutex and the transactions
  that are registered with it: \<open>True\<close> for a reader, \<open>False\<close> for the writer. A reader may hold the
  mutex more than once.
\<close>

locale rw_mutex =
  fixes rlock lock :: "'m \<Rightarrow> 'm option" and runlock unlock :: "'m \<Rightarrow> 'm result"
    and shared :: "'m \<Rightarrow> nat" and exclusive :: "'m \<Rightarrow> bool" and fresh :: 'm
  assumes fresh: "shared fresh = 0" "\<not> exclusive fresh"
    and rlock: "rlock m = Some m' \<Longrightarrow> \<not> exclusive m \<and> \<not> exclusive m' \<and> shared m' = Suc (shared m)"
    and rlock_blocks: "rlock m = None \<longleftrightarrow> exclusive m"
    and lock: "lock m = Some m' \<Longrightarrow> \<not> exclusive m \<and> shared m = 0 \<and> exclusive m' \<and> shared m' = 0"
    and lock_blocks: "lock m = None \<longleftrightarrow> exclusive m \<or> 0 < shared m"
    and runlock: "0 < shared m \<Longrightarrow> \<exists>m'. runlock m = Inr m' \<and> shared m' = shared m - 1 \<and> exclusive m' = exclusive m"
    and unlock: "exclusive m \<Longrightarrow> \<exists>m'. unlock m = Inr m' \<and> shared m' = shared m \<and> \<not> exclusive m'"
begin

definition table_ok :: "'m \<Rightarrow> ('t \<rightharpoonup> bool) \<Rightarrow> bool" where
  "table_ok m ts \<longleftrightarrow> finite (dom ts) \<and> (exclusive m \<longleftrightarrow> (\<exists>t. ts t = Some False)) \<and>
     (\<forall>t. ts t = Some False \<longrightarrow> dom ts = {t}) \<and> card {t. ts t = Some True} \<le> shared m \<and>
     (exclusive m \<longrightarrow> shared m = 0)"

lemma table_ok_fresh: "table_ok fresh Map.empty"
  using fresh by (simp add: table_ok_def)

lemma finite_readers: "table_ok m ts \<Longrightarrow> finite {t. ts t = Some True}"
  by (rule finite_subset [of _ "dom ts"]) (auto simp: table_ok_def)

lemma exclusion: "table_ok m ts \<Longrightarrow> ts t = Some False \<Longrightarrow> ts u \<noteq> None \<Longrightarrow> u = t"
  by (auto simp: table_ok_def)

lemma table_ok_rlock:
  assumes "table_ok m ts" "rlock m = Some m'" "ts t \<noteq> Some False"
  shows "table_ok m' (ts(t \<mapsto> True))"
proof -
  note r = rlock [OF assms(2)]
  have none: "ts u \<noteq> Some False" for u using assms(1) r by (auto simp: table_ok_def)
  have "{u. (ts(t \<mapsto> True)) u = Some True} = insert t {u. ts u = Some True}" by auto
  then have "card {u. (ts(t \<mapsto> True)) u = Some True} \<le> Suc (card {u. ts u = Some True})"
    by (simp add: card_insert_le_m1 card_insert_if finite_readers [OF assms(1)])
  then show ?thesis using assms(1) r none by (auto simp: table_ok_def)
qed

lemma table_ok_lock:
  assumes "table_ok m ts" "lock m = Some m'"
  shows "table_ok m' (ts(t \<mapsto> False))"
proof -
  note l = lock [OF assms(2)]
  have "ts u = None" for u
  proof (cases "ts u")
    case (Some b)
    have "ts u \<noteq> Some False" using assms(1) l by (auto simp: table_ok_def)
    moreover have "card {v. ts v = Some True} = 0" using assms(1) l by (simp add: table_ok_def)
    then have "ts u \<noteq> Some True" using finite_readers [OF assms(1)] by auto
    ultimately show ?thesis using Some by (cases b) auto
  qed simp
  then have e: "ts = Map.empty" by (simp add: fun_eq_iff)
  have "{v. (Map.empty(t \<mapsto> False)) v = Some True} = {}" by auto
  then show ?thesis using l unfolding e table_ok_def by auto
qed

lemma table_ok_runlock:
  assumes "table_ok m ts" "ts t = Some True"
  obtains m' where "runlock m = Inr m'" "table_ok m' (ts(t := None))"
proof -
  have fin: "finite {u. ts u = Some True}" by (rule finite_readers [OF assms(1)])
  have "card {u. ts u = Some True} \<noteq> 0" using fin assms(2) by auto
  then have "0 < shared m" using assms(1) by (simp add: table_ok_def)
  then obtain m' where m': "runlock m = Inr m'" "shared m' = shared m - 1" "exclusive m' = exclusive m"
    using runlock by blast
  have "{u. (ts(t := None)) u = Some True} = {u. ts u = Some True} - {t}" by auto
  then have "card {u. (ts(t := None)) u = Some True} = card {u. ts u = Some True} - 1"
    using fin assms(2) by simp
  moreover have "ts u \<noteq> Some False" for u using exclusion [OF assms(1), of u t] assms(2) by auto
  ultimately have "table_ok m' (ts(t := None))" using assms(1) m' by (auto simp: table_ok_def)
  then show thesis using that m'(1) by blast
qed

lemma table_ok_unlock:
  assumes "table_ok m ts" "ts t = Some False"
  obtains m' where "unlock m = Inr m'" "table_ok m' (ts(t := None))"
proof -
  have "exclusive m" using assms by (auto simp: table_ok_def)
  then obtain m' where m': "unlock m = Inr m'" "shared m' = shared m" "\<not> exclusive m'" using unlock by blast
  have "dom ts = {t}" using assms by (simp add: table_ok_def)
  then have "ts(t := None) = Map.empty" by (auto simp: fun_eq_iff dom_def)
  then have "table_ok m' (ts(t := None))" using m' by (simp add: table_ok_def)
  then show thesis using that m'(1) by blast
qed

end

interpretation gorw: rw_mutex rw_RLock rw_Lock rw_RUnlock rw_Unlock readers writer rw_new
  by unfold_locales (auto simp: rw_new_def rw_RLock_def rw_Lock_def rw_RUnlock_def rw_Unlock_def split: if_splits)

subsection \<open>State\<close>

type_synonym Accounts = "string \<rightharpoonup> goint"

record Lock =
  rwMu :: RWMutex
  tids :: "string \<rightharpoonup> bool"

record TxApp =
  locks :: "string \<rightharpoonup> Lock"
  txLockInfo :: "string \<rightharpoonup> (string \<rightharpoonup> bool)"
  committedData :: Accounts
  cache :: "string \<rightharpoonup> Accounts"

text \<open>Writes to a map of maps: \<^verbatim>\<open>m[k1][k2] = v\<close> panics when \<^verbatim>\<open>m[k1]\<close> is nil, a delete does not.\<close>

definition nested_put :: "('a \<rightharpoonup> ('b \<rightharpoonup> 'v)) \<Rightarrow> 'a \<Rightarrow> 'b \<Rightarrow> 'v \<Rightarrow> ('a \<rightharpoonup> ('b \<rightharpoonup> 'v)) result" where
  "nested_put m k1 k2 v = (case m k1 of None \<Rightarrow> Inl NilMapWrite | Some r \<Rightarrow> Inr (m(k1 \<mapsto> r(k2 \<mapsto> v))))"

definition nested_delete :: "('a \<rightharpoonup> ('b \<rightharpoonup> 'v)) \<Rightarrow> 'a \<Rightarrow> 'b \<Rightarrow> ('a \<rightharpoonup> ('b \<rightharpoonup> 'v))" where
  "nested_delete m k1 k2 = (case m k1 of None \<Rightarrow> m | Some r \<Rightarrow> m(k1 \<mapsto> r(k2 := None)))"

definition nested_get :: "('a \<rightharpoonup> ('b \<rightharpoonup> 'v)) \<Rightarrow> 'a \<Rightarrow> 'b \<Rightarrow> 'v option" where
  "nested_get m k1 k2 = (case m k1 of None \<Rightarrow> None | Some r \<Rightarrow> r k2)"

subsection \<open>Acquiring a lock\<close>

text \<open>The second component says whether the call goes on to wait for the mutex.\<close>

definition acquire_start :: "TxApp \<Rightarrow> string \<Rightarrow> string \<Rightarrow> bool \<Rightarrow> (TxApp \<times> bool) result" where
  "acquire_start app tid acctName IsRead =
     (let l = (case locks app acctName of None \<Rightarrow> \<lparr>rwMu = rw_new, tids = Map.empty\<rparr> | Some l \<Rightarrow> l);
          app1 = app\<lparr>locks := (locks app)(acctName \<mapsto> l)\<rparr>
      in if IsRead then
           (if tids l tid = Some False then Inr (app1, False) else Inr (app1, True))
         else
           (case tids l tid of
              None \<Rightarrow> Inr (app1, True)
            | Some isRead \<Rightarrow>
                if isRead then
                  bind_result (rw_RUnlock (rwMu l)) (\<lambda>mu.
                    Inr (app1\<lparr>locks := (locks app1)(acctName \<mapsto> \<lparr>rwMu = mu, tids = (tids l)(tid := None)\<rparr>),
                             txLockInfo := nested_delete (txLockInfo app1) tid acctName\<rparr>, True))
                else Inr (app1, False)))"

text \<open>\<open>None\<close> while the mutex is not available.\<close>

definition acquire_finish :: "TxApp \<Rightarrow> string \<Rightarrow> string \<Rightarrow> bool \<Rightarrow> TxApp result option" where
  "acquire_finish app tid acctName IsRead =
     (case locks app acctName of
        None \<Rightarrow> Some (Inl NilDereference)
      | Some l \<Rightarrow>
          (case (if IsRead then rw_RLock (rwMu l) else rw_Lock (rwMu l)) of
             None \<Rightarrow> None
           | Some mu \<Rightarrow>
               Some (bind_result (nested_put (txLockInfo app) tid acctName IsRead) (\<lambda>info.
                 Inr (app\<lparr>locks := (locks app)(acctName \<mapsto> \<lparr>rwMu = mu, tids = (tids l)(tid \<mapsto> IsRead)\<rparr>),
                          txLockInfo := info\<rparr>)))))"

subsection \<open>The operations, once the lock is held\<close>

definition NF_ABRT :: string where "NF_ABRT = ''NOT FOUND, ABORTED''"
definition OK :: string where "OK = ''OK''"

definition Balance_body :: "TxApp \<Rightarrow> string \<Rightarrow> string \<Rightarrow> string" where
  "Balance_body app tid acctName =
     (let balance = committedData app acctName; changes = nested_get (cache app) tid acctName
      in if balance = None \<and> changes = None then NF_ABRT
         else acctName @ '' = '' @ itoa (map_get 0 (committedData app) acctName +
                (case changes of None \<Rightarrow> 0 | Some c \<Rightarrow> c)))"

definition Deposit_body :: "TxApp \<Rightarrow> string \<Rightarrow> string \<Rightarrow> goint \<Rightarrow> (TxApp \<times> string) result" where
  "Deposit_body app tid acctName amount =
     bind_result
       (case nested_get (cache app) tid acctName of
          None \<Rightarrow> nested_put (cache app) tid acctName amount
        | Some change \<Rightarrow> nested_put (cache app) tid acctName (change + amount))
       (\<lambda>c. Inr (app\<lparr>cache := c\<rparr>, OK))"

definition Withdraw_body :: "TxApp \<Rightarrow> string \<Rightarrow> string \<Rightarrow> goint \<Rightarrow> (TxApp \<times> string) result" where
  "Withdraw_body app tid acctName amount =
     (let inCommit = committedData app acctName \<noteq> None; inCache = nested_get (cache app) tid acctName
      in if \<not> inCommit \<and> inCache = None then Inr (app, NF_ABRT)
         else
           let change = (case inCache of None \<Rightarrow> 0 | Some c \<Rightarrow> c)
           in bind_result (nested_put (cache app) tid acctName (change - amount))
                (\<lambda>c. Inr (app\<lparr>cache := c\<rparr>, OK)))"

subsection \<open>Releasing the locks of a transaction\<close>

fun release_loop :: "TxApp \<Rightarrow> string \<Rightarrow> (string \<rightharpoonup> bool) \<Rightarrow> string list \<Rightarrow> TxApp result" where
  "release_loop app tid lockInfo [] = Inr app"
| "release_loop app tid lockInfo (name # names) =
     (case locks app name of
        None \<Rightarrow> Inl NilDereference
      | Some l \<Rightarrow>
          bind_result (if lockInfo name = Some True then rw_RUnlock (rwMu l) else rw_Unlock (rwMu l)) (\<lambda>mu.
            release_loop (app\<lparr>locks := (locks app)(name \<mapsto> \<lparr>rwMu = mu, tids = (tids l)(tid := None)\<rparr>)\<rparr>)
              tid lockInfo names))"

text \<open>\<open>names\<close> lists the accounts of \<^verbatim>\<open>lockInfo\<close> in the order \<^verbatim>\<open>range\<close> visits them.\<close>

definition releaseLocks :: "TxApp \<Rightarrow> string \<Rightarrow> string list \<Rightarrow> TxApp result" where
  "releaseLocks app tid names =
     bind_result (release_loop app tid (map_get Map.empty (txLockInfo app) tid) names) (\<lambda>app'.
       Inr (app'\<lparr>txLockInfo := (txLockInfo app')(tid := None)\<rparr>))"

subsection \<open>The invariant of a branch's locks\<close>

definition holds :: "TxApp \<Rightarrow> string \<Rightarrow> string \<Rightarrow> bool option" where
  "holds app acct tid = (case locks app acct of None \<Rightarrow> None | Some l \<Rightarrow> tids l tid)"

definition locks_ok :: "TxApp \<Rightarrow> bool" where
  "locks_ok app \<longleftrightarrow>
     (\<forall>acct l. locks app acct = Some l \<longrightarrow> gorw.table_ok (rwMu l) (tids l)) \<and>
     (\<forall>acct tid. nested_get (txLockInfo app) tid acct = holds app acct tid) \<and>
     (\<forall>tid acct. nested_get (cache app) tid acct \<noteq> None \<longrightarrow> holds app acct tid = Some False)"

lemma nested_get_put:
  "nested_put m k1 k2 v = Inr m' \<Longrightarrow> nested_get m' a b = (if a = k1 \<and> b = k2 then Some v else nested_get m a b)"
  by (auto simp: nested_put_def nested_get_def split: option.splits if_splits)

lemma nested_get_delete:
  "nested_get (nested_delete m k1 k2) a b = (if a = k1 \<and> b = k2 then None else nested_get m a b)"
  by (auto simp: nested_delete_def nested_get_def split: option.splits)

lemma nested_put_Inr: "m k1 \<noteq> None \<Longrightarrow> \<exists>m'. nested_put m k1 k2 v = Inr m'"
  by (auto simp: nested_put_def)

lemma nested_put_dom: "nested_put m k1 k2 v = Inr m' \<Longrightarrow> dom m' = dom m"
  by (auto simp: nested_put_def split: option.splits if_splits)

lemma nested_delete_dom: "dom (nested_delete m k1 k2) = dom m"
  by (auto simp: nested_delete_def split: option.splits)

lemma locks_okD:
  assumes "locks_ok app"
  shows "locks app acct = Some l \<Longrightarrow> gorw.table_ok (rwMu l) (tids l)"
    "nested_get (txLockInfo app) tid acct = holds app acct tid"
    "nested_get (cache app) tid acct \<noteq> None \<Longrightarrow> holds app acct tid = Some False"
  using assms unfolding locks_ok_def by blast+

lemma holds_upd:
  "holds (app\<lparr>locks := (locks app)(acct \<mapsto> l)\<rparr>) a t = (if a = acct then tids l t else holds app a t)"
  by (simp add: holds_def)

lemma holds_exclusive:
  assumes "locks_ok app" "holds app acct tid = Some False" "holds app acct tid' \<noteq> None"
  shows "tid' = tid"
  using assms gorw.exclusion [OF locks_okD(1) [OF assms(1)]] by (auto simp: holds_def split: option.splits)

text \<open>What the part of \<^verbatim>\<open>AcquireRWLock\<close> before the wait does.\<close>

lemma acquire_start_ok:
  assumes ok: "locks_ok app"
  obtains app' w where "acquire_start app tid acct r = Inr (app', w)" "locks_ok app'"
    "committedData app' = committedData app" "cache app' = cache app" "dom (txLockInfo app') = dom (txLockInfo app)"
    "\<And>a t. (a, t) \<noteq> (acct, tid) \<Longrightarrow> holds app' a t = holds app a t" "locks app' acct \<noteq> None"
    "dom (locks app) \<subseteq> dom (locks app')"
    "\<not> w \<Longrightarrow> holds app' acct tid = Some False" "w \<Longrightarrow> \<not> r \<Longrightarrow> holds app' acct tid = None"
    "w \<Longrightarrow> r \<Longrightarrow> holds app' acct tid \<noteq> Some False"
proof -
  define l where "l = (case locks app acct of None \<Rightarrow> \<lparr>rwMu = rw_new, tids = Map.empty\<rparr> | Some l \<Rightarrow> l)"
  define app1 where "app1 = app\<lparr>locks := (locks app)(acct \<mapsto> l)\<rparr>"
  have l: "gorw.table_ok (rwMu l) (tids l)"
    using locks_okD(1) [OF ok] gorw.table_ok_fresh by (auto simp: l_def split: option.splits)
  have h1: "holds app1 a t = holds app a t" for a t
    by (auto simp: app1_def holds_upd holds_def l_def split: option.splits)
  have tl: "tids l t = holds app acct t" for t by (simp add: holds_def l_def split: option.splits)
  have ok1: "locks_ok app1"
    using ok l unfolding locks_ok_def h1 by (simp add: app1_def)
  have same: "committedData app1 = committedData app" "cache app1 = cache app" "txLockInfo app1 = txLockInfo app"
    "locks app1 acct = Some l" "dom (locks app1) = insert acct (dom (locks app))" by (auto simp: app1_def)
  show thesis
  proof (cases "\<not> r \<and> tids l tid = Some True")
    case False
    then have "acquire_start app tid acct r = Inr (app1, tids l tid \<noteq> Some False)"
      by (auto simp: acquire_start_def Let_def l_def [symmetric] app1_def [symmetric] split: option.splits)
    then show thesis
    proof (rule that)
      show "holds app1 acct tid = None" if "tids l tid \<noteq> Some False" "\<not> r"
        using that False h1 tl by (cases "tids l tid") auto
    qed (use ok1 h1 same tl in auto)
  next
    case True
    obtain mu where mu: "rw_RUnlock (rwMu l) = Inr mu" "gorw.table_ok mu ((tids l)(tid := None))"
      using gorw.table_ok_runlock [OF l] True by blast
    let ?l' = "\<lparr>rwMu = mu, tids = (tids l)(tid := None)\<rparr>"
    let ?app = "app1\<lparr>locks := (locks app1)(acct \<mapsto> ?l'), txLockInfo := nested_delete (txLockInfo app1) tid acct\<rparr>"
    have st: "acquire_start app tid acct r = Inr (?app, True)"
      using True mu(1)
      by (auto simp: acquire_start_def Let_def l_def [symmetric] app1_def [symmetric])
    have h: "holds ?app a t = (if a = acct \<and> t = tid then None else holds app a t)" for a t
      using tl h1 by (simp add: holds_def)
    have nocache: "nested_get (cache app) tid acct = None"
      using locks_okD(3) [OF ok, of tid acct] True tl by (cases "nested_get (cache app) tid acct") auto
    have "locks_ok ?app"
      unfolding locks_ok_def h
      using locks_okD [OF ok1] mu(2) same nocache h1 by (auto simp: nested_get_delete)
    then show thesis by (rule that [OF st]) (use h same True in \<open>auto simp: nested_delete_dom\<close>)
  qed
qed

text \<open>What it does once the mutex is granted.\<close>

lemma acquire_finish_ok:
  assumes ok: "locks_ok app" and fin: "acquire_finish app tid acct r = Some res" and ex: "locks app acct \<noteq> None"
    "txLockInfo app tid \<noteq> None" and req: "if r then holds app acct tid \<noteq> Some False else holds app acct tid = None"
  obtains app' where "res = Inr app'" "locks_ok app'" "committedData app' = committedData app"
    "cache app' = cache app" "dom (txLockInfo app') = dom (txLockInfo app)" "dom (locks app') = dom (locks app)"
    "\<And>a t. holds app' a t = (if a = acct \<and> t = tid then Some r else holds app a t)"
proof -
  obtain l where l: "locks app acct = Some l" using ex(1) by blast
  obtain info where info: "nested_put (txLockInfo app) tid acct r = Inr info"
    using nested_put_Inr [of "txLockInfo app", OF ex(2)] by blast
  obtain mu where mu: "(if r then rw_RLock (rwMu l) else rw_Lock (rwMu l)) = Some mu"
    using fin l by (cases "if r then rw_RLock (rwMu l) else rw_Lock (rwMu l)") (simp_all add: acquire_finish_def)
  let ?l' = "\<lparr>rwMu = mu, tids = (tids l)(tid \<mapsto> r)\<rparr>"
  let ?app = "app\<lparr>locks := (locks app)(acct \<mapsto> ?l'), txLockInfo := info\<rparr>"
  have res: "res = Inr ?app" using fin l info mu by (simp add: acquire_finish_def)
  have h: "holds ?app a t = (if a = acct \<and> t = tid then Some r else holds app a t)" for a t
    using l by (simp add: holds_def)
  have "tids l tid = holds app acct tid" using l by (simp add: holds_def)
  then have tab: "gorw.table_ok mu ((tids l)(tid \<mapsto> r))"
    using mu req gorw.table_ok_rlock [OF locks_okD(1) [OF ok l]] gorw.table_ok_lock [OF locks_okD(1) [OF ok l]]
    by (cases r) auto
  have "nested_get (cache app) tid acct = None"
    using locks_okD(3) [OF ok, of tid acct] req by (cases "nested_get (cache app) tid acct"; cases r) auto
  then have "locks_ok ?app"
    unfolding locks_ok_def h using locks_okD [OF ok] tab by (auto simp: nested_get_put [OF info])
  then show thesis using that [OF res] h l by (auto simp: nested_put_dom [OF info])
qed

lemma cache_write_ok:
  assumes "locks_ok app" "holds app acct tid = Some False" "nested_put (cache app) tid acct v = Inr c"
  shows "locks_ok (app\<lparr>cache := c\<rparr>)"
proof -
  have "holds (app\<lparr>cache := c\<rparr>) = holds app" by (simp add: fun_eq_iff holds_def)
  then show ?thesis using assms unfolding locks_ok_def by (auto simp: nested_get_put [OF assms(3)])
qed

lemma release_loop_ok:
  assumes "\<And>a l. locks app a = Some l \<Longrightarrow> gorw.table_ok (rwMu l) (tids l)" "distinct names"
    "\<And>a. a \<in> set names \<Longrightarrow> holds app a tid = info a \<and> info a \<noteq> None"
  shows "\<exists>app'. release_loop app tid info names = Inr app' \<and>
    (\<forall>a l. locks app' a = Some l \<longrightarrow> gorw.table_ok (rwMu l) (tids l)) \<and>
    (\<forall>a t. holds app' a t = (if t = tid \<and> a \<in> set names then None else holds app a t)) \<and>
    txLockInfo app' = txLockInfo app \<and> committedData app' = committedData app \<and> cache app' = cache app \<and>
    dom (locks app') = dom (locks app)"
  using assms
proof (induction names arbitrary: app)
  case (Cons name names)
  have n: "holds app name tid = info name" "info name \<noteq> None" using Cons.prems(3) by simp_all
  then obtain l where l: "locks app name = Some l" "tids l tid = info name"
    by (auto simp: holds_def split: option.splits)
  have tab: "gorw.table_ok (rwMu l) (tids l)" using Cons.prems(1) l(1) .
  obtain mu where mu: "(if info name = Some True then rw_RUnlock (rwMu l) else rw_Unlock (rwMu l)) = Inr mu"
    "gorw.table_ok mu ((tids l)(tid := None))"
  proof (cases "info name = Some True")
    case True
    then show thesis using gorw.table_ok_runlock [OF tab, of tid] l(2) that by auto
  next
    case False
    then have "tids l tid = Some False" using n(2) l(2) by auto
    then show thesis using gorw.table_ok_unlock [OF tab, of tid] that False by auto
  qed
  let ?app = "app\<lparr>locks := (locks app)(name \<mapsto> \<lparr>rwMu = mu, tids = (tids l)(tid := None)\<rparr>)\<rparr>"
  have h: "holds ?app a t = (if t = tid \<and> a = name then None else holds app a t)" for a t
    using l(1) by (simp add: holds_def)
  have "\<exists>app'. release_loop ?app tid info names = Inr app' \<and>
    (\<forall>a l. locks app' a = Some l \<longrightarrow> gorw.table_ok (rwMu l) (tids l)) \<and>
    (\<forall>a t. holds app' a t = (if t = tid \<and> a \<in> set names then None else holds ?app a t)) \<and>
    txLockInfo app' = txLockInfo ?app \<and> committedData app' = committedData ?app \<and> cache app' = cache ?app \<and>
    dom (locks app') = dom (locks ?app)"
  proof (rule Cons.IH)
    show "gorw.table_ok (rwMu k) (tids k)" if "locks ?app a = Some k" for a k
      using that Cons.prems(1) mu(2) by (auto split: if_splits)
    show "holds ?app a tid = info a \<and> info a \<noteq> None" if "a \<in> set names" for a
      unfolding h using that Cons.prems(2,3) by auto
  qed (use Cons.prems(2) in simp)
  moreover have "dom (locks ?app) = dom (locks app)" using l(1) by auto
  ultimately show ?case using l(1) mu(1) h by auto
qed simp

lemma releaseLocks_ok:
  assumes ok: "locks_ok app" and cache: "cache app tid = None"
    and names: "distinct names" "set names = dom (map_get Map.empty (txLockInfo app) tid)"
  obtains app' where "releaseLocks app tid names = Inr app'" "locks_ok app'" "txLockInfo app' = (txLockInfo app)(tid := None)"
    "committedData app' = committedData app" "cache app' = cache app" "dom (locks app') = dom (locks app)"
    "\<And>a t. holds app' a t = (if t = tid then None else holds app a t)"
proof -
  let ?info = "map_get Map.empty (txLockInfo app) tid"
  have info: "?info a = holds app a tid" for a
    using locks_okD(2) [OF ok, of tid a] by (simp add: nested_get_def map_get_def split: option.splits)
  have held: "holds app a tid = ?info a \<and> ?info a \<noteq> None" if "a \<in> set names" for a
    using that names(2) info by auto
  have "\<exists>app'. release_loop app tid ?info names = Inr app' \<and>
    (\<forall>a l. locks app' a = Some l \<longrightarrow> gorw.table_ok (rwMu l) (tids l)) \<and>
    (\<forall>a t. holds app' a t = (if t = tid \<and> a \<in> set names then None else holds app a t)) \<and>
    txLockInfo app' = txLockInfo app \<and> committedData app' = committedData app \<and> cache app' = cache app \<and>
    dom (locks app') = dom (locks app)"
    by (rule release_loop_ok [OF _ names(1) held]) (rule locks_okD(1) [OF ok])
  then obtain app' where r: "release_loop app tid ?info names = Inr app'"
    "\<And>a l. locks app' a = Some l \<Longrightarrow> gorw.table_ok (rwMu l) (tids l)"
    "\<And>a t. holds app' a t = (if t = tid \<and> a \<in> set names then None else holds app a t)"
    "txLockInfo app' = txLockInfo app" "committedData app' = committedData app" "cache app' = cache app"
    "dom (locks app') = dom (locks app)"
    by blast
  let ?app = "app'\<lparr>txLockInfo := (txLockInfo app')(tid := None)\<rparr>"
  have h: "holds ?app a t = (if t = tid then None else holds app a t)" for a t
  proof -
    have "holds ?app a t = holds app' a t" by (simp add: holds_def)
    then show ?thesis using r(3) [of a t] names(2) info [of a] by auto
  qed
  have "locks_ok ?app"
    unfolding locks_ok_def h using r(2,4,6) locks_okD(2,3) [OF ok] cache by (auto simp: nested_get_def)
  then show thesis using that [of ?app] r h by (simp add: releaseLocks_def)
qed

subsection \<open>The mutexes that a release unlocks\<close>

definition mutex :: "TxApp \<Rightarrow> string \<Rightarrow> RWMutex option" where
  "mutex app acct = map_option rwMu (locks app acct)"

definition unlocked :: "bool \<Rightarrow> RWMutex \<Rightarrow> RWMutex" where
  "unlocked isRead mu = (if isRead then mu\<lparr>readers := readers mu - 1\<rparr> else mu\<lparr>writer := False\<rparr>)"

lemma unlock_result: "(if r then rw_RUnlock mu else rw_Unlock mu) = Inr mu' \<Longrightarrow> mu' = unlocked r mu"
  by (auto simp: unlocked_def rw_RUnlock_def rw_Unlock_def split: if_splits)

lemma release_loop_mutex:
  assumes "release_loop app tid info names = Inr app'" "distinct names"
  shows "mutex app' a = (if a \<in> set names then map_option (unlocked (info a = Some True)) (mutex app a) else mutex app a)"
  using assms
proof (induction names arbitrary: app)
  case (Cons name names)
  obtain l where l: "locks app name = Some l" using Cons.prems(1) by (cases "locks app name") auto
  let ?u = "if info name = Some True then rw_RUnlock (rwMu l) else rw_Unlock (rwMu l)"
  obtain mu where mu: "?u = Inr mu" using Cons.prems(1) l by (cases ?u) auto
  let ?app = "app\<lparr>locks := (locks app)(name \<mapsto> \<lparr>rwMu = mu, tids = (tids l)(tid := None)\<rparr>)\<rparr>"
  have "release_loop ?app tid info names = Inr app'" using Cons.prems(1) l mu by simp
  then have "mutex app' a = (if a \<in> set names then map_option (unlocked (info a = Some True)) (mutex ?app a) else mutex ?app a)"
    using Cons.IH Cons.prems(2) by simp
  moreover have "mutex ?app a = (if a = name then map_option (unlocked (info a = Some True)) (mutex app a) else mutex app a)"
    using unlock_result [OF mu] l by (simp add: mutex_def)
  ultimately show ?case using Cons.prems(2) by auto
qed simp

lemma releaseLocks_mutex:
  assumes "releaseLocks app tid names = Inr app'" "locks_ok app"
    and "distinct names" "set names = dom (map_get Map.empty (txLockInfo app) tid)"
  shows "mutex app' a = (case holds app a tid of None \<Rightarrow> mutex app a | Some r \<Rightarrow> map_option (unlocked r) (mutex app a))"
proof -
  let ?info = "map_get Map.empty (txLockInfo app) tid"
  have info: "?info a = holds app a tid"
    using locks_okD(2) [OF assms(2), of tid a] by (simp add: nested_get_def map_get_def split: option.splits)
  obtain app1 where app1: "release_loop app tid ?info names = Inr app1"
    using assms(1) by (cases "release_loop app tid ?info names") (auto simp: releaseLocks_def)
  have "mutex app' a = mutex app1 a" using assms(1) app1 by (auto simp: releaseLocks_def mutex_def)
  then show ?thesis
    using release_loop_mutex [OF app1 assms(3), of a] assms(4) info by (cases "holds app a tid") auto
qed

text \<open>What is registered with a lock fixes the state of its mutex, but for the number of readers.\<close>

lemma locks_ok_mutex:
  assumes "locks_ok app" "holds app a tid = Some r"
  shows "\<exists>mu. mutex app a = Some mu \<and> (if r then \<not> writer mu \<and> 0 < readers mu else writer mu \<and> readers mu = 0)"
proof -
  obtain l where l: "locks app a = Some l" "tids l tid = Some r" using assms(2) by (auto simp: holds_def split: option.splits)
  have tab: "gorw.table_ok (rwMu l) (tids l)" by (rule locks_okD(1) [OF assms(1) l(1)])
  have "card {t. tids l t = Some True} \<noteq> 0" if r using gorw.finite_readers [OF tab] l(2) that by auto
  moreover have "tids l t \<noteq> Some False" if r for t using gorw.exclusion [OF tab, of t tid] l(2) that by auto
  ultimately show ?thesis using tab l by (cases r) (auto simp: mutex_def gorw.table_ok_def)
qed

end
