(* ===== verification/Tx_Branch.thy ===== *)
theory Tx_Branch
  imports Tx_Account
begin

section \<open>Transactions: a branch as participant\<close>

text \<open>
  The part of \<^verbatim>\<open>transactions-demo/server/rpc.go\<close> that a coordinator calls: \<^verbatim>\<open>ForwardCmd\<close>,
  \<^verbatim>\<open>Prepare\<close> and \<^verbatim>\<open>Commit\<close>, with the command type of \<^verbatim>\<open>shared/types.go\<close>. A call of \<^verbatim>\<open>ForwardCmd\<close>
  is split where it may wait for a lock. The second half of the theory lets the calls of all
  transactions interleave at one branch: \<open>bstep\<close>.
\<close>

subsection \<open>Commands\<close>

record Command =
  Tid :: string
  Branch :: string
  Account :: string
  Method :: string
  Amount_c :: goint

subsection \<open>ForwardCmd\<close>

datatype fwd_result = Reply string | Wait

definition fwd_init :: "TxApp \<Rightarrow> string \<Rightarrow> TxApp" where
  "fwd_init app tid =
     (let app1 = (if cache app tid = None then app\<lparr>cache := (cache app)(tid \<mapsto> Map.empty)\<rparr> else app)
      in if txLockInfo app1 tid = None then app1\<lparr>txLockInfo := (txLockInfo app1)(tid \<mapsto> Map.empty)\<rparr> else app1)"

text \<open>The rest of the operation, once \<^verbatim>\<open>AcquireRWLock\<close> has returned.\<close>

definition fwd_body :: "string \<Rightarrow> TxApp \<Rightarrow> Command \<Rightarrow> (TxApp \<times> string) result" where
  "fwd_body branch app cmd =
     (if Method cmd = ''DEPOSIT'' then Deposit_body app (Tid cmd) (Account cmd) (Amount_c cmd)
      else if Method cmd = ''WITHDRAW'' then Withdraw_body app (Tid cmd) (Account cmd) (Amount_c cmd)
      else
        let res = Balance_body app (Tid cmd) (Account cmd)
        in Inr (app, if res = NF_ABRT then res else branch @ ''.'' @ res))"

definition ForwardCmd_start :: "string \<Rightarrow> TxApp \<Rightarrow> Command \<Rightarrow> (TxApp \<times> fwd_result) result" where
  "ForwardCmd_start branch app cmd =
     (let app1 = fwd_init app (Tid cmd)
      in if Method cmd \<in> {''DEPOSIT'', ''WITHDRAW'', ''BALANCE''} then
           bind_result (acquire_start app1 (Tid cmd) (Account cmd) (Method cmd = ''BALANCE'')) (\<lambda>(app2, w).
             if w then Inr (app2, Wait)
             else bind_result (fwd_body branch app2 cmd) (\<lambda>(app3, r). Inr (app3, Reply r)))
         else Inr (app1, Reply []))"

definition ForwardCmd_finish :: "string \<Rightarrow> TxApp \<Rightarrow> Command \<Rightarrow> (TxApp \<times> string) result option" where
  "ForwardCmd_finish branch app cmd =
     (case acquire_finish app (Tid cmd) (Account cmd) (Method cmd = ''BALANCE'') of
        None \<Rightarrow> None
      | Some r \<Rightarrow> Some (bind_result r (\<lambda>app1. fwd_body branch app1 cmd)))"

subsection \<open>Prepare and Commit\<close>

text \<open>\<open>names\<close> lists the accounts that the transaction has locked.\<close>

fun prepare_loop :: "TxApp \<Rightarrow> string \<Rightarrow> string list \<Rightarrow> bool \<Rightarrow> bool" where
  "prepare_loop app curTid [] res = res"
| "prepare_loop app curTid (acctName # names) res =
     (if sint (map_get 0 (committedData app) acctName +
               map_get 0 (map_get Map.empty (cache app) curTid) acctName) < 0
      then prepare_loop app curTid names False
      else prepare_loop app curTid names res)"

definition Prepare :: "TxApp \<Rightarrow> string \<Rightarrow> string list \<Rightarrow> bool" where
  "Prepare app curTid names = prepare_loop app curTid names True"

fun commit_loop :: "Accounts \<Rightarrow> Accounts \<Rightarrow> string list \<Rightarrow> Accounts" where
  "commit_loop changes data [] = data"
| "commit_loop changes data (acctName # names) =
     commit_loop changes (data(acctName \<mapsto> map_get 0 data acctName + map_get 0 changes acctName)) names"

definition print_balances :: "Accounts \<Rightarrow> string list \<Rightarrow> string" where
  "print_balances data names =
     ''Non-zero balance: '' @
     concat (map (\<lambda>a. ''Account name: '' @ a @ '' Balance: '' @ itoa (map_get 0 data a) @ '' '') names)"

text \<open>
  \<open>cnames\<close>, \<open>pnames\<close> and \<open>lnames\<close> are the orders in which the changed accounts, the committed
  accounts and the locked accounts are visited. The second component is what is printed.
\<close>

definition Commit ::
  "TxApp \<Rightarrow> string \<Rightarrow> bool \<Rightarrow> string list \<Rightarrow> string list \<Rightarrow> string list \<Rightarrow> (TxApp \<times> string) result" where
  "Commit app tid DoCommit cnames pnames lnames =
     (let (app1, out) =
        (if DoCommit then
           let data = commit_loop (map_get Map.empty (cache app) tid) (committedData app) cnames
           in (app\<lparr>committedData := data\<rparr>, print_balances data pnames)
         else (app, []))
      in bind_result (releaseLocks (app1\<lparr>cache := (cache app1)(tid := None)\<rparr>) tid lnames) (\<lambda>app2.
           Inr (app2, out)))"

subsection \<open>All transactions at one branch\<close>

text \<open>
  The state of a branch with the calls that wait for a lock, at most one per transaction, since a
  client sends its commands one after the other. \<open>prepared\<close> is the set of transactions that have
  been told they can commit and have not yet been told to; the coordinator sends no command of
  such a transaction, and sends a commit only for such a transaction, as \<open>Tx_System\<close> shows.
\<close>

record branch_state =
  app :: TxApp
  waiting :: "string \<rightharpoonup> Command"
  prepared :: "string set"

definition binit :: branch_state where
  "binit = \<lparr>app = \<lparr>locks = Map.empty, txLockInfo = Map.empty, committedData = Map.empty, cache = Map.empty\<rparr>,
            waiting = Map.empty, prepared = {}\<rparr>"

definition locked_names :: "TxApp \<Rightarrow> string \<Rightarrow> string list \<Rightarrow> bool" where
  "locked_names a tid names \<longleftrightarrow> distinct names \<and> set names = dom (map_get Map.empty (txLockInfo a) tid)"

definition changed_names :: "TxApp \<Rightarrow> string \<Rightarrow> string list \<Rightarrow> bool" where
  "changed_names a tid names \<longleftrightarrow> distinct names \<and> set names = dom (map_get Map.empty (cache a) tid)"

inductive bstep :: "string \<Rightarrow> branch_state \<Rightarrow> branch_state \<Rightarrow> bool" for branch where
  call_wait: "waiting b (Tid cmd) = None \<Longrightarrow> Tid cmd \<notin> prepared b \<Longrightarrow>
    ForwardCmd_start branch (app b) cmd = Inr (a, Wait) \<Longrightarrow>
    bstep branch b (b\<lparr>app := a, waiting := (waiting b)(Tid cmd \<mapsto> cmd)\<rparr>)"
| call_done: "waiting b (Tid cmd) = None \<Longrightarrow> Tid cmd \<notin> prepared b \<Longrightarrow>
    ForwardCmd_start branch (app b) cmd = Inr (a, Reply r) \<Longrightarrow> bstep branch b (b\<lparr>app := a\<rparr>)"
| grant: "waiting b tid = Some cmd \<Longrightarrow> ForwardCmd_finish branch (app b) cmd = Some (Inr (a, r)) \<Longrightarrow>
    bstep branch b (b\<lparr>app := a, waiting := (waiting b)(tid := None)\<rparr>)"
| prepare: "waiting b tid = None \<Longrightarrow> locked_names (app b) tid names \<Longrightarrow> Prepare (app b) tid names \<Longrightarrow>
    bstep branch b (b\<lparr>prepared := insert tid (prepared b)\<rparr>)"
| commit: "tid \<in> prepared b \<Longrightarrow> changed_names (app b) tid cnames \<Longrightarrow> locked_names (app b) tid lnames \<Longrightarrow>
    Commit (app b) tid True cnames pnames lnames = Inr (a, out) \<Longrightarrow>
    bstep branch b (b\<lparr>app := a, prepared := prepared b - {tid}\<rparr>)"
| abort: "waiting b tid = None \<Longrightarrow> locked_names (app b) tid lnames \<Longrightarrow>
    Commit (app b) tid False cnames pnames lnames = Inr (a, out) \<Longrightarrow>
    bstep branch b (b\<lparr>app := a, prepared := prepared b - {tid}\<rparr>)"

inductive breach :: "string \<Rightarrow> branch_state \<Rightarrow> bool" for branch where
  start: "breach branch binit"
| step: "breach branch b \<Longrightarrow> bstep branch b b' \<Longrightarrow> breach branch b'"

subsection \<open>One call\<close>

text \<open>What a call on behalf of one transaction leaves alone of another one.\<close>

definition same_tx :: "string \<Rightarrow> TxApp \<Rightarrow> TxApp \<Rightarrow> bool" where
  "same_tx t a a' \<longleftrightarrow> (\<forall>acct. holds a' acct t = holds a acct t) \<and> cache a' t = cache a t \<and>
     (txLockInfo a' t = None \<longleftrightarrow> txLockInfo a t = None) \<and> dom (locks a) \<subseteq> dom (locks a')"

lemma same_tx_refl [simp]: "same_tx t a a"
  by (simp add: same_tx_def)

lemma same_tx_trans: "same_tx t a b \<Longrightarrow> same_tx t b c \<Longrightarrow> same_tx t a c"
  unfolding same_tx_def by (metis subset_trans)

text \<open>What holds of a call that waits.\<close>

definition waits_ok :: "TxApp \<Rightarrow> Command \<Rightarrow> bool" where
  "waits_ok a cmd \<longleftrightarrow> Method cmd \<in> {''DEPOSIT'', ''WITHDRAW'', ''BALANCE''} \<and>
     locks a (Account cmd) \<noteq> None \<and> txLockInfo a (Tid cmd) \<noteq> None \<and> cache a (Tid cmd) \<noteq> None \<and>
     (if Method cmd = ''BALANCE'' then holds a (Account cmd) (Tid cmd) \<noteq> Some False
      else holds a (Account cmd) (Tid cmd) = None)"

lemma fwd_init_ok:
  assumes "locks_ok a"
  shows "locks_ok (fwd_init a tid)" "committedData (fwd_init a tid) = committedData a"
    "\<And>t. t \<noteq> tid \<Longrightarrow> same_tx t a (fwd_init a tid)" "cache (fwd_init a tid) tid \<noteq> None"
    "txLockInfo (fwd_init a tid) tid \<noteq> None" "holds (fwd_init a tid) = holds a"
    "\<And>t acct. nested_get (cache (fwd_init a tid)) t acct = nested_get (cache a) t acct"
proof -
  show h: "holds (fwd_init a tid) = holds a" by (simp add: fun_eq_iff holds_def fwd_init_def Let_def)
  have l: "locks (fwd_init a tid) = locks a" by (simp add: fwd_init_def Let_def)
  show g: "nested_get (cache (fwd_init a tid)) t acct = nested_get (cache a) t acct" for t acct
    by (auto simp: fwd_init_def Let_def nested_get_def)
  have "nested_get (txLockInfo (fwd_init a tid)) t acct = nested_get (txLockInfo a) t acct" for t acct
    by (auto simp: fwd_init_def Let_def nested_get_def)
  then show "locks_ok (fwd_init a tid)" using assms unfolding locks_ok_def g h l by simp
  show "committedData (fwd_init a tid) = committedData a" by (simp add: fwd_init_def Let_def)
  show "cache (fwd_init a tid) tid \<noteq> None" "txLockInfo (fwd_init a tid) tid \<noteq> None"
    by (auto simp: fwd_init_def Let_def)
  show "same_tx t a (fwd_init a tid)" if "t \<noteq> tid" for t
    using that unfolding same_tx_def h l by (auto simp: fwd_init_def Let_def)
qed

lemma fwd_body_ok:
  assumes ok: "locks_ok a" and c: "cache a (Tid cmd) \<noteq> None"
    and h: "Method cmd \<noteq> ''BALANCE'' \<Longrightarrow> holds a (Account cmd) (Tid cmd) = Some False"
    and m: "Method cmd \<in> {''DEPOSIT'', ''WITHDRAW'', ''BALANCE''}"
  obtains a' r where "fwd_body branch a cmd = Inr (a', r)" "locks_ok a'" "committedData a' = committedData a"
    "\<And>t. t \<noteq> Tid cmd \<Longrightarrow> same_tx t a a'" "locks a' = locks a" "txLockInfo a' = txLockInfo a"
proof -
  note finish = that
  have put: thesis if w: "Method cmd \<noteq> ''BALANCE''"
    and b: "\<And>c. nested_put (cache a) (Tid cmd) (Account cmd) v = Inr c \<Longrightarrow> fwd_body branch a cmd = Inr (a\<lparr>cache := c\<rparr>, r)"
    for v r
  proof -
    obtain c where c': "nested_put (cache a) (Tid cmd) (Account cmd) v = Inr c"
      using nested_put_Inr [of "cache a", OF c] by blast
    have "same_tx t a (a\<lparr>cache := c\<rparr>)" if "t \<noteq> Tid cmd" for t
      using c' that by (auto simp: same_tx_def holds_def nested_put_def split: option.splits)
    then show thesis using finish [OF b [OF c']] cache_write_ok [OF ok h [OF w] c'] by simp
  qed
  consider "Method cmd = ''DEPOSIT''" | "Method cmd = ''WITHDRAW''" | "Method cmd = ''BALANCE''" using m by auto
  then show thesis
  proof cases
    case 1
    then show thesis
      by (intro put [of "(case nested_get (cache a) (Tid cmd) (Account cmd) of None \<Rightarrow> Amount_c cmd | Some x \<Rightarrow> x + Amount_c cmd)" OK])
        (auto simp: fwd_body_def Deposit_body_def split: option.splits)
  next
    case 2
    show thesis
    proof (cases "committedData a (Account cmd) = None \<and> nested_get (cache a) (Tid cmd) (Account cmd) = None")
      case True
      then show thesis using that [of a NF_ABRT] ok 2 by (simp add: fwd_body_def Withdraw_body_def)
    next
      case False
      then show thesis using 2
        by (intro put [of "(case nested_get (cache a) (Tid cmd) (Account cmd) of None \<Rightarrow> 0 | Some x \<Rightarrow> x) - Amount_c cmd" OK])
          (auto simp: fwd_body_def Withdraw_body_def Let_def split: option.splits)
    qed
  next
    case 3
    then have "\<exists>r. fwd_body branch a cmd = Inr (a, r)" by (simp add: fwd_body_def Let_def)
    then show thesis using that ok by auto
  qed
qed

lemma ForwardCmd_start_ok:
  assumes ok: "locks_ok a"
  obtains a' r where "ForwardCmd_start branch a cmd = Inr (a', r)" "locks_ok a'" "committedData a' = committedData a"
    "\<And>t. t \<noteq> Tid cmd \<Longrightarrow> same_tx t a a'" "r = Wait \<Longrightarrow> waits_ok a' cmd"
proof (cases "Method cmd \<in> {''DEPOSIT'', ''WITHDRAW'', ''BALANCE''}")
  case m: True
  let ?a = "fwd_init a (Tid cmd)"
  note I = fwd_init_ok [OF ok, where tid = "Tid cmd"]
  obtain a2 w where s: "acquire_start ?a (Tid cmd) (Account cmd) (Method cmd = ''BALANCE'') = Inr (a2, w)" "locks_ok a2"
    "committedData a2 = committedData ?a" "cache a2 = cache ?a" "dom (txLockInfo a2) = dom (txLockInfo ?a)"
    "\<And>x t. (x, t) \<noteq> (Account cmd, Tid cmd) \<Longrightarrow> holds a2 x t = holds ?a x t" "locks a2 (Account cmd) \<noteq> None"
    "dom (locks ?a) \<subseteq> dom (locks a2)"
    "\<not> w \<Longrightarrow> holds a2 (Account cmd) (Tid cmd) = Some False"
    "w \<Longrightarrow> Method cmd \<noteq> ''BALANCE'' \<Longrightarrow> holds a2 (Account cmd) (Tid cmd) = None"
    "w \<Longrightarrow> Method cmd = ''BALANCE'' \<Longrightarrow> holds a2 (Account cmd) (Tid cmd) \<noteq> Some False"
    using acquire_start_ok [OF I(1)] by blast
  have frame: "same_tx t a a2" if "t \<noteq> Tid cmd" for t
  proof (rule same_tx_trans [OF I(3) [OF that]])
    show "same_tx t ?a a2" using s(4,5,6,8) that unfolding same_tx_def by (metis domIff prod.inject)
  qed
  have live: "cache a2 (Tid cmd) \<noteq> None" "txLockInfo a2 (Tid cmd) \<noteq> None"
    using I(4,5) s(4,5) by (simp, metis domIff)
  show thesis
  proof (cases w)
    case True
    have "waits_ok a2 cmd" using m live s(7) s(10,11) [OF True] by (auto simp: waits_ok_def)
    then show thesis using that [of a2 Wait] s True m I(2) frame by (simp add: ForwardCmd_start_def Let_def)
  next
    case False
    obtain a3 r where b: "fwd_body branch a2 cmd = Inr (a3, r)" "locks_ok a3" "committedData a3 = committedData a2"
      "\<And>t. t \<noteq> Tid cmd \<Longrightarrow> same_tx t a2 a3"
      using fwd_body_ok [OF s(2) live(1) s(9) [OF False] m, of branch] by blast
    have "same_tx t a a3" if "t \<noteq> Tid cmd" for t using same_tx_trans [OF frame b(4)] that by blast
    then show thesis
      by (intro that [of a3 "Reply r"]) (use s(1,3) b False m I(2) in \<open>auto simp: ForwardCmd_start_def Let_def\<close>)
  qed
next
  case False
  then show thesis using that [of "fwd_init a (Tid cmd)" "Reply []"] fwd_init_ok [OF ok, where tid = "Tid cmd"]
    by (simp add: ForwardCmd_start_def Let_def)
qed

lemma ForwardCmd_finish_ok:
  assumes ok: "locks_ok a" and w: "waits_ok a cmd" and fin: "ForwardCmd_finish branch a cmd = Some res"
  obtains a' r where "res = Inr (a', r)" "locks_ok a'" "committedData a' = committedData a"
    "\<And>t. t \<noteq> Tid cmd \<Longrightarrow> same_tx t a a'"
proof -
  obtain r1 where r1: "acquire_finish a (Tid cmd) (Account cmd) (Method cmd = ''BALANCE'') = Some r1"
    "res = bind_result r1 (\<lambda>app1. fwd_body branch app1 cmd)"
    using fin by (auto simp: ForwardCmd_finish_def split: option.splits)
  have W: "Method cmd \<in> {''DEPOSIT'', ''WITHDRAW'', ''BALANCE''}" "locks a (Account cmd) \<noteq> None"
    "txLockInfo a (Tid cmd) \<noteq> None" "cache a (Tid cmd) \<noteq> None"
    "if Method cmd = ''BALANCE'' then holds a (Account cmd) (Tid cmd) \<noteq> Some False
     else holds a (Account cmd) (Tid cmd) = None"
    using w unfolding waits_ok_def by blast+
  obtain a1 where a1: "r1 = Inr a1" "locks_ok a1" "committedData a1 = committedData a" "cache a1 = cache a"
    "dom (txLockInfo a1) = dom (txLockInfo a)" "dom (locks a1) = dom (locks a)"
    "\<And>x t. holds a1 x t = (if x = Account cmd \<and> t = Tid cmd then Some (Method cmd = ''BALANCE'') else holds a x t)"
    using acquire_finish_ok [OF ok r1(1) W(2,3,5)] by blast
  have f1: "same_tx t a a1" if "t \<noteq> Tid cmd" for t
    using a1(4,5,6,7) that unfolding same_tx_def by (metis domIff order_refl)
  have c1: "cache a1 (Tid cmd) \<noteq> None" using W(4) a1(4) by simp
  have h1: "holds a1 (Account cmd) (Tid cmd) = Some False" if "Method cmd \<noteq> ''BALANCE''" using a1(7) that by simp
  obtain a2 r where b: "fwd_body branch a1 cmd = Inr (a2, r)" "locks_ok a2"
    "committedData a2 = committedData a1" "\<And>t. t \<noteq> Tid cmd \<Longrightarrow> same_tx t a1 a2"
    using fwd_body_ok [OF a1(2) c1 h1 W(1), of branch] by blast
  have "same_tx t a a2" if "t \<noteq> Tid cmd" for t using same_tx_trans [OF f1 b(4)] that by blast
  then show thesis by (intro that [of a2 r]) (use b a1(1,3) r1(2) in auto)
qed

lemma prepare_loop_iff:
  "prepare_loop a tid names res \<longleftrightarrow> res \<and> (\<forall>acct \<in> set names.
     0 \<le> sint (map_get 0 (committedData a) acct + map_get 0 (map_get Map.empty (cache a) tid) acct))"
  by (induction names arbitrary: res) auto

lemma commit_loop_apply:
  "distinct names \<Longrightarrow> commit_loop changes data names acct =
     (if acct \<in> set names then Some (map_get 0 data acct + map_get 0 changes acct) else data acct)"
proof (induction names arbitrary: data)
  case (Cons n names)
  then show ?case by (cases "acct = n") (auto simp: map_get_def)
qed simp

lemma changes_held:
  assumes "locks_ok a" "map_get Map.empty (cache a) tid acct = Some c"
  shows "holds a acct tid = Some False"
  using locks_okD(3) [OF assms(1), of tid acct] assms(2) by (auto simp: nested_get_def map_get_def split: option.splits)

lemma Commit_ok:
  assumes ok: "locks_ok a" and l: "locked_names a tid lnames"
  obtains a' out where "Commit a tid doIt cnames pnames lnames = Inr (a', out)" "locks_ok a'"
    "committedData a' =
       (if doIt then commit_loop (map_get Map.empty (cache a) tid) (committedData a) cnames else committedData a)"
    "cache a' = (cache a)(tid := None)" "txLockInfo a' = (txLockInfo a)(tid := None)"
    "\<And>acct. holds a' acct tid = None" "\<And>t. t \<noteq> tid \<Longrightarrow> same_tx t a a'"
proof -
  define d where "d = (if doIt then commit_loop (map_get Map.empty (cache a) tid) (committedData a) cnames
      else committedData a)"
  define a1 where "a1 = a\<lparr>committedData := d, cache := (cache a)(tid := None)\<rparr>"
  have h: "holds a1 = holds a" by (simp add: a1_def fun_eq_iff holds_def)
  have ok1: "locks_ok a1"
    using ok unfolding locks_ok_def h by (auto simp: a1_def nested_get_def)
  have names: "distinct lnames" "set lnames = dom (map_get Map.empty (txLockInfo a1) tid)"
    using l by (simp_all add: locked_names_def a1_def)
  obtain a2 where r: "releaseLocks a1 tid lnames = Inr a2" "locks_ok a2" "txLockInfo a2 = (txLockInfo a1)(tid := None)"
    "committedData a2 = committedData a1" "cache a2 = cache a1" "dom (locks a2) = dom (locks a1)"
    "\<And>x t. holds a2 x t = (if t = tid then None else holds a1 x t)"
    by (rule releaseLocks_ok [OF ok1 _ names]) (simp_all add: a1_def)
  have c: "\<exists>out. Commit a tid doIt cnames pnames lnames = Inr (a2, out)"
    using r(1) by (auto simp: Commit_def a1_def d_def Let_def)
  have "same_tx t a a2" if "t \<noteq> tid" for t
    using r(3,5,6,7) that unfolding same_tx_def h by (simp add: a1_def)
  then show thesis using that c r by (auto simp: a1_def d_def)
qed

lemma Commit_mutex:
  assumes "locks_ok a" "locked_names a tid lnames" "Commit a tid doIt cnames pnames lnames = Inr (a', out)"
  shows "mutex a' acct = (case holds a acct tid of None \<Rightarrow> mutex a acct | Some r \<Rightarrow> map_option (unlocked r) (mutex a acct))"
proof -
  define d where "d = (if doIt then commit_loop (map_get Map.empty (cache a) tid) (committedData a) cnames
      else committedData a)"
  define a1 where "a1 = a\<lparr>committedData := d, cache := (cache a)(tid := None)\<rparr>"
  have h: "holds a1 = holds a" "mutex a1 = mutex a" by (simp_all add: a1_def fun_eq_iff holds_def mutex_def)
  have ok1: "locks_ok a1"
    using assms(1) unfolding locks_ok_def h by (auto simp: a1_def nested_get_def)
  have names: "distinct lnames" "set lnames = dom (map_get Map.empty (txLockInfo a1) tid)"
    using assms(2) by (simp_all add: locked_names_def a1_def)
  have "Commit a tid doIt cnames pnames lnames =
      bind_result (releaseLocks a1 tid lnames) (\<lambda>app2. Inr (app2, if doIt then print_balances d pnames else []))"
    by (cases doIt; cases a) (simp_all add: Commit_def a1_def d_def Let_def)
  then have "releaseLocks a1 tid lnames = Inr a'" using assms(3) by (cases "releaseLocks a1 tid lnames") simp_all
  then show ?thesis using releaseLocks_mutex [OF _ ok1 names] unfolding h by blast
qed

lemma mutex_released:
  assumes "locks_ok a" "locked_names a tid lnames" "Commit a tid doIt cnames pnames lnames = Inr (a', out)"
  shows "case holds a acct tid of
       None \<Rightarrow> mutex a' acct = mutex a acct
     | Some isRead \<Rightarrow>
         if isRead then
           \<exists>n. mutex a acct = Some \<lparr>readers = Suc n, writer = False\<rparr> \<and>
               mutex a' acct = Some \<lparr>readers = n, writer = False\<rparr>
         else
           mutex a acct = Some \<lparr>readers = 0, writer = True\<rparr> \<and>
           mutex a' acct = Some \<lparr>readers = 0, writer = False\<rparr>"
proof (cases "holds a acct tid")
  case (Some r)
  obtain mu where mu: "mutex a acct = Some mu"
    "if r then \<not> writer mu \<and> 0 < readers mu else writer mu \<and> readers mu = 0"
    using locks_ok_mutex [OF assms(1) Some] by blast
  have "mutex a' acct = Some (unlocked r mu)" using Commit_mutex [OF assms, of acct] Some mu(1) by simp
  then show ?thesis
    using Some mu by (cases mu; cases "readers mu"; cases r) (auto simp: unlocked_def)
qed (use Commit_mutex [OF assms, of acct] in simp)

subsection \<open>The invariant of a branch\<close>

definition own_change :: "TxApp \<Rightarrow> string \<Rightarrow> string \<Rightarrow> goint" where
  "own_change a tid acct = map_get 0 (map_get Map.empty (cache a) tid) acct"

definition wait_ok :: "branch_state \<Rightarrow> bool" where
  "wait_ok b \<longleftrightarrow> (\<forall>tid cmd. waiting b tid = Some cmd \<longrightarrow> Tid cmd = tid \<and> tid \<notin> prepared b \<and> waits_ok (app b) cmd)"

definition prep_ok :: "branch_state \<Rightarrow> bool" where
  "prep_ok b \<longleftrightarrow> (\<forall>tid \<in> prepared b. \<forall>acct. holds (app b) acct tid \<noteq> None \<longrightarrow>
     0 \<le> sint (map_get 0 (committedData (app b)) acct + own_change (app b) tid acct))"

definition no_debt :: "branch_state \<Rightarrow> bool" where
  "no_debt b \<longleftrightarrow> (\<forall>acct. 0 \<le> sint (map_get 0 (committedData (app b)) acct))"

definition binv :: "branch_state \<Rightarrow> bool" where
  "binv b \<longleftrightarrow> locks_ok (app b) \<and> wait_ok b \<and> prep_ok b \<and> no_debt b"

lemma binv_init: "binv binit"
  by (simp add: binv_def binit_def locks_ok_def wait_ok_def prep_ok_def no_debt_def holds_def nested_get_def)

lemma same_tx_waits: "same_tx (Tid cmd) a a' \<Longrightarrow> waits_ok a cmd \<Longrightarrow> waits_ok a' cmd"
  by (auto simp: same_tx_def waits_ok_def dom_def subset_iff)

lemma same_tx_change: "same_tx t a a' \<Longrightarrow> own_change a' t acct = own_change a t acct"
  by (simp add: same_tx_def own_change_def map_get_def)

text \<open>A call for transaction \<open>tid\<close> that changes no committed balance.\<close>

lemma binv_call:
  assumes inv: "binv b" and tid: "tid \<notin> prepared b"
    and a: "locks_ok a" "committedData a = committedData (app b)" "\<And>t. t \<noteq> tid \<Longrightarrow> same_tx t (app b) a"
    and w: "\<And>t. t \<noteq> tid \<Longrightarrow> w t = waiting b t" "\<And>cmd. w tid = Some cmd \<Longrightarrow> Tid cmd = tid \<and> waits_ok a cmd"
  shows "binv (b\<lparr>app := a, waiting := w\<rparr>)"
proof -
  have "wait_ok (b\<lparr>app := a, waiting := w\<rparr>)"
    unfolding wait_ok_def
  proof (intro allI impI)
    fix t cmd assume t: "waiting (b\<lparr>app := a, waiting := w\<rparr>) t = Some cmd"
    show "Tid cmd = t \<and> t \<notin> prepared (b\<lparr>app := a, waiting := w\<rparr>) \<and> waits_ok (app (b\<lparr>app := a, waiting := w\<rparr>)) cmd"
    proof (cases "t = tid")
      case True
      then show ?thesis using t w(2) tid by simp
    next
      case False
      then have "waiting b t = Some cmd" using t w(1) by simp
      then have "Tid cmd = t" "t \<notin> prepared b" "waits_ok (app b) cmd" using inv unfolding binv_def wait_ok_def by blast+
      then show ?thesis using same_tx_waits a(3) [OF False] by auto
    qed
  qed
  moreover have "prep_ok (b\<lparr>app := a, waiting := w\<rparr>)"
    unfolding prep_ok_def
  proof (intro ballI allI impI)
    fix t acct assume t: "t \<in> prepared (b\<lparr>app := a, waiting := w\<rparr>)" "holds (app (b\<lparr>app := a, waiting := w\<rparr>)) acct t \<noteq> None"
    have "t \<noteq> tid" using t(1) tid by auto
    then have s: "same_tx t (app b) a" by (rule a(3))
    then have "holds (app b) acct t \<noteq> None" using t(2) by (simp add: same_tx_def)
    then show "0 \<le> sint (map_get 0 (committedData (app (b\<lparr>app := a, waiting := w\<rparr>))) acct +
        own_change (app (b\<lparr>app := a, waiting := w\<rparr>)) t acct)"
      using inv t(1) same_tx_change [OF s] a(2) unfolding binv_def prep_ok_def by simp
  qed
  ultimately show ?thesis using inv a(1,2) by (simp add: binv_def no_debt_def)
qed

lemma same_tx_wait_ok:
  assumes "wait_ok b" "waiting b tid = None" "\<And>t. t \<noteq> tid \<Longrightarrow> same_tx t (app b) a" "P \<subseteq> prepared b"
  shows "wait_ok (b\<lparr>app := a, prepared := P\<rparr>)"
  unfolding wait_ok_def
proof (intro allI impI)
  fix t cmd assume "waiting (b\<lparr>app := a, prepared := P\<rparr>) t = Some cmd"
  then have t: "waiting b t = Some cmd" by simp
  then have "t \<noteq> tid" "Tid cmd = t" "t \<notin> prepared b" "waits_ok (app b) cmd"
    using assms(1,2) unfolding wait_ok_def by auto
  then show "Tid cmd = t \<and> t \<notin> prepared (b\<lparr>app := a, prepared := P\<rparr>) \<and>
      waits_ok (app (b\<lparr>app := a, prepared := P\<rparr>)) cmd"
    using same_tx_waits assms(3,4) by auto
qed

text \<open>Committing changes only balances that the transaction holds the write lock of.\<close>

lemma commit_isolated:
  assumes "locks_ok a" "changed_names a tid cnames" "holds a acct t \<noteq> None" "t \<noteq> tid"
  shows "commit_loop (map_get Map.empty (cache a) tid) (committedData a) cnames acct = committedData a acct"
proof -
  have "acct \<notin> set cnames"
  proof
    assume "acct \<in> set cnames"
    then obtain c where "map_get Map.empty (cache a) tid acct = Some c" using assms(2) by (auto simp: changed_names_def)
    then have "holds a acct tid = Some False" by (rule changes_held [OF assms(1)])
    then show False using holds_exclusive [OF assms(1)] assms(3,4) by blast
  qed
  then show ?thesis using assms(2) by (simp add: commit_loop_apply changed_names_def)
qed

lemma binv_step: "bstep branch b b' \<Longrightarrow> binv b \<Longrightarrow> binv b'"
proof (induction rule: bstep.induct)
  case (call_wait b cmd a)
  have ok: "locks_ok (app b)" using call_wait(4) by (simp add: binv_def)
  obtain a' r where s: "ForwardCmd_start branch (app b) cmd = Inr (a', r)" "locks_ok a'" "committedData a' = committedData (app b)"
    "\<And>t. t \<noteq> Tid cmd \<Longrightarrow> same_tx t (app b) a'" "r = Wait \<Longrightarrow> waits_ok a' cmd"
    using ForwardCmd_start_ok [OF ok, of branch cmd] by blast
  then show ?case using call_wait by (intro binv_call [of b "Tid cmd"]) auto
next
  case (call_done b cmd a r)
  have ok: "locks_ok (app b)" using call_done(4) by (simp add: binv_def)
  obtain a' r' where s: "ForwardCmd_start branch (app b) cmd = Inr (a', r')" "locks_ok a'" "committedData a' = committedData (app b)"
    "\<And>t. t \<noteq> Tid cmd \<Longrightarrow> same_tx t (app b) a'"
    using ForwardCmd_start_ok [OF ok, of branch cmd] by blast
  then have "binv (b\<lparr>app := a, waiting := waiting b\<rparr>)" using call_done by (intro binv_call [of b "Tid cmd"]) auto
  then show ?case by simp
next
  case (grant b tid cmd a r)
  have ok: "locks_ok (app b)" "Tid cmd = tid" "tid \<notin> prepared b" "waits_ok (app b) cmd"
    using grant(1,3) by (auto simp: binv_def wait_ok_def)
  obtain a' r' where s: "Inr (a, r) = (Inr (a', r') :: (TxApp \<times> string) result)" "locks_ok a'"
    "committedData a' = committedData (app b)" "\<And>t. t \<noteq> Tid cmd \<Longrightarrow> same_tx t (app b) a'"
    using ForwardCmd_finish_ok [OF ok(1,4) grant(2)] by blast
  then show ?case using grant(3) ok(2,3) by (intro binv_call [of b tid]) auto
next
  case (prepare b tid names)
  have "0 \<le> sint (map_get 0 (committedData (app b)) acct + own_change (app b) tid acct)"
    if "holds (app b) acct tid \<noteq> None" for acct
  proof -
    have "nested_get (txLockInfo (app b)) tid acct \<noteq> None"
      using locks_okD(2) [of "app b" tid acct] prepare(4) that by (simp add: binv_def)
    then have "acct \<in> set names" using prepare(2) by (auto simp: locked_names_def nested_get_def map_get_def split: option.splits)
    then show ?thesis using prepare(3) by (simp add: Prepare_def prepare_loop_iff own_change_def)
  qed
  then show ?case using prepare(1,4) by (auto simp: binv_def wait_ok_def prep_ok_def no_debt_def)
next
  case (commit tid b cnames lnames pnames a out)
  have ok: "locks_ok (app b)" "wait_ok b" "prep_ok b" "no_debt b" using commit(5) by (simp_all add: binv_def)
  obtain a' out' where c: "Commit (app b) tid True cnames pnames lnames = Inr (a', out')" "locks_ok a'"
    "committedData a' = commit_loop (map_get Map.empty (cache (app b)) tid) (committedData (app b)) cnames"
    "\<And>t. t \<noteq> tid \<Longrightarrow> same_tx t (app b) a'"
    by (rule Commit_ok [OF ok(1) commit(3), of True cnames pnames]) simp
  have a: "a = a'" using c(1) commit(4) by simp
  have "waiting b tid = None" using ok(2) commit(1) unfolding wait_ok_def by (cases "waiting b tid") auto
  then have "wait_ok (b\<lparr>app := a', prepared := prepared b - {tid}\<rparr>)"
    using same_tx_wait_ok [OF ok(2) _ c(4)] by blast
  moreover have "prep_ok (b\<lparr>app := a', prepared := prepared b - {tid}\<rparr>)"
    unfolding prep_ok_def
  proof (intro ballI allI impI, simp)
    fix t acct assume t: "t \<in> prepared b \<and> t \<noteq> tid" "\<exists>y. holds a' acct t = Some y"
    then have s: "same_tx t (app b) a'" using c(4) by blast
    then have h: "holds (app b) acct t \<noteq> None" using t(2) by (auto simp: same_tx_def)
    then have "committedData a' acct = committedData (app b) acct"
      using commit_isolated [OF ok(1) commit(2) h] t(1) c(3) by simp
    then show "0 \<le> sint (map_get 0 (committedData a') acct + own_change a' t acct)"
      using ok(3) t(1) h same_tx_change [OF s] unfolding prep_ok_def by (simp add: map_get_def)
  qed
  moreover have "no_debt (b\<lparr>app := a', prepared := prepared b - {tid}\<rparr>)"
    unfolding no_debt_def
  proof (intro allI, simp)
    fix acct
    show "0 \<le> sint (map_get 0 (committedData a') acct)"
    proof (cases "acct \<in> set cnames")
      case True
      then obtain ch where "map_get Map.empty (cache (app b)) tid acct = Some ch"
        using commit(2) by (auto simp: changed_names_def)
      then have "holds (app b) acct tid = Some False" by (rule changes_held [OF ok(1)])
      then have "0 \<le> sint (map_get 0 (committedData (app b)) acct + own_change (app b) tid acct)"
        using ok(3) commit(1) unfolding prep_ok_def by auto
      then show ?thesis using True commit(2) c(3) by (simp add: commit_loop_apply changed_names_def own_change_def map_get_def)
    next
      case False
      then have "committedData a' acct = committedData (app b) acct"
        using commit(2) c(3) by (simp add: commit_loop_apply changed_names_def)
      then show ?thesis using ok(4) unfolding no_debt_def by (simp add: map_get_def)
    qed
  qed
  ultimately show ?case using c(2) a by (simp add: binv_def)
next
  case (abort b tid lnames cnames pnames a out)
  have ok: "locks_ok (app b)" "wait_ok b" "prep_ok b" "no_debt b" using abort(4) by (simp_all add: binv_def)
  obtain a' out' where c: "Commit (app b) tid False cnames pnames lnames = Inr (a', out')" "locks_ok a'"
    "committedData a' = committedData (app b)" "\<And>t. t \<noteq> tid \<Longrightarrow> same_tx t (app b) a'"
    by (rule Commit_ok [OF ok(1) abort(2), of False cnames pnames]) simp
  have a: "a = a'" using c(1) abort(3) by simp
  have "wait_ok (b\<lparr>app := a', prepared := prepared b - {tid}\<rparr>)"
    using same_tx_wait_ok [OF ok(2) abort(1) c(4)] by blast
  moreover have "prep_ok (b\<lparr>app := a', prepared := prepared b - {tid}\<rparr>)"
    unfolding prep_ok_def
  proof (intro ballI allI impI, simp)
    fix t acct assume t: "t \<in> prepared b \<and> t \<noteq> tid" "\<exists>y. holds a' acct t = Some y"
    then have s: "same_tx t (app b) a'" using c(4) by blast
    then have h: "holds (app b) acct t \<noteq> None" using t(2) by (auto simp: same_tx_def)
    then show "0 \<le> sint (map_get 0 (committedData a') acct + own_change a' t acct)"
      using ok(3) t(1) c(3) same_tx_change [OF s] unfolding prep_ok_def by simp
  qed
  ultimately show ?case using c(2,3) a ok(4) by (simp add: binv_def no_debt_def)
qed

lemma breach_binv: "breach branch b \<Longrightarrow> binv b"
  by (induction rule: breach.induct) (auto intro: binv_init binv_step)

subsection \<open>Properties of a branch\<close>

text \<open>
  Mutual exclusion. In every reachable state of a branch, a transaction that is registered
  as the writer of an account is the only transaction registered with its lock.
\<close>

theorem tx_write_exclusive:
  assumes "breach branch b" "holds (app b) acct t = Some False" "holds (app b) acct u \<noteq> None"
  shows "u = t"
  using holds_exclusive [OF _ assms(2,3)] breach_binv [OF assms(1)] by (simp add: binv_def)

text \<open>
  Consistency. No committed balance of a reachable branch is negative, when commits follow
  a successful \<^verbatim>\<open>Prepare\<close> of the transaction: what \<^verbatim>\<open>Prepare\<close> checked still holds when \<^verbatim>\<open>Commit\<close>
  adds the changes, although other transactions commit in between.
\<close>

theorem tx_no_debt:
  assumes "breach branch b"
  shows "0 \<le> sint (map_get 0 (committedData (app b)) acct)"
  using breach_binv [OF assms] by (simp add: binv_def no_debt_def)

text \<open>
  Isolation. While a transaction is registered with the lock of an account, for reading or
  for writing, the commit of another transaction does not change the committed balance.
\<close>

theorem tx_commit_isolated:
  assumes "breach branch b" "holds (app b) acct t \<noteq> None" "t \<noteq> tid"
    and "changed_names (app b) tid cnames" "locked_names (app b) tid lnames"
    and "Commit (app b) tid doIt cnames pnames lnames = Inr (a, out)"
  shows "committedData a acct = committedData (app b) acct"
proof -
  have ok: "locks_ok (app b)" using breach_binv [OF assms(1)] by (simp add: binv_def)
  obtain a' out' where c: "Commit (app b) tid doIt cnames pnames lnames = Inr (a', out')"
    "committedData a' = (if doIt then commit_loop (map_get Map.empty (cache (app b)) tid) (committedData (app b)) cnames
       else committedData (app b))"
    by (rule Commit_ok [OF ok assms(5), of doIt cnames pnames])
  then show ?thesis using commit_isolated [OF ok assms(4,2,3)] assms(6) by auto
qed

text \<open>
  C18: Commit and abort. Ending a transaction at a reachable branch succeeds, adds exactly the
  changes of the transaction to the committed balances (none when it is aborted), forgets its
  changes, and leaves it registered with no lock; other transactions keep their locks and changes.
  The mutex of an account that it was registered with as writer is free afterwards; one that it
  was registered with as reader is unlocked for reading exactly once, so that a mutex which the
  transaction has locked twice for reading stays locked (\<open>tx_balance_twice_leaks_lock\<close>); the
  mutexes of the other accounts are not touched.
\<close>

theorem tx_commit_effect:
  assumes "breach branch b" "changed_names (app b) tid cnames" "locked_names (app b) tid lnames"
  shows "\<exists>a out. Commit (app b) tid doIt cnames pnames lnames = Inr (a, out) \<and>
    (\<forall>acct. committedData a acct =
       (case nested_get (cache (app b)) tid acct of
          Some c \<Rightarrow> if doIt then Some (map_get 0 (committedData (app b)) acct + c) else committedData (app b) acct
        | None \<Rightarrow> committedData (app b) acct)) \<and>
    cache a tid = None \<and> txLockInfo a tid = None \<and> (\<forall>acct. holds a acct tid = None) \<and>
    (\<forall>acct. case holds (app b) acct tid of
       None \<Rightarrow> mutex a acct = mutex (app b) acct
     | Some isRead \<Rightarrow>
         if isRead then
           \<exists>n. mutex (app b) acct = Some \<lparr>readers = Suc n, writer = False\<rparr> \<and>
               mutex a acct = Some \<lparr>readers = n, writer = False\<rparr>
         else
           mutex (app b) acct = Some \<lparr>readers = 0, writer = True\<rparr> \<and>
           mutex a acct = Some \<lparr>readers = 0, writer = False\<rparr>) \<and>
    (\<forall>t. t \<noteq> tid \<longrightarrow> cache a t = cache (app b) t \<and> (\<forall>acct. holds a acct t = holds (app b) acct t))"
proof -
  have ok: "locks_ok (app b)" using breach_binv [OF assms(1)] by (simp add: binv_def)
  obtain a out where c: "Commit (app b) tid doIt cnames pnames lnames = Inr (a, out)" "locks_ok a"
    "committedData a = (if doIt then commit_loop (map_get Map.empty (cache (app b)) tid) (committedData (app b)) cnames
       else committedData (app b))" "cache a = (cache (app b))(tid := None)" "txLockInfo a = (txLockInfo (app b))(tid := None)"
    "\<And>acct. holds a acct tid = None" "\<And>t. t \<noteq> tid \<Longrightarrow> same_tx t (app b) a"
    by (rule Commit_ok [OF ok assms(3), of doIt cnames pnames], rule that)
  have "committedData a acct =
       (case nested_get (cache (app b)) tid acct of
          Some c \<Rightarrow> if doIt then Some (map_get 0 (committedData (app b)) acct + c) else committedData (app b) acct
        | None \<Rightarrow> committedData (app b) acct)" for acct
    using assms(2) unfolding c(3)
    by (auto simp: commit_loop_apply changed_names_def nested_get_def map_get_def dom_def split: option.splits)
  moreover have "holds a acct t = holds (app b) acct t" if "t \<noteq> tid" for acct t
    using c(7) [OF that] by (simp add: same_tx_def)
  moreover note mutex_released [OF ok assms(3) c(1)]
  ultimately show ?thesis using c(1,4-6) by auto
qed

text \<open>
  C21: No crash. At a reachable branch no call of \<^verbatim>\<open>ForwardCmd\<close> panics, neither when it arrives nor
  when its lock is granted: no unlock of an unlocked mutex, no write to a nil map.
\<close>

theorem tx_calls_never_crash:
  assumes "breach branch b"
  shows "is_ok (ForwardCmd_start branch (app b) cmd) \<and>
    (waiting b tid = Some cmd' \<longrightarrow> ForwardCmd_finish branch (app b) cmd' = Some res \<longrightarrow> is_ok res)"
proof -
  have ok: "locks_ok (app b)" "wait_ok b" using breach_binv [OF assms] by (simp_all add: binv_def)
  have "is_ok (ForwardCmd_start branch (app b) cmd)"
    by (rule ForwardCmd_start_ok [OF ok(1), of branch cmd]) simp
  moreover have "is_ok res" if "waiting b tid = Some cmd'" "ForwardCmd_finish branch (app b) cmd' = Some res"
  proof -
    have "waits_ok (app b) cmd'" using ok(2) that(1) unfolding wait_ok_def by blast
    then show ?thesis using ForwardCmd_finish_ok [OF ok(1) _ that(2)] by (metis is_ok_simps(1))
  qed
  ultimately show ?thesis by blast
qed

end
