(* ===== verification/Tx_Runs.thy ===== *)
theory Tx_Runs
  imports Tx_Branch
begin

section \<open>Transactions: concrete runs of a branch\<close>

text \<open>
  Calls of three transactions at branch A, evaluated with the definitions of the code: \<open>t1\<close>
  deposits into an account and commits, \<open>t2\<close> reads the balance twice and commits, \<open>t3\<close> deposits
  into the same account. The first calls give states in which the hypotheses of the properties
  hold; the whole run shows that the second read of \<open>t2\<close> leaves a read lock behind.
\<close>

definition dep1 :: Command where
  "dep1 = \<lparr>Tid = ''t1'', Branch = ''A'', Account = ''x'', Method = ''DEPOSIT'', Amount_c = 5\<rparr>"

definition bal2 :: Command where
  "bal2 = \<lparr>Tid = ''t2'', Branch = ''A'', Account = ''x'', Method = ''BALANCE'', Amount_c = - 1\<rparr>"

definition dep3 :: Command where
  "dep3 = \<lparr>Tid = ''t3'', Branch = ''A'', Account = ''x'', Method = ''DEPOSIT'', Amount_c = 1\<rparr>"

text \<open>The result of a call, where it is a value.\<close>

definition ok_of :: "(TxApp \<times> 'r) result \<Rightarrow> TxApp" where
  "ok_of r = (case r of Inl _ \<Rightarrow> app binit | Inr (a, _) \<Rightarrow> a)"

definition started :: "Command \<Rightarrow> TxApp \<Rightarrow> TxApp" where
  "started cmd a = ok_of (ForwardCmd_start ''A'' a cmd)"

definition granted :: "Command \<Rightarrow> TxApp \<Rightarrow> TxApp" where
  "granted cmd a = (case ForwardCmd_finish ''A'' a cmd of None \<Rightarrow> app binit | Some r \<Rightarrow> ok_of r)"

definition committed :: "string \<Rightarrow> string list \<Rightarrow> string list \<Rightarrow> TxApp \<Rightarrow> TxApp" where
  "committed tid cnames lnames a = ok_of (Commit a tid True cnames [''x''] lnames)"

definition st1 :: TxApp where "st1 = granted dep1 (started dep1 (app binit))"
definition st2 :: TxApp where "st2 = committed ''t1'' [''x''] [''x''] st1"
definition st3 :: TxApp where "st3 = granted bal2 (started bal2 st2)"
definition st4 :: TxApp where "st4 = granted bal2 (started bal2 st3)"
definition st5 :: TxApp where "st5 = committed ''t2'' [] [''x''] st4"
definition st6 :: TxApp where "st6 = started dep3 st5"

definition idle_state :: "TxApp \<Rightarrow> branch_state" where
  "idle_state a = \<lparr>app = a, waiting = Map.empty, prepared = {}\<rparr>"

lemmas eval_defs = ok_of_def started_def granted_def committed_def binit_def ForwardCmd_start_def ForwardCmd_finish_def
  fwd_init_def fwd_body_def acquire_start_def acquire_finish_def Deposit_body_def Balance_body_def Commit_def
  releaseLocks_def nested_put_def nested_get_def nested_delete_def rw_new_def rw_Lock_def rw_RLock_def rw_Unlock_def
  rw_RUnlock_def map_get_def dep1_def bal2_def dep3_def NF_ABRT_def Let_def numeral_2_eq_2

lemma st1_eq: "st1 = \<lparr>locks = [''x'' \<mapsto> \<lparr>rwMu = \<lparr>readers = 0, writer = True\<rparr>, tids = [''t1'' \<mapsto> False]\<rparr>],
    txLockInfo = [''t1'' \<mapsto> [''x'' \<mapsto> False]], committedData = Map.empty, cache = [''t1'' \<mapsto> [''x'' \<mapsto> 5]]\<rparr>"
  by (simp add: st1_def eval_defs)

lemma st2_eq: "st2 = \<lparr>locks = [''x'' \<mapsto> \<lparr>rwMu = \<lparr>readers = 0, writer = False\<rparr>, tids = Map.empty\<rparr>],
    txLockInfo = Map.empty, committedData = [''x'' \<mapsto> 5], cache = Map.empty\<rparr>"
  by (simp add: st2_def st1_eq eval_defs)

lemma st3_eq: "st3 = \<lparr>locks = [''x'' \<mapsto> \<lparr>rwMu = \<lparr>readers = 1, writer = False\<rparr>, tids = [''t2'' \<mapsto> True]\<rparr>],
    txLockInfo = [''t2'' \<mapsto> [''x'' \<mapsto> True]], committedData = [''x'' \<mapsto> 5], cache = [''t2'' \<mapsto> Map.empty]\<rparr>"
  by (simp add: st3_def st2_eq eval_defs)

lemma st4_eq: "st4 = st3\<lparr>locks := [''x'' \<mapsto> \<lparr>rwMu = \<lparr>readers = 2, writer = False\<rparr>, tids = [''t2'' \<mapsto> True]\<rparr>]\<rparr>"
  by (simp add: st4_def st3_eq eval_defs)

lemma st5_eq: "st5 = \<lparr>locks = [''x'' \<mapsto> \<lparr>rwMu = \<lparr>readers = 1, writer = False\<rparr>, tids = Map.empty\<rparr>],
    txLockInfo = Map.empty, committedData = [''x'' \<mapsto> 5], cache = Map.empty\<rparr>"
  by (simp add: st5_def st4_eq st3_eq eval_defs)

lemma call_finished:
  assumes "breach ''A'' (idle_state a)"
    "ForwardCmd_start ''A'' a cmd = Inr (started cmd a, Wait)"
    "ForwardCmd_finish ''A'' (started cmd a) cmd = Some (Inr (granted cmd (started cmd a), r))"
  shows "breach ''A'' (idle_state (granted cmd (started cmd a)))"
proof -
  have "bstep ''A'' (idle_state a) \<lparr>app = started cmd a, waiting = [Tid cmd \<mapsto> cmd], prepared = {}\<rparr>"
    using bstep.call_wait [of "idle_state a" cmd "''A''" "started cmd a"] assms(2) by (simp add: idle_state_def)
  moreover have "bstep ''A'' \<lparr>app = started cmd a, waiting = [Tid cmd \<mapsto> cmd], prepared = {}\<rparr> (idle_state (granted cmd (started cmd a)))"
    using bstep.grant [of "\<lparr>app = started cmd a, waiting = [Tid cmd \<mapsto> cmd], prepared = {}\<rparr>" "Tid cmd" cmd "''A''"]
      assms(3) by (simp add: idle_state_def)
  ultimately show ?thesis using assms(1) breach.step by blast
qed

lemma tx_finished:
  assumes "breach ''A'' (idle_state a)" "locked_names a tid lnames" "changed_names a tid cnames" "Prepare a tid lnames"
    "Commit a tid True cnames [''x''] lnames = Inr (committed tid cnames lnames a, out)"
  shows "breach ''A'' (idle_state (committed tid cnames lnames a))"
proof -
  have "bstep ''A'' (idle_state a) \<lparr>app = a, waiting = Map.empty, prepared = {tid}\<rparr>"
    using bstep.prepare [of "idle_state a" tid lnames "''A''"] assms(2,4) by (simp add: idle_state_def)
  moreover have "bstep ''A'' \<lparr>app = a, waiting = Map.empty, prepared = {tid}\<rparr> (idle_state (committed tid cnames lnames a))"
    using bstep.commit [of tid "\<lparr>app = a, waiting = Map.empty, prepared = {tid}\<rparr>" cnames lnames "[''x'']" _ out "''A''"] assms(2,3,5)
    by (simp add: idle_state_def)
  ultimately show ?thesis using assms(1) breach.step by blast
qed

lemma reach_st1: "breach ''A'' (idle_state st1)"
proof -
  have "breach ''A'' (idle_state (app binit))" using breach.start by (simp add: idle_state_def binit_def)
  then show ?thesis unfolding st1_def by (rule call_finished) (simp_all add: eval_defs)
qed

lemma reach_st2: "breach ''A'' (idle_state st2)"
  unfolding st2_def
  by (rule tx_finished [OF reach_st1]) (simp_all add: st1_eq locked_names_def changed_names_def Prepare_def eval_defs)

lemma reach_st3: "breach ''A'' (idle_state st3)"
  unfolding st3_def by (rule call_finished [OF reach_st2]) (simp_all add: st2_eq eval_defs)

lemma reach_st4: "breach ''A'' (idle_state st4)"
  unfolding st4_def by (rule call_finished [OF reach_st3]) (simp_all add: st3_eq eval_defs)

lemma reach_st5: "breach ''A'' (idle_state st5)"
  unfolding st5_def
  by (rule tx_finished [OF reach_st4]) (simp_all add: st4_eq st3_eq locked_names_def changed_names_def Prepare_def eval_defs)

lemma app_idle [simp]: "app (idle_state a) = a" "waiting (idle_state a) = Map.empty" "prepared (idle_state a) = {}"
  by (simp_all add: idle_state_def)

subsection \<open>The properties on these states\<close>

theorem tx_write_exclusive_witness:
  "breach ''A'' (idle_state st1) \<and> holds st1 ''x'' ''t1'' = Some False \<and> {u. holds st1 ''x'' u \<noteq> None} = {''t1''}"
proof -
  have h: "holds (app (idle_state st1)) ''x'' ''t1'' = Some False" by (simp add: st1_eq holds_def)
  have "u = ''t1''" if "holds st1 ''x'' u \<noteq> None" for u
    using tx_write_exclusive [OF reach_st1 h, of u] that by simp
  then show ?thesis using reach_st1 h by auto
qed

theorem tx_no_debt_witness: "breach ''A'' (idle_state st2) \<and> committedData st2 ''x'' = Some 5 \<and> 0 \<le> sint (5 :: goint)"
  using tx_no_debt [OF reach_st2, of "''x''"] reach_st2 by (simp add: st2_eq)

theorem tx_commit_isolated_witness:
  "holds st3 ''x'' ''t2'' = Some True \<and> (\<exists>a out. Commit st3 ''t1'' True [] [] [] = Inr (a, out) \<and> committedData a ''x'' = Some 5)"
proof -
  have h: "holds (app (idle_state st3)) ''x'' ''t2'' \<noteq> None" by (simp add: st3_eq holds_def)
  have n: "changed_names (app (idle_state st3)) ''t1'' []" "locked_names (app (idle_state st3)) ''t1'' []"
    by (simp_all add: st3_eq changed_names_def locked_names_def)
  obtain a out where c: "Commit (app (idle_state st3)) ''t1'' True [] [] [] = Inr (a, out)"
    by (simp add: st3_eq eval_defs)
  have "committedData a ''x'' = Some 5"
    using tx_commit_isolated [OF reach_st3 h _ n c] by (simp add: st3_eq)
  then show ?thesis using c by (simp add: st3_eq holds_def)
qed

theorem tx_commit_effect_witness:
  "\<exists>a out. Commit st1 ''t1'' True [''x''] [''x''] [''x''] = Inr (a, out) \<and> committedData a ''x'' = Some 5 \<and>
     cache a ''t1'' = None \<and> holds a ''x'' ''t1'' = None \<and>
     mutex st1 ''x'' = Some \<lparr>readers = 0, writer = True\<rparr> \<and> mutex a ''x'' = Some \<lparr>readers = 0, writer = False\<rparr>"
proof -
  have n: "changed_names (app (idle_state st1)) ''t1'' [''x'']" "locked_names (app (idle_state st1)) ''t1'' [''x'']"
    by (simp_all add: st1_eq changed_names_def locked_names_def map_get_def)
  have h: "holds st1 ''x'' ''t1'' = Some False" by (simp add: st1_eq holds_def)
  obtain a out where c: "Commit st1 ''t1'' True [''x''] [''x''] [''x''] = Inr (a, out)"
    "committedData a ''x'' = (case nested_get (cache st1) ''t1'' ''x'' of
       Some c \<Rightarrow> if True then Some (map_get 0 (committedData st1) ''x'' + c) else committedData st1 ''x''
     | None \<Rightarrow> committedData st1 ''x'')"
    "cache a ''t1'' = None" "holds a ''x'' ''t1'' = None"
    "case holds st1 ''x'' ''t1'' of
       None \<Rightarrow> mutex a ''x'' = mutex st1 ''x''
     | Some isRead \<Rightarrow>
         if isRead then
           \<exists>n. mutex st1 ''x'' = Some \<lparr>readers = Suc n, writer = False\<rparr> \<and>
               mutex a ''x'' = Some \<lparr>readers = n, writer = False\<rparr>
         else
           mutex st1 ''x'' = Some \<lparr>readers = 0, writer = True\<rparr> \<and>
           mutex a ''x'' = Some \<lparr>readers = 0, writer = False\<rparr>"
    using tx_commit_effect [OF reach_st1 n, of True "[''x'']"] unfolding app_idle
    by (elim exE conjE) (rule that; (assumption | (drule spec [of _ "''x''"], assumption)))
  have "committedData a ''x'' = Some 5" using c(2) by (simp add: st1_eq nested_get_def map_get_def)
  then show ?thesis using c(1,3-5) unfolding h by simp
qed

theorem tx_calls_never_crash_witness: "breach ''A'' (idle_state st3) \<and> is_ok (ForwardCmd_start ''A'' st3 dep3)"
  using tx_calls_never_crash [OF reach_st3, of dep3] reach_st3 by simp

subsection \<open>A read lock that stays behind\<close>

text \<open>
  A second \<^verbatim>\<open>BALANCE\<close> of the same account by the same transaction locks the mutex for reading
  again, but the lock table has one entry, and ending the transaction unlocks it once. The
  branch then reaches a state in which no transaction is registered with the lock, and yet the
  next deposit waits for it and cannot get it.
\<close>

theorem tx_balance_twice_leaks_lock:
  "\<exists>b. breach ''A'' b \<and> (\<forall>t. holds (app b) ''x'' t = None) \<and> waiting b ''t3'' = Some dep3 \<and>
     ForwardCmd_finish ''A'' (app b) dep3 = None"
proof -
  let ?b = "\<lparr>app = st6, waiting = [''t3'' \<mapsto> dep3], prepared = {}\<rparr>"
  have s: "ForwardCmd_start ''A'' st5 dep3 = Inr (st6, Wait)" by (simp add: st6_def st5_eq eval_defs)
  have "bstep ''A'' (idle_state st5) ?b"
    using bstep.call_wait [of "idle_state st5" dep3 "''A''" st6] s by (simp add: idle_state_def dep3_def)
  then have "breach ''A'' ?b" using reach_st5 breach.step by blast
  moreover have st6: "st6 = \<lparr>locks = [''x'' \<mapsto> \<lparr>rwMu = \<lparr>readers = 1, writer = False\<rparr>, tids = Map.empty\<rparr>],
      txLockInfo = [''t3'' \<mapsto> Map.empty], committedData = [''x'' \<mapsto> 5], cache = [''t3'' \<mapsto> Map.empty]\<rparr>"
    by (simp add: st6_def st5_eq eval_defs)
  have "(\<forall>t. holds (app ?b) ''x'' t = None) \<and> ForwardCmd_finish ''A'' (app ?b) dep3 = None"
    by (simp add: st6 holds_def eval_defs)
  ultimately show ?thesis by (intro exI [of _ ?b]) simp
qed

end
