(* ===== verification/Tx_Coord.thy ===== *)
theory Tx_Coord
  imports Tx_Branch
begin

section \<open>Transactions: coordinator, configuration and client\<close>

text \<open>
  \<^verbatim>\<open>transactions-demo/server/server.go\<close>, the coordinator part of \<^verbatim>\<open>server/rpc.go\<close>, and
  \<^verbatim>\<open>client/client.go\<close>. A call of \<^verbatim>\<open>SendCoord\<close> runs until it calls a branch: \<open>SendCoord\<close> gives the
  new state of the coordinator and what it does next. \<open>dial\<close> says whether \<^verbatim>\<open>rpc.Dial\<close> reaches an
  address. The replies of the branches come in as lists, in the order in which the channel
  delivers them. The identifier of the client, its random choice of a coordinator and the
  replies it gets are arguments.
\<close>

subsection \<open>State and configuration of a server\<close>

record branchAddr =
  addr :: string
  bport :: string

record Server =
  branch_s :: string
  port_s :: string
  canCommit :: "string \<rightharpoonup> int"
  haveCommitted :: "string \<rightharpoonup> int"
  branchInfo :: "string \<rightharpoonup> branchAddr"
  rpcClients :: "string set"
  relatedBranches :: "string \<rightharpoonup> string set"

definition srv_read_line :: "Server \<Rightarrow> string \<Rightarrow> Server result" where
  "srv_read_line srv line =
     (let parsed = split_on CHR '' '' (trim_suffix [CHR 0x0A] line)
      in bind_result (slice_get parsed 0) (\<lambda>curBranch.
         bind_result (slice_get parsed 1) (\<lambda>curAddr.
         bind_result (slice_get parsed 2) (\<lambda>curPort.
           let srv1 = (if branch_s srv = curBranch then srv\<lparr>port_s := curPort\<rparr> else srv)
           in Inr (srv1\<lparr>branchInfo := (branchInfo srv1)(curBranch \<mapsto> \<lparr>addr = curAddr, bport = curPort\<rparr>)\<rparr>)))))"

function readFile :: "Server \<Rightarrow> string \<Rightarrow> Server result" where
  "readFile srv text =
     (case read_string text of (line, rest, eof) \<Rightarrow>
        bind_result (srv_read_line srv line) (\<lambda>srv1. if eof then Inr srv1 else readFile srv1 rest))"
  by pat_completeness auto
termination
  by (relation "measure (\<lambda>(_, text). length text)") (auto dest: sym [THEN read_string_shorter])

declare readFile.simps [simp del]

definition srv_Start :: "string \<Rightarrow> string \<Rightarrow> Server result" where
  "srv_Start branch text =
     readFile \<lparr>branch_s = branch, port_s = [], canCommit = Map.empty, haveCommitted = Map.empty,
               branchInfo = Map.empty, rpcClients = {}, relatedBranches = Map.empty\<rparr> text"

subsection \<open>Commands of a client\<close>

definition parse_cmd :: "string \<Rightarrow> string \<Rightarrow> Command result" where
  "parse_cmd tid cmdString =
     (let splited = split_on CHR '' '' (trim_suffix [CHR 0x0A] cmdString)
      in if length splited = 2 then
           bind_result (slice_get splited 1) (\<lambda>w.
           let s = split_on CHR ''.'' w in
           bind_result (slice_get s 0) (\<lambda>b.
           bind_result (slice_get s 1) (\<lambda>a.
           bind_result (slice_get splited 0) (\<lambda>m.
             Inr \<lparr>Tid = tid, Branch = b, Account = a, Method = m, Amount_c = - 1\<rparr>))))
         else
           bind_result (slice_get splited 1) (\<lambda>w.
           let s = split_on CHR ''.'' w in
           bind_result (slice_get splited 2) (\<lambda>n.
           case atoi n of
             None \<Rightarrow> Inl (LogFatal n)
           | Some bal \<Rightarrow>
               bind_result (slice_get s 0) (\<lambda>b.
               bind_result (slice_get s 1) (\<lambda>a.
               bind_result (slice_get splited 0) (\<lambda>m.
                 Inr \<lparr>Tid = tid, Branch = b, Account = a, Method = m, Amount_c = bal\<rparr>))))))"

subsection \<open>Two-phase commit\<close>

text \<open>The loop that collects the votes; \<open>None\<close> while it waits for another one.\<close>

fun collect_votes :: "bool \<Rightarrow> int \<Rightarrow> int \<Rightarrow> bool list \<Rightarrow> int option" where
  "collect_votes shouldWait can n [] = (if shouldWait \<and> can \<noteq> n then None else Some can)"
| "collect_votes shouldWait can n (v # vs) =
     (if shouldWait \<and> can \<noteq> n
      then if v then collect_votes True (can + 1) n vs else collect_votes False can n vs
      else Some can)"

definition forget_tx :: "Server \<Rightarrow> string \<Rightarrow> Server" where
  "forget_tx srv tid =
     srv\<lparr>canCommit := (canCommit srv)(tid := None), haveCommitted := (haveCommitted srv)(tid := None),
         relatedBranches := (relatedBranches srv)(tid := None)\<rparr>"

text \<open>The calls of \<^verbatim>\<open>Server.Commit\<close> an abort makes, as pairs of a branch and \<^verbatim>\<open>DoCommit\<close>, and its reply.\<close>

definition DoAbort :: "Server \<Rightarrow> string \<Rightarrow> Server \<times> (string \<times> bool) set \<times> string" where
  "DoAbort srv tid =
     (forget_tx srv tid, (\<lambda>b. (b, False)) ` map_get {} (relatedBranches srv) tid, ''ABORTED'')"

definition TwoPhaseCommit ::
  "Server \<Rightarrow> string \<Rightarrow> bool list \<Rightarrow> (Server \<times> (string \<times> bool) set \<times> string) result option" where
  "TwoPhaseCommit srv tid votes =
     (case relatedBranches srv tid of
        None \<Rightarrow> Some (Inl (LogFatal (''2PC: no related branches in tid '' @ tid)))
      | Some branches \<Rightarrow>
          (case collect_votes True (map_get 0 (canCommit srv) tid) (int (card branches)) votes of
             None \<Rightarrow> None
           | Some can \<Rightarrow>
               let srv1 = srv\<lparr>canCommit := (canCommit srv)(tid \<mapsto> can)\<rparr>
               in if can = int (card branches)
                  then Some (Inr (srv1, (\<lambda>b. (b, True)) ` branches, ''COMMIT OK''))
                  else Some (Inr (DoAbort srv1 tid))))"

text \<open>The goroutine that waits for the participants to have committed, then forgets the transaction.\<close>

fun await_commits :: "Server \<Rightarrow> string \<Rightarrow> bool list \<Rightarrow> Server option" where
  "await_commits srv tid [] =
     (if map_get 0 (haveCommitted srv) tid \<noteq> int (card (map_get {} (relatedBranches srv) tid)) then None
      else Some (forget_tx srv tid))"
| "await_commits srv tid (v # vs) =
     (if map_get 0 (haveCommitted srv) tid \<noteq> int (card (map_get {} (relatedBranches srv) tid)) then
        await_commits (if v then srv\<lparr>haveCommitted := (haveCommitted srv)(tid \<mapsto> map_get 0 (haveCommitted srv) tid + 1)\<rparr>
                       else srv) tid vs
      else Some (forget_tx srv tid))"

subsection \<open>SendCoord\<close>

datatype coord_action =
    ReplyNow string
  | CollectVotes "string set"
  | Aborted "(string \<times> bool) set" string
  | Forward string Command

definition SendCoord :: "(string \<Rightarrow> string \<Rightarrow> bool) \<Rightarrow> Server \<Rightarrow> string \<Rightarrow> string \<Rightarrow> (Server \<times> coord_action) result" where
  "SendCoord dial srv tid cmdString =
     (if cmdString = ''BEGIN'' then
        Inr (srv\<lparr>canCommit := (canCommit srv)(tid \<mapsto> 0), haveCommitted := (haveCommitted srv)(tid \<mapsto> 0),
                 relatedBranches := (relatedBranches srv)(tid \<mapsto> {})\<rparr>, ReplyNow OK)
      else if cmdString = ''COMMIT'' then
        (case relatedBranches srv tid of
           None \<Rightarrow> Inl (LogFatal (''2PC: no related branches in tid '' @ tid))
         | Some branches \<Rightarrow> Inr (srv, CollectVotes branches))
      else if cmdString = ''ABORT'' then
        (case DoAbort srv tid of (srv1, calls, reply) \<Rightarrow> Inr (srv1, Aborted calls reply))
      else
        bind_result (parse_cmd tid cmdString) (\<lambda>cmd.
        bind_result
          (if Branch cmd \<in> rpcClients srv then Inr srv
           else
             let branchAddr = map_get \<lparr>addr = [], bport = []\<rparr> (branchInfo srv) (Branch cmd)
             in if dial (addr branchAddr) (bport branchAddr)
                then Inr (srv\<lparr>rpcClients := insert (Branch cmd) (rpcClients srv)\<rparr>)
                else Inl (LogFatal (addr branchAddr @ '':'' @ bport branchAddr))) (\<lambda>srv1.
        bind_result
          (if Branch cmd \<in> map_get {} (relatedBranches srv1) tid then Inr srv1
           else
             case relatedBranches srv1 tid of
               None \<Rightarrow> Inl NilMapWrite
             | Some bs \<Rightarrow> Inr (srv1\<lparr>relatedBranches := (relatedBranches srv1)(tid \<mapsto> insert (Branch cmd) bs)\<rparr>)) (\<lambda>srv2.
        Inr (srv2, Forward (Branch cmd) cmd)))))"

text \<open>After the reply of the branch to a forwarded command: the reply to the client, and the abort that follows a failure.\<close>

definition SendCoord_replied :: "Server \<Rightarrow> string \<Rightarrow> string \<Rightarrow> Server \<times> (string \<times> bool) set \<times> string" where
  "SendCoord_replied srv tid fwdReply =
     (if fwdReply = NF_ABRT then (case DoAbort srv tid of (srv1, calls, _) \<Rightarrow> (srv1, calls, fwdReply))
      else (srv, {}, fwdReply))"

subsection \<open>The client\<close>

record clientBranch =
  branch_c :: string
  addr_c :: string
  port_c :: string

definition cli_read_line :: "clientBranch list \<Rightarrow> string \<Rightarrow> clientBranch list result" where
  "cli_read_line branches line =
     (let parsed = split_on CHR '' '' (trim_suffix [CHR 0x0A] line)
      in bind_result (slice_get parsed 0) (\<lambda>b.
         bind_result (slice_get parsed 1) (\<lambda>a.
         bind_result (slice_get parsed 2) (\<lambda>p.
           Inr (branches @ [\<lparr>branch_c = b, addr_c = a, port_c = p\<rparr>])))))"

function readConfig :: "clientBranch list \<Rightarrow> string \<Rightarrow> clientBranch list result" where
  "readConfig branches text =
     (case read_string text of (line, rest, eof) \<Rightarrow>
        bind_result (cli_read_line branches line) (\<lambda>bs. if eof then Inr bs else readConfig bs rest))"
  by pat_completeness auto
termination
  by (relation "measure (\<lambda>(_, text). length text)") (auto dest: sym [THEN read_string_shorter])

declare readConfig.simps [simp del]

text \<open>
  The loop of \<^verbatim>\<open>processTransaction\<close> on the rest of the standard input. \<open>coord\<close> is the coordinator once
  a \<^verbatim>\<open>BEGIN\<close> has chosen one, \<open>rands\<close> the random numbers (below 5) it is chosen by, and \<open>ask\<close> what the call of
  \<^verbatim>\<open>SendCoord\<close> replies to the commands so far. The result is what was sent and what was printed.
\<close>

definition cli_stops :: "string \<Rightarrow> bool" where
  "cli_stops reply \<longleftrightarrow> reply = ''ABORTED'' \<or> reply = NF_ABRT \<or> reply = ''COMMIT OK''"

function processTransaction ::
  "clientBranch list \<Rightarrow> (clientBranch \<Rightarrow> bool) \<Rightarrow> (string list \<Rightarrow> string) \<Rightarrow> nat list \<Rightarrow> clientBranch option \<Rightarrow>
   string \<Rightarrow> string list \<Rightarrow> string list \<Rightarrow> (string list \<times> string list) result" where
  "processTransaction branches dial ask rands coord input sent printed =
     (case read_string input of (line0, rest, eof) \<Rightarrow>
        let line = trim [CHR '' '', CHR 0x0D, CHR 0x0A] line0
        in if eof then Inr (sent, printed)
           else
             bind_result
               (if line = ''BEGIN'' then
                  bind_result (slice_get branches (case rands of [] \<Rightarrow> 0 | r # _ \<Rightarrow> int r)) (\<lambda>c.
                    if dial c then Inr (Some c) else Inl (LogFatal (addr_c c @ '':'' @ port_c c)))
                else Inr coord) (\<lambda>coord1.
             case coord1 of
               None \<Rightarrow> Inl NilDereference
             | Some _ \<Rightarrow>
                 let sent1 = sent @ [line]; reply = ask sent1; printed1 = printed @ [reply]
                 in if cli_stops reply then Inr (sent1, printed1)
                    else processTransaction branches dial ask (if line = ''BEGIN'' then tl rands else rands)
                           coord1 rest sent1 printed1))"
  by pat_completeness auto
termination
  by (relation "measure (\<lambda>(_, _, _, _, _, input, _, _). length input)") (auto dest: sym [THEN read_string_shorter])

declare processTransaction.simps [simp del]

subsection \<open>The decision of the coordinator\<close>

lemma collect_votes_stopped: "collect_votes False can n vs = Some can"
  by (cases vs) simp_all

lemma collect_votes_all:
  "can + int (length votes) = n \<Longrightarrow>
   \<exists>c. collect_votes True can n votes = Some c \<and> (c = n \<longleftrightarrow> list_all id votes)"
proof (induction votes arbitrary: can)
  case (Cons v vs)
  then show ?case using Cons.IH [of "can + 1"] by (cases v) (auto simp: collect_votes_stopped)
qed simp

text \<open>
  Atomic decision. Once as many votes have come in as the transaction has branches, two-phase
  commit decides: it tells every branch to commit and replies COMMIT OK if all of them voted yes, and
  otherwise tells every branch to abort and replies ABORTED. It never tells two branches
  different things.
\<close>

theorem two_phase_commit_decides:
  assumes "relatedBranches srv tid = Some branches" "map_get 0 (canCommit srv) tid = 0" "length votes = card branches"
  shows "\<exists>srv' calls reply. TwoPhaseCommit srv tid votes = Some (Inr (srv', calls, reply)) \<and>
    calls = (\<lambda>b. (b, list_all id votes)) ` branches \<and>
    reply = (if list_all id votes then ''COMMIT OK'' else ''ABORTED'')"
proof -
  obtain c where c: "collect_votes True 0 (int (card branches)) votes = Some c"
    "c = int (card branches) \<longleftrightarrow> list_all id votes"
    using collect_votes_all [of 0 votes "int (card branches)"] assms(3) by auto
  show ?thesis
  proof (cases "list_all id votes")
    case True
    then have "(\<lambda>b. (b, True)) ` branches = (\<lambda>b. (b, list_all id votes)) ` branches" by simp
    then show ?thesis using True c assms(1,2) by (simp add: TwoPhaseCommit_def Let_def)
  next
    case False
    then have "(\<lambda>b. (b, False)) ` branches = (\<lambda>b. (b, list_all id votes)) ` branches" by simp
    then show ?thesis using False c assms(1,2) by (simp add: TwoPhaseCommit_def DoAbort_def Let_def)
  qed
qed

theorem two_phase_commit_decides_witness:
  "\<exists>srv srv'. TwoPhaseCommit srv ''t'' [True, False] = Some (Inr (srv', {(''A'', False), (''B'', False)}, ''ABORTED''))"
proof -
  define srv :: Server where "srv = \<lparr>branch_s = ''A'', port_s = [], canCommit = [''t'' \<mapsto> 0], haveCommitted = [''t'' \<mapsto> 0],
    branchInfo = Map.empty, rpcClients = {}, relatedBranches = [''t'' \<mapsto> {''A'', ''B''}]\<rparr>"
  have "\<exists>srv' calls reply. TwoPhaseCommit srv ''t'' [True, False] = Some (Inr (srv', calls, reply)) \<and>
    calls = (\<lambda>b. (b, list_all id [True, False])) ` {''A'', ''B''} \<and>
    reply = (if list_all id [True, False] then ''COMMIT OK'' else ''ABORTED'')"
    by (rule two_phase_commit_decides) (simp_all add: srv_def)
  then show ?thesis by auto
qed

text \<open>
  The coordinator never forgets a committed transaction. \<^verbatim>\<open>Commit\<close> leaves \<^verbatim>\<open>HaveCommitted\<close> of its
  reply at false; however many replies come in, the goroutine that counts them goes on waiting, as
  soon as the transaction has a branch.
\<close>

theorem commit_never_cleaned_up:
  assumes "relatedBranches srv tid = Some branches" "finite branches" "branches \<noteq> {}"
    and "map_get 0 (haveCommitted srv) tid = 0"
  shows "await_commits srv tid (replicate k False) = None"
proof -
  have "map_get 0 (haveCommitted srv) tid \<noteq> int (card (map_get {} (relatedBranches srv) tid))"
    using assms by simp
  then show ?thesis by (induction k) simp_all
qed

theorem commit_never_cleaned_up_witness:
  "\<exists>srv. relatedBranches srv ''t'' = Some {''A''} \<and> await_commits srv ''t'' (replicate 3 False) = None"
proof -
  define srv :: Server where "srv = \<lparr>branch_s = ''A'', port_s = [], canCommit = [''t'' \<mapsto> 1], haveCommitted = [''t'' \<mapsto> 0],
    branchInfo = Map.empty, rpcClients = {}, relatedBranches = [''t'' \<mapsto> {''A''}]\<rparr>"
  have "await_commits srv ''t'' (replicate 3 False) = None"
    by (rule commit_never_cleaned_up [of _ _ "{''A''}"]) (simp_all add: srv_def)
  then show ?thesis by (intro exI [of _ srv]) (simp add: srv_def)
qed

subsection \<open>Parsing\<close>

text \<open>
  C27: Commands. The coordinator reads back what a client writes: a deposit or a withdrawal on
  \<open>branch.account\<close> with any 64-bit amount, and a balance query.
\<close>

theorem parse_cmd_roundtrip:
  assumes "CHR '' '' \<notin> set m" "CHR '' '' \<notin> set b" "CHR '' '' \<notin> set a" "CHR ''.'' \<notin> set b" "CHR ''.'' \<notin> set a"
    and "a \<noteq> []" "last a \<noteq> CHR 0x0A"
  shows "parse_cmd tid (m @ '' '' @ b @ ''.'' @ a @ '' '' @ itoa amount) =
      Inr \<lparr>Tid = tid, Branch = b, Account = a, Method = m, Amount_c = amount\<rparr> \<and>
    parse_cmd tid (m @ '' '' @ b @ ''.'' @ a) =
      Inr \<lparr>Tid = tid, Branch = b, Account = a, Method = m, Amount_c = - 1\<rparr>"
proof -
  have w: "split_on CHR ''.'' (b @ ''.'' @ a) = [b, a]"
    using split_join [of "[b, a]" "CHR ''.''"] assms(4,5) by simp
  have "last (itoa amount) \<in> set (itoa_int (sint amount))" by (simp add: itoa_def)
  from itoa_int_chars [OF this] have "last (itoa amount) \<noteq> CHR 0x0A" by (auto simp: is_digit_def)
  then have t1: "trim_suffix [CHR 0x0A] (m @ '' '' @ b @ ''.'' @ a @ '' '' @ itoa amount) = m @ '' '' @ b @ ''.'' @ a @ '' '' @ itoa amount"
    by (simp add: itoa_def)
  have s1: "split_on CHR '' '' (m @ '' '' @ b @ ''.'' @ a @ '' '' @ itoa amount) = [m, b @ ''.'' @ a, itoa amount]"
    using split_join [of "[m, b @ ''.'' @ a, itoa amount]" "CHR '' ''"] assms(1-3)
    by (simp add: itoa_def itoa_int_no_space)
  have t2: "trim_suffix [CHR 0x0A] (m @ '' '' @ b @ ''.'' @ a) = m @ '' '' @ b @ ''.'' @ a"
    using assms(6,7) by simp
  have s2: "split_on CHR '' '' (m @ '' '' @ b @ ''.'' @ a) = [m, b @ ''.'' @ a]"
    using split_join [of "[m, b @ ''.'' @ a]" "CHR '' ''"] assms(1-3) by simp
  show ?thesis
    unfolding parse_cmd_def t1 t2 s1 s2 by (simp add: w [simplified] slice_get_def)
qed

theorem parse_cmd_roundtrip_witness:
  "parse_cmd ''t'' ''DEPOSIT A.foo 10'' =
     Inr \<lparr>Tid = ''t'', Branch = ''A'', Account = ''foo'', Method = ''DEPOSIT'', Amount_c = 10\<rparr>"
proof -
  have "itoa (10 :: goint) = ''10''" by code_simp
  then show ?thesis using parse_cmd_roundtrip [of "''DEPOSIT''" "''A''" "''foo''" "''t''" 10] by simp
qed

text \<open>
  Configuration files. A server that reads a file whose last line ends with a newline
  panics: after the last line it reads an empty one, and takes the second field of it.
\<close>

theorem readFile_final_newline:
  "\<not> is_ok (readFile srv (txt0 @ [CHR 0x0A]))"
proof (induction txt0 arbitrary: srv rule: measure_induct_rule [of length])
  case (less txt0)
  have empty: "\<not> is_ok (readFile s [])" for s
    by (simp add: readFile.simps [of s "[]"] srv_read_line_def slice_get_def is_ok_def)
  show ?case
  proof (cases "CHR 0x0A \<in> set txt0")
    case False
    then show ?thesis using empty
      by (cases "srv_read_line srv (txt0 @ [CHR 0x0A])")
        (simp_all add: readFile.simps [of srv] read_string_line [where s = "[]"])
  next
    case True
    then obtain l rest where t: "txt0 = l @ CHR 0x0A # rest" "CHR 0x0A \<notin> set l" by (meson split_list_first)
    have "\<not> is_ok (readFile s (rest @ [CHR 0x0A]))" for s using less.IH [of rest s] t(1) by simp
    then show ?thesis
      by (cases "srv_read_line srv (l @ [CHR 0x0A])")
        (simp_all add: t(1) readFile.simps [of srv] read_string_line [OF t(2)])
  qed
qed

definition conf_text :: "string \<times> string \<times> string \<Rightarrow> string" where
  "conf_text = (\<lambda>(b, a, p). b @ '' '' @ a @ '' '' @ p)"

definition field_ok :: "string \<Rightarrow> bool" where
  "field_ok s \<longleftrightarrow> CHR '' '' \<notin> set s \<and> CHR 0x0A \<notin> set s"

definition entry_ok :: "string \<times> string \<times> string \<Rightarrow> bool" where
  "entry_ok e \<longleftrightarrow> field_ok (fst e) \<and> field_ok (fst (snd e)) \<and> field_ok (snd (snd e))"

definition learn :: "Server \<Rightarrow> string \<times> string \<times> string \<Rightarrow> Server" where
  "learn srv e = srv\<lparr>port_s := (if branch_s srv = fst e then snd (snd e) else port_s srv),
     branchInfo := (branchInfo srv)(fst e \<mapsto> \<lparr>addr = fst (snd e), bport = snd (snd e)\<rparr>)\<rparr>"

lemma conf_text_no_newline: "entry_ok e \<Longrightarrow> CHR 0x0A \<notin> set (conf_text e)"
  by (cases e) (simp add: conf_text_def entry_ok_def field_ok_def)

lemma srv_read_line_entry:
  assumes "entry_ok e"
  shows "srv_read_line srv (conf_text e) = Inr (learn srv e)" "srv_read_line srv (conf_text e @ [CHR 0x0A]) = Inr (learn srv e)"
proof -
  obtain b a p where e: "e = (b, a, p)" by (cases e) auto
  have s: "split_on CHR '' '' (conf_text e) = [b, a, p]"
    using split_join [of "[b, a, p]" "CHR '' ''"] assms by (simp add: e conf_text_def entry_ok_def field_ok_def)
  have t: "trim_suffix [CHR 0x0A] (conf_text e) = conf_text e"
    using conf_text_no_newline [OF assms] by (metis last_in_set trim_suffix_char)
  show "srv_read_line srv (conf_text e) = Inr (learn srv e)"
    unfolding srv_read_line_def t s by (simp add: slice_get_def learn_def e)
  show "srv_read_line srv (conf_text e @ [CHR 0x0A]) = Inr (learn srv e)"
    unfolding srv_read_line_def trim_suffix_append s by (simp add: slice_get_def learn_def e)
qed

text \<open>
  C30: A configuration file without a final newline is read completely: the server knows the
  address and port of every branch in it (the last line of a branch counts), and its own port.
\<close>

theorem readFile_entries:
  assumes "es \<noteq> []" "\<forall>e \<in> set es. entry_ok e"
  shows "readFile srv (join_with (CHR 0x0A) (map conf_text es)) = Inr (foldl learn srv es)"
  using assms
proof (induction es arbitrary: srv rule: list_nonempty_induct)
  case (single e)
  then show ?case
    by (simp add: readFile.simps [of srv] read_string_eof [OF conf_text_no_newline] srv_read_line_entry)
next
  case (cons e es)
  obtain y ys where y: "map conf_text es = y # ys" using cons(1) by (cases es) auto
  have e: "entry_ok e" using cons.prems by simp
  have "join_with (CHR 0x0A) (map conf_text (e # es)) = conf_text e @ CHR 0x0A # join_with (CHR 0x0A) (map conf_text es)"
    by (simp add: y)
  then show ?case
    using cons.IH [of "learn srv e"] cons.prems
    by (simp add: readFile.simps [of srv] read_string_line [OF conf_text_no_newline [OF e]] srv_read_line_entry [OF e])
qed

theorem readFile_entries_witness:
  "map_sum id (\<lambda>srv. (port_s srv, map_option bport (branchInfo srv ''B'')))
     (readFile \<lparr>branch_s = ''A'', port_s = [], canCommit = Map.empty, haveCommitted = Map.empty,
               branchInfo = Map.empty, rpcClients = {}, relatedBranches = Map.empty\<rparr>
       (join_with (CHR 0x0A) (map conf_text [(''A'', ''h1'', ''10''), (''B'', ''h2'', ''20'')]))) =
   Inr (''10'', Some ''20'')"
proof -
  define srv :: Server where "srv = \<lparr>branch_s = ''A'', port_s = [], canCommit = Map.empty, haveCommitted = Map.empty,
               branchInfo = Map.empty, rpcClients = {}, relatedBranches = Map.empty\<rparr>"
  let ?es = "[(''A'', ''h1'', ''10''), (''B'', ''h2'', ''20'')]"
  have "readFile srv (join_with (CHR 0x0A) (map conf_text ?es)) = Inr (foldl learn srv ?es)"
    by (rule readFile_entries) (simp_all add: entry_ok_def field_ok_def)
  then show ?thesis unfolding srv_def [symmetric] by (simp add: learn_def srv_def)
qed

end
