(* ===== verification/Tx_Client.thy ===== *)
theory Tx_Client
  imports Tx_Coord
begin

section \<open>Transactions: the two programs and a session of a client\<close>

text \<open>
  The \<^verbatim>\<open>main\<close> functions of \<^verbatim>\<open>client/client.go\<close> and \<^verbatim>\<open>server/server.go\<close>, and what the loop of \<^verbatim>\<open>processTransaction\<close>
  (\<open>Tx_Coord\<close>) sends and prints for any input. \<open>files\<close> is what the file system holds; a file that cannot be opened
  makes \<^verbatim>\<open>CheckError\<close> end the process. A server is followed up to the point where it serves calls.
\<close>

subsection \<open>The programs\<close>

definition CheckError :: "string \<Rightarrow> 'a option \<Rightarrow> 'a result" where
  "CheckError e r = (case r of None \<Rightarrow> Inl (LogFatal e) | Some x \<Rightarrow> Inr x)"

definition cli_main ::
  "(string \<Rightarrow> string option) \<Rightarrow> string list \<Rightarrow> (clientBranch \<Rightarrow> bool) \<Rightarrow> (string list \<Rightarrow> string) \<Rightarrow> nat list \<Rightarrow> string \<Rightarrow>
   (string list \<times> string list) result" where
  "cli_main files args dial ask rands input =
     (case args of
        [_, fp] \<Rightarrow>
          bind_result (CheckError ('''' @ fp) (files fp)) (\<lambda>text.
          bind_result (readConfig [] text) (\<lambda>branches. processTransaction branches dial ask rands None input [] []))
      | _ \<Rightarrow> Inl (LogFatal ''usage: ./client [client id] [configuration file]''))"

definition srv_main :: "(string \<Rightarrow> string option) \<Rightarrow> (string \<Rightarrow> bool) \<Rightarrow> string list \<Rightarrow> Server result" where
  "srv_main files listens args =
     (case args of
        [branch, fp] \<Rightarrow>
          bind_result (CheckError fp (files fp)) (\<lambda>text.
          bind_result (srv_Start branch text) (\<lambda>srv.
          bind_result (CheckError (port_s srv) (if listens (port_s srv) then Some () else None)) (\<lambda>_. Inr srv)))
      | _ \<Rightarrow> Inl (LogFatal ''usage: ./server [branch] [configuration file]''))"

subsection \<open>A session\<close>

definition cli_line :: "string \<Rightarrow> string" where
  "cli_line = trim [CHR '' '', CHR 0x0D, CHR 0x0A]"

lemma trim_snoc: "x \<in> set cs \<Longrightarrow> trim cs (l @ [x]) = trim cs l"
proof (cases "\<forall>y \<in> set l. y \<in> set cs")
  case False
  then have "dropWhile (\<lambda>c. c \<in> set cs) (l @ [x]) = dropWhile (\<lambda>c. c \<in> set cs) l @ [x]"
    by (meson dropWhile_append1)
  moreover assume "x \<in> set cs"
  ultimately show ?thesis by (simp add: trim_def)
qed (auto simp: trim_def dropWhile_append dest: set_dropWhileD)

lemma cli_line_newline: "cli_line (l @ [CHR 0x0A]) = cli_line l"
  unfolding cli_line_def by (rule trim_snoc) simp

lemma session_step:
  assumes "CHR 0x0A \<notin> set l" "\<forall>c \<in> set branches. dial c" "\<forall>r \<in> set rands. r < length branches" "branches \<noteq> []"
    and "coord \<noteq> None \<or> cli_line l = ''BEGIN''"
  shows "\<exists>rands' c. set rands' \<subseteq> set rands \<and> processTransaction branches dial ask rands coord (l @ CHR 0x0A # rest) sent printed =
    (if cli_stops (ask (sent @ [cli_line l])) then Inr (sent @ [cli_line l], printed @ [ask (sent @ [cli_line l])])
     else processTransaction branches dial ask rands' (Some c) rest (sent @ [cli_line l]) (printed @ [ask (sent @ [cli_line l])]))"
proof -
  let ?i = "case rands of [] \<Rightarrow> 0 | r # _ \<Rightarrow> int r" and ?rands = "if cli_line l = ''BEGIN'' then tl rands else rands"
  have line: "trim [CHR '' '', CHR 0x0D, CHR 0x0A] (l @ [CHR 0x0A]) = cli_line l" by (metis cli_line_def cli_line_newline)
  have "0 \<le> ?i \<and> ?i < int (length branches)" using assms(3,4) by (auto split: list.splits)
  then obtain b where b: "slice_get branches ?i = Inr b" "dial b" using assms(2) by (auto simp: slice_get_Inr_iff nat_less_iff)
  obtain c where c: "(if cli_line l = ''BEGIN'' then bind_result (slice_get branches ?i)
      (\<lambda>c. if dial c then Inr (Some c) else Inl (LogFatal (addr_c c @ '':'' @ port_c c))) else Inr coord) = Inr (Some c)"
    using b assms(5) by (cases "cli_line l = ''BEGIN''"; cases coord) auto
  have "set ?rands \<subseteq> set rands" by (cases rands) auto
  moreover have "processTransaction branches dial ask rands coord (l @ CHR 0x0A # rest) sent printed =
    (if cli_stops (ask (sent @ [cli_line l])) then Inr (sent @ [cli_line l], printed @ [ask (sent @ [cli_line l])])
     else processTransaction branches dial ask ?rands (Some c) rest (sent @ [cli_line l]) (printed @ [ask (sent @ [cli_line l])]))"
    by (subst processTransaction.simps)
      (simp only: read_string_line [OF assms(1)] prod.case Let_def line c bind_result_simps option.case if_False)
  ultimately show ?thesis by blast
qed

lemma session:
  assumes "\<And>l. l \<in> set ls \<Longrightarrow> CHR 0x0A \<notin> set l" "CHR 0x0A \<notin> set unfinished" "\<forall>c \<in> set branches. dial c" "branches \<noteq> []"
    and "\<forall>r \<in> set rands. r < length branches" "coord \<noteq> None \<or> ls = [] \<or> cli_line (hd ls) = ''BEGIN''"
  shows "\<exists>k \<le> length ls.
    processTransaction branches dial ask rands coord (concat (map (\<lambda>l. l @ [CHR 0x0A]) ls) @ unfinished) sent printed =
      Inr (sent @ take k (map cli_line ls), printed @ map (\<lambda>j. ask (sent @ take (Suc j) (map cli_line ls))) [0..<k]) \<and>
    (\<forall>j < k. cli_stops (ask (sent @ take (Suc j) (map cli_line ls))) \<longrightarrow> Suc j = k) \<and>
    (k < length ls \<longrightarrow> 0 < k \<and> cli_stops (ask (sent @ take k (map cli_line ls))))"
  using assms(1,5,6)
proof (induction ls arbitrary: rands coord sent printed)
  case Nil
  then show ?case using read_string_eof [OF assms(2)] by (simp add: processTransaction.simps [of _ _ _ rands])
next
  case (Cons l ls)
  let ?c = "cli_line l" and ?cs = "map cli_line ls"
  have l: "CHR 0x0A \<notin> set l" and b: "coord \<noteq> None \<or> cli_line l = ''BEGIN''" using Cons.prems(1,3) by auto
  obtain rands' c where r: "set rands' \<subseteq> set rands"
    "processTransaction branches dial ask rands coord (l @ CHR 0x0A # concat (map (\<lambda>l. l @ [CHR 0x0A]) ls) @ unfinished) sent printed =
      (if cli_stops (ask (sent @ [?c])) then Inr (sent @ [?c], printed @ [ask (sent @ [?c])])
       else processTransaction branches dial ask rands' (Some c) (concat (map (\<lambda>l. l @ [CHR 0x0A]) ls) @ unfinished)
         (sent @ [?c]) (printed @ [ask (sent @ [?c])]))"
    using session_step [OF l assms(3) Cons.prems(2) assms(4) b] by blast
  show ?case
  proof (cases "cli_stops (ask (sent @ [?c]))")
    case True
    then show ?thesis using r(2) by (intro exI [of _ 1]) simp
  next
    case False
    have rr: "\<forall>x \<in> set rands'. x < length branches" using r(1) Cons.prems(2) by blast
    have nn: "CHR 0x0A \<notin> set x" if "x \<in> set ls" for x using that Cons.prems(1) by simp
    obtain k where k: "k \<le> length ls"
      "processTransaction branches dial ask rands' (Some c) (concat (map (\<lambda>l. l @ [CHR 0x0A]) ls) @ unfinished)
         (sent @ [?c]) (printed @ [ask (sent @ [?c])]) =
       Inr ((sent @ [?c]) @ take k ?cs, (printed @ [ask (sent @ [?c])]) @ map (\<lambda>j. ask ((sent @ [?c]) @ take (Suc j) ?cs)) [0..<k])"
      "\<forall>j < k. cli_stops (ask ((sent @ [?c]) @ take (Suc j) ?cs)) \<longrightarrow> Suc j = k"
      "k < length ls \<longrightarrow> 0 < k \<and> cli_stops (ask ((sent @ [?c]) @ take k ?cs))"
      using Cons.IH [OF nn rr, of "Some c" "sent @ [?c]" "printed @ [ask (sent @ [?c])]"] by auto
    have m: "map (\<lambda>j. ask (sent @ take (Suc j) (?c # ?cs))) [0..<Suc k] =
        ask (sent @ [?c]) # map (\<lambda>j. ask ((sent @ [?c]) @ take (Suc j) ?cs)) [0..<k]"
      by (simp add: upt_conv_Cons map_Suc_upt [symmetric] del: upt_Suc)
    have "Suc j = Suc k" if "j < Suc k" "cli_stops (ask (sent @ take (Suc j) (?c # ?cs)))" for j
      using that k(3) False by (cases j) auto
    then show ?thesis using k r(2) False m by (intro exI [of _ "Suc k"]) (simp del: upt_Suc)
  qed
qed

text \<open>
  C29: A session of a client. When the first command is BEGIN, the servers can be reached and the numbers drawn are those of servers, the client sends the commands of its input one
  after the other, prints every reply, and stops exactly at the first reply that ends the transaction, or at the end of the input; a last line without
  a newline is not sent.
\<close>

theorem client_session:
  assumes "cli_line (hd ls) = ''BEGIN''" "\<And>l. l \<in> set ls \<Longrightarrow> CHR 0x0A \<notin> set l" "CHR 0x0A \<notin> set unfinished"
    and "\<forall>c \<in> set branches. dial c" "branches \<noteq> []" "\<forall>r \<in> set rands. r < length branches"
  shows "\<exists>k \<le> length ls.
    processTransaction branches dial ask rands None (concat (map (\<lambda>l. l @ [CHR 0x0A]) ls) @ unfinished) [] [] =
      Inr (take k (map cli_line ls), map (\<lambda>j. ask (take (Suc j) (map cli_line ls))) [0..<k]) \<and>
    (\<forall>j < k. cli_stops (ask (take (Suc j) (map cli_line ls))) \<longrightarrow> Suc j = k) \<and>
    (k < length ls \<longrightarrow> 0 < k \<and> cli_stops (ask (take k (map cli_line ls))))"
  using session [OF assms(2-6), of ls None ask "[]" "[]"] assms(1) by simp

definition five :: "clientBranch list" where
  "five = map (\<lambda>b. \<lparr>branch_c = [b], addr_c = ''h'', port_c = ''1''\<rparr>) ''ABCDE''"

definition demo_lines :: "string list" where
  "demo_lines = [''BEGIN'', ''BALANCE A.x '', ''COMMIT'']"

definition demo_ask :: "string list \<Rightarrow> string" where
  "demo_ask cmds = (if length cmds < 2 then OK else NF_ABRT)"

theorem client_session_witness:
  "\<exists>k \<le> length demo_lines.
    processTransaction five (\<lambda>_. True) demo_ask [4] None (concat (map (\<lambda>l. l @ [CHR 0x0A]) demo_lines) @ ''ABO'') [] [] =
      Inr (take k (map cli_line demo_lines), map (\<lambda>j. demo_ask (take (Suc j) (map cli_line demo_lines))) [0..<k])"
proof -
  have h: "cli_line (hd demo_lines) = ''BEGIN''" by code_simp
  have n: "CHR 0x0A \<notin> set l" if "l \<in> set demo_lines" for l using that by (auto simp: demo_lines_def)
  have "CHR 0x0A \<notin> set ''ABO''" "\<forall>c \<in> set five. True" "five \<noteq> []" "\<forall>r \<in> set [4]. r < length five"
    by (simp_all add: five_def)
  from client_session [OF h n this, of demo_ask] show ?thesis by blast
qed

end
