(* ===== verification/Tx_System.thy ===== *)
theory Tx_System
  imports Tx_Coord
begin

section \<open>Transactions: coordinators and branches together\<close>

text \<open>
  All clients, coordinators and branches. A client sends the commands of its transaction one after the other, begins with
  one \<^verbatim>\<open>BEGIN\<close> and stops as \<^verbatim>\<open>processTransaction\<close> does; its transaction identifier is its own. The operations are those of
  \<open>Tx_Coord\<close> and \<open>Tx_Branch\<close>; what is added is where a transaction stands (\<open>tx_phase\<close>) and which calls of
  \<^verbatim>\<open>Server.Prepare\<close> and \<^verbatim>\<open>Server.Commit\<close> the goroutines of a coordinator have started and the branches have not yet
  executed (\<open>flight\<close>). A goroutine is started for a branch at most once with each call, as \<open>calls_are_new\<close> shows, so
  that a set suffices. The executed calls of \<^verbatim>\<open>Server.Commit\<close> are added to \<open>decisions\<close>, which no step reads. Calls are not lost, but may be
  delayed for any time.
\<close>

subsection \<open>State\<close>

datatype tx_phase =
    NotBegun
  | Idle string                  \<comment> \<open>the coordinator is free\<close>
  | Sending string string Command    \<comment> \<open>coordinator, branch, command on its way\<close>
  | Blocked string string        \<comment> \<open>coordinator, branch at which the command waits for a lock\<close>
  | Replied string string        \<comment> \<open>coordinator, reply of the branch\<close>
  | Collecting string "bool list"  \<comment> \<open>coordinator, votes so far\<close>
  | Ended string string          \<comment> \<open>coordinator, last reply to the client\<close>

datatype tcall = PrepareCall | CommitCall bool

record txsys =
  coords :: "string \<Rightarrow> Server"
  sites :: "string \<Rightarrow> branch_state"
  phase :: "string \<Rightarrow> tx_phase"
  flight :: "(string \<times> string \<times> tcall) set"
  decisions :: "(string \<times> string \<times> bool) set"

definition commit_calls :: "string \<Rightarrow> (string \<times> bool) set \<Rightarrow> (string \<times> string \<times> tcall) set" where
  "commit_calls tid calls = (\<lambda>(b, v). (b, tid, CommitCall v)) ` calls"

fun add_vote :: "bool \<Rightarrow> tx_phase \<Rightarrow> tx_phase" where
  "add_vote v (Collecting c votes) = Collecting c (votes @ [v])"
| "add_vote v p = p"

subsection \<open>Steps of one transaction\<close>

inductive txstep :: "(string \<Rightarrow> string \<Rightarrow> bool) \<Rightarrow> string \<Rightarrow> txsys \<Rightarrow> txsys \<Rightarrow> bool" for dial tid where
  begin_tx: "phase s tid = NotBegun \<Longrightarrow> SendCoord dial (coords s c) tid ''BEGIN'' = Inr (srv, ReplyNow r) \<Longrightarrow>
    txstep dial tid s (s\<lparr>coords := (coords s)(c := srv), phase := (phase s)(tid := Idle c)\<rparr>)"
| send: "phase s tid = Idle c \<Longrightarrow> SendCoord dial (coords s c) tid line = Inr (srv, Forward b cmd) \<Longrightarrow>
    txstep dial tid s (s\<lparr>coords := (coords s)(c := srv), phase := (phase s)(tid := Sending c b cmd)\<rparr>)"
| arrive_wait: "phase s tid = Sending c b cmd \<Longrightarrow> ForwardCmd_start b (app (sites s b)) cmd = Inr (a, Wait) \<Longrightarrow>
    txstep dial tid s (s\<lparr>sites := (sites s)(b := (sites s b)\<lparr>app := a, waiting := (waiting (sites s b))(tid \<mapsto> cmd)\<rparr>),
      phase := (phase s)(tid := Blocked c b)\<rparr>)"
| arrive_done: "phase s tid = Sending c b cmd \<Longrightarrow> ForwardCmd_start b (app (sites s b)) cmd = Inr (a, Reply r) \<Longrightarrow>
    txstep dial tid s (s\<lparr>sites := (sites s)(b := (sites s b)\<lparr>app := a\<rparr>), phase := (phase s)(tid := Replied c r)\<rparr>)"
| granted: "phase s tid = Blocked c b \<Longrightarrow> waiting (sites s b) tid = Some cmd \<Longrightarrow>
    ForwardCmd_finish b (app (sites s b)) cmd = Some (Inr (a, r)) \<Longrightarrow>
    txstep dial tid s (s\<lparr>sites := (sites s)(b := (sites s b)\<lparr>app := a, waiting := (waiting (sites s b))(tid := None)\<rparr>),
      phase := (phase s)(tid := Replied c r)\<rparr>)"
| replied: "phase s tid = Replied c r \<Longrightarrow> SendCoord_replied (coords s c) tid r = (srv, calls, reply) \<Longrightarrow>
    txstep dial tid s (s\<lparr>coords := (coords s)(c := srv), flight := flight s \<union> commit_calls tid calls,
      phase := (phase s)(tid := (if cli_stops reply then Ended c reply else Idle c))\<rparr>)"
| abort_tx: "phase s tid = Idle c \<Longrightarrow> SendCoord dial (coords s c) tid ''ABORT'' = Inr (srv, Aborted calls reply) \<Longrightarrow>
    txstep dial tid s (s\<lparr>coords := (coords s)(c := srv), flight := flight s \<union> commit_calls tid calls,
      phase := (phase s)(tid := Ended c reply)\<rparr>)"
| commit_tx: "phase s tid = Idle c \<Longrightarrow> SendCoord dial (coords s c) tid ''COMMIT'' = Inr (srv, CollectVotes bs) \<Longrightarrow>
    txstep dial tid s (s\<lparr>coords := (coords s)(c := srv), flight := flight s \<union> (\<lambda>b. (b, tid, PrepareCall)) ` bs,
      phase := (phase s)(tid := Collecting c [])\<rparr>)"
| vote: "(b, tid, PrepareCall) \<in> flight s \<Longrightarrow> locked_names (app (sites s b)) tid names \<Longrightarrow>
    v = Prepare (app (sites s b)) tid names \<Longrightarrow>
    txstep dial tid s (s\<lparr>sites := (sites s)(b := (sites s b)\<lparr>prepared := (if v then {tid} else {}) \<union> prepared (sites s b)\<rparr>),
      flight := flight s - {(b, tid, PrepareCall)}, phase := (phase s)(tid := add_vote v (phase s tid))\<rparr>)"
| decide: "phase s tid = Collecting c votes \<Longrightarrow>
    TwoPhaseCommit (coords s c) tid votes = Some (Inr (srv, calls, reply)) \<Longrightarrow>
    txstep dial tid s (s\<lparr>coords := (coords s)(c := srv), flight := flight s \<union> commit_calls tid calls,
      phase := (phase s)(tid := Ended c reply)\<rparr>)"
| execute: "(b, tid, CommitCall v) \<in> flight s \<Longrightarrow> changed_names (app (sites s b)) tid cnames \<Longrightarrow>
    locked_names (app (sites s b)) tid lnames \<Longrightarrow>
    Commit (app (sites s b)) tid v cnames pnames lnames = Inr (a, out) \<Longrightarrow>
    txstep dial tid s (s\<lparr>sites := (sites s)(b := (sites s b)\<lparr>app := a, prepared := prepared (sites s b) - {tid}\<rparr>),
      flight := flight s - {(b, tid, CommitCall v)}, decisions := insert (b, tid, v) (decisions s)\<rparr>)"

text \<open>At the start the servers have read their configuration.\<close>

definition tx_init :: "(string \<Rightarrow> Server) \<Rightarrow> txsys" where
  "tx_init srvs = \<lparr>coords = srvs, sites = (\<lambda>_. binit), phase = (\<lambda>_. NotBegun), flight = {}, decisions = {}\<rparr>"

inductive txreach :: "(string \<Rightarrow> string \<Rightarrow> bool) \<Rightarrow> txsys \<Rightarrow> bool" for dial where
  start: "txreach dial (tx_init srvs)"
| step: "txreach dial s \<Longrightarrow> txstep dial tid s s' \<Longrightarrow> txreach dial s'"

text \<open>
  The same runs with a record beside the state, of every command that was sent to a branch: the transaction, the branch
  the call of \<^verbatim>\<open>Server.ForwardCmd\<close> goes to, and the command. It is read off the phase that a step leaves, and not off
  anything the coordinator keeps.
\<close>

definition sent_by :: "txsys \<Rightarrow> string \<Rightarrow> (string \<times> string \<times> Command) set" where
  "sent_by s tid = (case phase s tid of Sending c b cmd \<Rightarrow> {(tid, b, cmd)} | _ \<Rightarrow> {})"

inductive txran :: "(string \<Rightarrow> string \<Rightarrow> bool) \<Rightarrow> txsys \<Rightarrow> (string \<times> string \<times> Command) set \<Rightarrow> bool" for dial where
  start: "txran dial (tx_init srvs) {}"
| step: "txran dial s F \<Longrightarrow> txstep dial tid s s' \<Longrightarrow> txran dial s' (F \<union> sent_by s' tid)"

lemma txran_reach: "txran dial s F \<Longrightarrow> txreach dial s"
  by (induction rule: txran.induct) (auto intro: txreach.intros)

lemma txreach_ran: "txreach dial s \<Longrightarrow> \<exists>F. txran dial s F"
  by (induction rule: txreach.induct) (blast intro: txran.intros)+

subsection \<open>What a step leaves alone of other transactions\<close>

record view =
  v_phase :: tx_phase
  v_flight :: "(string \<times> tcall) set"
  v_decided :: "(string \<times> bool) set"
  v_prepared :: "string set"
  v_waiting :: "string \<rightharpoonup> Command"
  v_related :: "string \<rightharpoonup> string set"
  v_votes :: "string \<rightharpoonup> int"

definition view :: "txsys \<Rightarrow> string \<Rightarrow> view" where
  "view s t = \<lparr>v_phase = phase s t, v_flight = {(b, k). (b, t, k) \<in> flight s}, v_decided = {(b, v). (b, t, v) \<in> decisions s},
     v_prepared = {b. t \<in> prepared (sites s b)}, v_waiting = (\<lambda>b. waiting (sites s b) t),
     v_related = (\<lambda>c. relatedBranches (coords s c) t), v_votes = (\<lambda>c. canCommit (coords s c) t)\<rparr>"

definition keeps :: "string \<Rightarrow> Server \<Rightarrow> Server \<Rightarrow> bool" where
  "keeps t srv srv' \<longleftrightarrow> relatedBranches srv' t = relatedBranches srv t \<and> canCommit srv' t = canCommit srv t"

lemma keeps_DoAbort: "DoAbort srv tid = (srv', calls, reply) \<Longrightarrow> t \<noteq> tid \<Longrightarrow> keeps t srv srv'"
  by (auto simp: DoAbort_def forget_tx_def keeps_def)

lemma keeps_TwoPhaseCommit:
  assumes "TwoPhaseCommit srv tid votes = Some (Inr (srv', calls, reply))" "t \<noteq> tid"
  shows "keeps t srv srv'"
  using assms by (auto simp: TwoPhaseCommit_def DoAbort_def forget_tx_def keeps_def Let_def split: option.splits if_splits)

lemma keeps_replied: "SendCoord_replied srv tid r = (srv', calls, reply) \<Longrightarrow> t \<noteq> tid \<Longrightarrow> keeps t srv srv'"
  by (auto simp: SendCoord_replied_def DoAbort_def forget_tx_def keeps_def split: if_splits)

lemma parse_cmd_Tid: "parse_cmd tid line = Inr cmd \<Longrightarrow> Tid cmd = tid"
  by (auto simp: parse_cmd_def Let_def bind_result_Inr_iff split: if_splits option.splits)

lemma SendCoord_Forward:
  assumes "SendCoord dial srv tid line = Inr (srv', Forward b cmd)"
  obtains bs where "Tid cmd = tid" "Branch cmd = b" "relatedBranches srv tid = Some bs"
    "relatedBranches srv' = (relatedBranches srv)(tid \<mapsto> insert b bs)" "canCommit srv' = canCommit srv"
proof -
  note finish = that
  have l: "line \<noteq> ''BEGIN''" "line \<noteq> ''COMMIT''" "line \<noteq> ''ABORT''"
    using assms by (auto simp: SendCoord_def DoAbort_def split: option.splits)
  obtain cmd' srv1 srv2 where p: "parse_cmd tid line = Inr cmd'"
    and s1: "(if Branch cmd' \<in> rpcClients srv then Inr srv
      else let branchAddr = map_get \<lparr>addr = [], bport = []\<rparr> (branchInfo srv) (Branch cmd')
        in if dial (addr branchAddr) (bport branchAddr) then Inr (srv\<lparr>rpcClients := insert (Branch cmd') (rpcClients srv)\<rparr>)
           else Inl (LogFatal (addr branchAddr @ '':'' @ bport branchAddr))) = Inr srv1"
    and s2: "(if Branch cmd' \<in> map_get {} (relatedBranches srv1) tid then Inr srv1
      else case relatedBranches srv1 tid of None \<Rightarrow> Inl NilMapWrite
        | Some bs \<Rightarrow> Inr (srv1\<lparr>relatedBranches := (relatedBranches srv1)(tid \<mapsto> insert (Branch cmd') bs)\<rparr>)) = Inr srv2"
    and e: "(srv2, Forward (Branch cmd') cmd') = (srv', Forward b cmd)"
    using assms unfolding SendCoord_def by (simp only: l if_False bind_result_Inr_iff sum.inject) blast
  have r1: "relatedBranches srv1 = relatedBranches srv" "canCommit srv1 = canCommit srv"
    using s1 by (auto simp: Let_def split: if_splits)
  show thesis
  proof (cases "relatedBranches srv1 tid")
    case None
    then show thesis using s2 by simp
  next
    case (Some bs)
    then have "relatedBranches srv' = (relatedBranches srv)(tid \<mapsto> insert b bs)" "canCommit srv' = canCommit srv"
      using s2 e r1 by (auto simp: insert_absorb map_upd_triv split: if_splits)
    moreover have "Branch cmd = b" "cmd' = cmd" using e by auto
    ultimately show thesis using finish [of bs] parse_cmd_Tid [OF p] Some r1 by simp
  qed
qed

lemma SendCoord_BEGIN:
  "SendCoord dial srv tid ''BEGIN'' = Inr (srv', act) \<longleftrightarrow>
     srv' = srv\<lparr>canCommit := (canCommit srv)(tid \<mapsto> 0), haveCommitted := (haveCommitted srv)(tid \<mapsto> 0),
       relatedBranches := (relatedBranches srv)(tid \<mapsto> {})\<rparr> \<and> act = ReplyNow OK"
  by (auto simp: SendCoord_def)

lemma SendCoord_COMMIT:
  "SendCoord dial srv tid ''COMMIT'' = Inr (srv', CollectVotes bs) \<longleftrightarrow> srv' = srv \<and> relatedBranches srv tid = Some bs"
  by (auto simp: SendCoord_def split: option.splits)

lemma SendCoord_ABORT:
  "SendCoord dial srv tid ''ABORT'' = Inr (srv', Aborted calls reply) \<longleftrightarrow> DoAbort srv tid = (srv', calls, reply)"
  by (auto simp: SendCoord_def split: prod.splits)

lemma txstep_frame:
  assumes "txstep dial tid s s'" "t \<noteq> tid"
  shows "view s' t = view s t"
  using assms
proof (induction rule: txstep.induct)
  case (begin_tx s c srv r)
  then show ?case by (auto simp: view_def SendCoord_BEGIN)
next
  case (send s c line srv b cmd)
  obtain bs where "relatedBranches srv = (relatedBranches (coords s c))(tid \<mapsto> insert b bs)" "canCommit srv = canCommit (coords s c)"
    using SendCoord_Forward [OF send(2)] by blast
  then show ?case using send(3) by (auto simp: view_def)
next
  case (replied s c r srv calls reply)
  then have "keeps t (coords s c) srv" using keeps_replied by blast
  then show ?case using replied by (auto simp: view_def keeps_def commit_calls_def)
next
  case (abort_tx s c srv calls reply)
  then have "keeps t (coords s c) srv" using keeps_DoAbort by (simp add: SendCoord_ABORT)
  then show ?case using abort_tx by (auto simp: view_def keeps_def commit_calls_def)
next
  case (decide s c votes srv calls reply)
  then have "keeps t (coords s c) srv" using keeps_TwoPhaseCommit by blast
  then show ?case using decide by (auto simp: view_def keeps_def commit_calls_def)
next
  case (commit_tx s c srv bs)
  then show ?case by (auto simp: view_def SendCoord_COMMIT)
qed (auto simp: view_def)

subsection \<open>The invariant of one transaction\<close>

definition resting :: "view \<Rightarrow> bool" where
  "resting v \<longleftrightarrow> v_flight v = {} \<and> v_decided v = {} \<and> v_prepared v = {}"

definition ready :: "view \<Rightarrow> string \<Rightarrow> bool" where
  "ready v c \<longleftrightarrow> (\<exists>bs. v_related v c = Some bs \<and> finite bs) \<and> v_votes v c = Some 0"

definition collecting_ok :: "view \<Rightarrow> string \<Rightarrow> bool list \<Rightarrow> bool" where
  "collecting_ok v c votes \<longleftrightarrow> v_decided v = {} \<and> v_votes v c = Some 0 \<and>
     (\<exists>bs P. v_related v c = Some bs \<and> finite bs \<and> P \<subseteq> bs \<and> v_flight v = (\<lambda>b. (b, PrepareCall)) ` P \<and>
       length votes = card (bs - P) \<and> (list_all id votes \<longrightarrow> bs - P \<subseteq> v_prepared v))"

definition ended_ok :: "view \<Rightarrow> string \<Rightarrow> bool \<Rightarrow> bool" where
  "ended_ok v c ok \<longleftrightarrow> (\<forall>b w. (b, CommitCall w) \<in> v_flight v \<longrightarrow> w = ok) \<and> (\<forall>b w. (b, w) \<in> v_decided v \<longrightarrow> w = ok) \<and>
     (ok \<longrightarrow> (\<forall>b. (b, PrepareCall) \<notin> v_flight v) \<and> (\<forall>b. (b, CommitCall True) \<in> v_flight v \<longrightarrow> b \<in> v_prepared v) \<and>
        v_related v c = Some ({b. (b, CommitCall True) \<in> v_flight v} \<union> {b. (b, True) \<in> v_decided v}))"

definition tx_ok :: "string \<Rightarrow> view \<Rightarrow> bool" where
  "tx_ok tid v \<longleftrightarrow> (case v_phase v of
     NotBegun \<Rightarrow> resting v \<and> v_waiting v = Map.empty
   | Idle c \<Rightarrow> resting v \<and> v_waiting v = Map.empty \<and> ready v c
   | Sending c b cmd \<Rightarrow> resting v \<and> v_waiting v = Map.empty \<and> ready v c \<and> Tid cmd = tid
   | Blocked c b \<Rightarrow> resting v \<and> ready v c \<and> (\<forall>b'. b' \<noteq> b \<longrightarrow> v_waiting v b' = None)
   | Replied c r \<Rightarrow> resting v \<and> v_waiting v = Map.empty \<and> ready v c \<and> r \<noteq> ''COMMIT OK''
   | Collecting c votes \<Rightarrow> v_waiting v = Map.empty \<and> collecting_ok v c votes
   | Ended c r \<Rightarrow> v_waiting v = Map.empty \<and> ended_ok v c (r = ''COMMIT OK''))"

text \<open>How the updates of a step show in the view of its transaction.\<close>

definition of_tx :: "string \<Rightarrow> (string \<times> string \<times> 'k) set \<Rightarrow> (string \<times> 'k) set" where
  "of_tx t F = {(b, k). (b, t, k) \<in> F}"

definition prep_of :: "string \<Rightarrow> (string \<Rightarrow> branch_state) \<Rightarrow> string set" where
  "prep_of t f = {b. t \<in> prepared (f b)}"

definition wait_of :: "string \<Rightarrow> (string \<Rightarrow> branch_state) \<Rightarrow> string \<rightharpoonup> Command" where
  "wait_of t f = (\<lambda>b. waiting (f b) t)"

lemma of_tx_simps [simp]:
  "of_tx t (F \<union> G) = of_tx t F \<union> of_tx t G" "of_tx t (F - G) = of_tx t F - of_tx t G" "of_tx t {} = {}"
  "of_tx t (insert (b, t, k) F) = insert (b, k) (of_tx t F)"
  "of_tx t (commit_calls t calls) = (\<lambda>(b, v). (b, CommitCall v)) ` calls"
  "of_tx t ((\<lambda>b. (b, t, PrepareCall)) ` bs) = (\<lambda>b. (b, PrepareCall)) ` bs"
  by (auto simp: of_tx_def commit_calls_def)

lemma in_of_tx [simp]: "(b, k) \<in> of_tx t F \<longleftrightarrow> (b, t, k) \<in> F"
  by (simp add: of_tx_def)

lemma prep_of_upd [simp]: "prep_of t (f(b := x)) = (if t \<in> prepared x then insert b (prep_of t f) else prep_of t f - {b})"
  by (auto simp: prep_of_def)

lemma wait_of_upd [simp]: "wait_of t (f(b := x)) = (wait_of t f)(b := waiting x t)"
  by (auto simp: wait_of_def)

lemma view_fields [simp]:
  "v_phase (view s t) = phase s t" "v_flight (view s t) = of_tx t (flight s)" "v_decided (view s t) = of_tx t (decisions s)"
  "v_prepared (view s t) = prep_of t (sites s)" "v_waiting (view s t) = wait_of t (sites s)"
  "v_related (view s t) c = relatedBranches (coords s c) t" "v_votes (view s t) c = canCommit (coords s c) t"
  by (simp_all add: view_def of_tx_def prep_of_def wait_of_def)

lemma fwd_body_reply: "fwd_body branch a cmd = Inr (a', r) \<Longrightarrow> r \<noteq> ''COMMIT OK''"
proof
  assume a: "fwd_body branch a cmd = Inr (a', r)" "r = ''COMMIT OK''"
  have "CHR ''.'' \<in> set (branch @ ''.'' @ x)" for x by simp
  moreover have "CHR ''.'' \<notin> set ''COMMIT OK''" by simp
  ultimately have "branch @ ''.'' @ x \<noteq> ''COMMIT OK''" for x by metis
  then show False using a
    by (auto simp: fwd_body_def Deposit_body_def Withdraw_body_def OK_def NF_ABRT_def Let_def bind_result_Inr_iff
        split: if_splits option.splits)
qed

lemma ForwardCmd_reply:
  "ForwardCmd_start branch a cmd = Inr (a', Reply r) \<Longrightarrow> r \<noteq> ''COMMIT OK''"
  "ForwardCmd_finish branch a cmd = Some (Inr (a', r)) \<Longrightarrow> r \<noteq> ''COMMIT OK''"
  by (auto simp: ForwardCmd_start_def ForwardCmd_finish_def Let_def bind_result_Inr_iff
      split: if_splits option.splits dest: fwd_body_reply)

lemma collect_votes_full:
  "collect_votes True can n vs = Some n \<Longrightarrow> can + int (length vs) \<le> n \<Longrightarrow> list_all id vs \<and> can + int (length vs) = n"
proof (induction vs arbitrary: can)
  case (Cons v vs)
  have "can \<noteq> n" using Cons.prems(2) by simp
  then have "v" "collect_votes True (can + 1) n vs = Some n" using Cons.prems(1) by (auto simp: collect_votes_stopped split: if_splits)
  then show ?case using Cons.IH [of "can + 1"] Cons.prems(2) by simp
qed (auto split: if_splits)

lemma tx_ok_quiet:
  assumes "tx_ok tid (view s tid)" "phase s tid \<in> {Idle c, Sending c b cmd, Replied c r}"
  shows "of_tx tid (flight s) = {}" "of_tx tid (decisions s) = {}" "prep_of tid (sites s) = {}" "wait_of tid (sites s) = Map.empty"
    "\<exists>bs. relatedBranches (coords s c) tid = Some bs \<and> finite bs" "canCommit (coords s c) tid = Some 0"
  using assms by (auto simp: tx_ok_def resting_def ready_def)

lemma DoAbort_calls: "DoAbort srv tid = (srv', calls, reply) \<Longrightarrow> reply = ''ABORTED'' \<and> (\<exists>bs. calls = (\<lambda>b. (b, False)) ` bs)"
  by (auto simp: DoAbort_def)

lemma ended_abort:
  assumes "\<And>b w. (b, CommitCall w) \<notin> of_tx tid (flight s)" "of_tx tid (decisions s) = {}"
    "wait_of tid (sites s) = Map.empty" "calls = (\<lambda>b. (b, False)) ` bs" "r \<noteq> ''COMMIT OK''"
  shows "tx_ok tid (view (s\<lparr>coords := cs, flight := flight s \<union> commit_calls tid calls, phase := (phase s)(tid := Ended c r)\<rparr>) tid)"
  unfolding tx_ok_def ended_ok_def using assms by (auto simp del: in_of_tx)

lemma txstep_ok_coord:
  assumes "tx_ok tid (view s tid)"
  shows
    "phase s tid = NotBegun \<Longrightarrow> SendCoord dial (coords s c) tid ''BEGIN'' = Inr (srv, ReplyNow r) \<Longrightarrow>
      tx_ok tid (view (s\<lparr>coords := (coords s)(c := srv), phase := (phase s)(tid := Idle c)\<rparr>) tid)"
    "phase s tid = Idle c \<Longrightarrow> SendCoord dial (coords s c) tid line = Inr (srv, Forward b cmd) \<Longrightarrow>
      tx_ok tid (view (s\<lparr>coords := (coords s)(c := srv), phase := (phase s)(tid := Sending c b cmd)\<rparr>) tid)"
    "phase s tid = Idle c \<Longrightarrow> SendCoord dial (coords s c) tid ''COMMIT'' = Inr (srv, CollectVotes bs) \<Longrightarrow>
      tx_ok tid (view (s\<lparr>coords := (coords s)(c := srv), flight := flight s \<union> (\<lambda>b. (b, tid, PrepareCall)) ` bs,
        phase := (phase s)(tid := Collecting c [])\<rparr>) tid)"
proof -
  assume "phase s tid = NotBegun" "SendCoord dial (coords s c) tid ''BEGIN'' = Inr (srv, ReplyNow r)"
  then show "tx_ok tid (view (s\<lparr>coords := (coords s)(c := srv), phase := (phase s)(tid := Idle c)\<rparr>) tid)"
    using assms by (simp add: tx_ok_def resting_def ready_def SendCoord_BEGIN)
next
  assume p: "phase s tid = Idle c" "SendCoord dial (coords s c) tid line = Inr (srv, Forward b cmd)"
  obtain bs where "Tid cmd = tid" "relatedBranches (coords s c) tid = Some bs"
    "relatedBranches srv = (relatedBranches (coords s c))(tid \<mapsto> insert b bs)" "canCommit srv = canCommit (coords s c)"
    using SendCoord_Forward [OF p(2)] by blast
  then show "tx_ok tid (view (s\<lparr>coords := (coords s)(c := srv), phase := (phase s)(tid := Sending c b cmd)\<rparr>) tid)"
    using tx_ok_quiet [OF assms, of c] p(1) by (auto simp: tx_ok_def resting_def ready_def)
next
  assume p: "phase s tid = Idle c" "SendCoord dial (coords s c) tid ''COMMIT'' = Inr (srv, CollectVotes bs)"
  then have "srv = coords s c" "relatedBranches (coords s c) tid = Some bs" by (simp_all add: SendCoord_COMMIT)
  then show "tx_ok tid (view (s\<lparr>coords := (coords s)(c := srv), flight := flight s \<union> (\<lambda>b. (b, tid, PrepareCall)) ` bs,
      phase := (phase s)(tid := Collecting c [])\<rparr>) tid)"
    using tx_ok_quiet [OF assms, of c] p(1) by (auto simp: tx_ok_def collecting_ok_def intro!: exI [of _ bs])
qed

lemma collecting_okI:
  assumes "v_decided v = {}" "v_votes v c = Some 0" "v_related v c = Some bs" "finite bs" "P \<subseteq> bs"
    "v_flight v = (\<lambda>b. (b, PrepareCall)) ` P" "length votes = card (bs - P)" "list_all id votes \<Longrightarrow> bs - P \<subseteq> v_prepared v"
  shows "collecting_ok v c votes"
  using assms unfolding collecting_ok_def by blast

lemma txstep_ok_vote:
  assumes ok: "tx_ok tid (view s tid)" and b: "(b, tid, PrepareCall) \<in> flight s" and f: "waiting x tid = waiting (sites s b) tid"
    "tid \<in> prepared x \<longleftrightarrow> v \<or> tid \<in> prepared (sites s b)"
  shows "tx_ok tid (view (s\<lparr>sites := (sites s)(b := x), flight := flight s - {(b, tid, PrepareCall)},
    phase := (phase s)(tid := add_vote v (phase s tid))\<rparr>) tid)"
proof -
  have b': "(b, PrepareCall) \<in> of_tx tid (flight s)" using b by simp
  have w: "(wait_of tid (sites s))(b := waiting x tid) = wait_of tid (sites s)" using f(1) by (auto simp: wait_of_def)
  have p: "prep_of tid (sites s) \<subseteq> prep_of tid ((sites s)(b := x))" using f(2) by (auto simp: prep_of_def)
  consider c votes where "phase s tid = Collecting c votes" | c r where "phase s tid = Ended c r"
    using ok b' by (cases "phase s tid") (auto simp: tx_ok_def resting_def)
  then show ?thesis
  proof cases
    case 1
    then obtain bs P where c: "of_tx tid (decisions s) = {}" "canCommit (coords s c) tid = Some 0"
      "relatedBranches (coords s c) tid = Some bs" "finite bs" "P \<subseteq> bs" "of_tx tid (flight s) = (\<lambda>b. (b, PrepareCall)) ` P"
      "length votes = card (bs - P)" "list_all id votes \<longrightarrow> bs - P \<subseteq> prep_of tid (sites s)" "wait_of tid (sites s) = Map.empty"
      using ok by (auto simp: tx_ok_def collecting_ok_def)
    have "b \<in> P" using c(6) b' by auto
    then have d: "bs - (P - {b}) = insert b (bs - P)" "b \<notin> bs - P" using c(5) by auto
    have "collecting_ok (view (s\<lparr>sites := (sites s)(b := x), flight := flight s - {(b, tid, PrepareCall)},
        phase := (phase s)(tid := Collecting c (votes @ [v]))\<rparr>) tid) c (votes @ [v])"
    proof (rule collecting_okI [where bs = bs and P = "P - {b}"])
      show "length (votes @ [v]) = card (bs - (P - {b}))" using d c(4,7) by simp
      show "bs - (P - {b}) \<subseteq> v_prepared (view (s\<lparr>sites := (sites s)(b := x),
          flight := flight s - {(b, tid, PrepareCall)}, phase := (phase s)(tid := Collecting c (votes @ [v]))\<rparr>) tid)"
        if "list_all id (votes @ [v])" using that d(1) c(8) p f(2) by (auto simp: prep_of_def)
      have "of_tx tid {(b, tid, PrepareCall)} = {(b, PrepareCall)}" by (auto simp: of_tx_def)
      moreover have "(\<lambda>b. (b, PrepareCall)) ` P - {(b, PrepareCall)} = (\<lambda>b. (b, PrepareCall)) ` (P - {b})" by auto
      ultimately show "v_flight (view (s\<lparr>sites := (sites s)(b := x),
          flight := flight s - {(b, tid, PrepareCall)}, phase := (phase s)(tid := Collecting c (votes @ [v]))\<rparr>) tid) =
          (\<lambda>b. (b, PrepareCall)) ` (P - {b})" using c(6) by simp
    qed (use c in auto)
    then show ?thesis using 1 c(9) w by (simp add: tx_ok_def)
  next
    case 2
    then have e: "wait_of tid (sites s) = Map.empty" "ended_ok (view s tid) c (r = ''COMMIT OK'')" using ok by (simp_all add: tx_ok_def)
    then have "r \<noteq> ''COMMIT OK''" using b by (auto simp: ended_ok_def)
    then have "ended_ok (view (s\<lparr>sites := (sites s)(b := x), flight := flight s - {(b, tid, PrepareCall)},
        phase := (phase s)(tid := Ended c r)\<rparr>) tid) c (r = ''COMMIT OK'')"
      using e(2) by (simp add: ended_ok_def)
    then show ?thesis using 2 e(1) w by (simp add: tx_ok_def)
  qed
qed

lemma txstep_ok_decide:
  assumes ok: "tx_ok tid (view s tid)" and p: "phase s tid = Collecting c votes"
    and d: "TwoPhaseCommit (coords s c) tid votes = Some (Inr (srv, calls, reply))"
  shows "tx_ok tid (view (s\<lparr>coords := (coords s)(c := srv), flight := flight s \<union> commit_calls tid calls,
    phase := (phase s)(tid := Ended c reply)\<rparr>) tid)"
proof -
  obtain bs P where c: "of_tx tid (decisions s) = {}" "canCommit (coords s c) tid = Some 0"
    "relatedBranches (coords s c) tid = Some bs" "finite bs" "P \<subseteq> bs" "of_tx tid (flight s) = (\<lambda>b. (b, PrepareCall)) ` P"
    "length votes = card (bs - P)" "list_all id votes \<longrightarrow> bs - P \<subseteq> prep_of tid (sites s)" "wait_of tid (sites s) = Map.empty"
    using ok p by (auto simp: tx_ok_def collecting_ok_def)
  obtain can where can: "collect_votes True 0 (int (card bs)) votes = Some can"
    using d c(2,3) by (auto simp: TwoPhaseCommit_def split: option.splits)
  show ?thesis
  proof (cases "can = int (card bs)")
    case True
    have "card (bs - P) \<le> card bs" using c(4) by (intro card_mono) auto
    then have "list_all id votes \<and> length votes = card bs"
      using collect_votes_full [of 0 "int (card bs)" votes] can True c(7) by simp
    moreover have "bs - P = bs" using calculation c(4,7) by (intro card_subset_eq) auto
    ultimately have "P = {}" "bs \<subseteq> prep_of tid (sites s)" using c(5,8) by auto
    moreover have "srv = (coords s c)\<lparr>canCommit := (canCommit (coords s c))(tid \<mapsto> can)\<rparr>" "calls = (\<lambda>b. (b, True)) ` bs" "reply = ''COMMIT OK''"
      using d c(2,3) can True by (simp_all add: TwoPhaseCommit_def Let_def)
    ultimately show ?thesis using c(1,3,6,9) by (auto simp: tx_ok_def ended_ok_def prep_of_def simp del: in_of_tx)
  next
    case False
    then have "DoAbort ((coords s c)\<lparr>canCommit := (canCommit (coords s c))(tid \<mapsto> can)\<rparr>) tid = (srv, calls, reply)"
      using d c(2,3) can by (simp add: TwoPhaseCommit_def Let_def)
    then obtain xs where "reply = ''ABORTED''" "calls = (\<lambda>b. (b, False)) ` xs" using DoAbort_calls by blast
    then show ?thesis using c(1,6,9) by (intro ended_abort [where bs = xs]) auto
  qed
qed

lemma txstep_ok_execute:
  assumes ok: "tx_ok tid (view s tid)" and b: "(b, tid, CommitCall v) \<in> flight s" and x: "waiting x tid = waiting (sites s b) tid"
    "tid \<notin> prepared x"
  shows "tx_ok tid (view (s\<lparr>sites := (sites s)(b := x), flight := flight s - {(b, tid, CommitCall v)},
    decisions := insert (b, tid, v) (decisions s)\<rparr>) tid)"
proof -
  have b': "(b, CommitCall v) \<in> of_tx tid (flight s)" using b by simp
  have w: "(wait_of tid (sites s))(b := waiting x tid) = wait_of tid (sites s)" using x(1) by (auto simp: wait_of_def)
  have o: "of_tx tid {(b, tid, CommitCall v)} = {(b, CommitCall v)}" by (auto simp: of_tx_def)
  obtain c r where p: "phase s tid = Ended c r"
    using ok b' by (cases "phase s tid") (auto simp: tx_ok_def resting_def collecting_ok_def)
  then have e: "wait_of tid (sites s) = Map.empty" "ended_ok (view s tid) c (r = ''COMMIT OK'')" using ok by (simp_all add: tx_ok_def)
  have v: "v = (r = ''COMMIT OK'')" using e(2) b' unfolding ended_ok_def by simp
  have "ended_ok (view (s\<lparr>sites := (sites s)(b := x), flight := flight s - {(b, tid, CommitCall v)},
      decisions := insert (b, tid, v) (decisions s)\<rparr>) tid) c v"
    using e(2) [folded v] b x(2) unfolding ended_ok_def by (cases v) (auto simp: o prep_of_def)
  then show ?thesis using p e(1) w v by (simp add: tx_ok_def)
qed

lemma txstep_ok_replied:
  assumes ok: "tx_ok tid (view s tid)" and p: "phase s tid = Replied c r"
    and d: "SendCoord_replied (coords s c) tid r = (srv, calls, reply)"
  shows "tx_ok tid (view (s\<lparr>coords := (coords s)(c := srv), flight := flight s \<union> commit_calls tid calls,
    phase := (phase s)(tid := (if cli_stops reply then Ended c reply else Idle c))\<rparr>) tid)"
proof (cases "r = NF_ABRT")
  case True
  then obtain bs where e: "calls = (\<lambda>b. (b, False)) ` bs" "reply = NF_ABRT" "cli_stops reply"
    using d by (auto simp: SendCoord_replied_def DoAbort_def cli_stops_def)
  have "tx_ok tid (view (s\<lparr>coords := (coords s)(c := srv), flight := flight s \<union> commit_calls tid calls,
      phase := (phase s)(tid := Ended c reply)\<rparr>) tid)"
    by (rule ended_abort [OF _ _ _ e(1)]) (use tx_ok_quiet [OF ok, of c] p e(2) in \<open>auto simp: NF_ABRT_def\<close>)
  then show ?thesis using e(3) by simp
next
  case False
  then have "srv = coords s c" "calls = {}" "reply = r" using d by (simp_all add: SendCoord_replied_def)
  moreover have "r \<noteq> ''COMMIT OK''" using ok p by (simp add: tx_ok_def)
  ultimately show ?thesis using tx_ok_quiet [OF ok, of c] p
    by (simp add: tx_ok_def resting_def ready_def ended_ok_def)
qed

lemma txstep_ok:
  assumes "txstep dial tid s s'" "tx_ok tid (view s tid)"
  shows "tx_ok tid (view s' tid)"
  using assms
proof (induction rule: txstep.induct)
  case (begin_tx s c srv r)
  then show ?case by (intro txstep_ok_coord(1))
next
  case (send s c line srv b cmd)
  then show ?case by (intro txstep_ok_coord(2))
next
  case (arrive_wait s c b cmd a)
  then show ?case by (auto simp: tx_ok_def resting_def ready_def prep_of_def)
next
  case (arrive_done s c b cmd a r)
  then show ?case using ForwardCmd_reply(1) [OF arrive_done(2)] by (auto simp: tx_ok_def resting_def ready_def prep_of_def wait_of_def fun_eq_iff)
next
  case (granted s c b cmd a r)
  then show ?case using ForwardCmd_reply(2) [OF granted(3)]
    by (auto simp: tx_ok_def resting_def ready_def prep_of_def wait_of_def fun_eq_iff)
next
  case (replied s c r srv calls reply)
  then show ?case by (intro txstep_ok_replied)
next
  case (abort_tx s c srv calls reply)
  obtain bs where e: "calls = (\<lambda>b. (b, False)) ` bs" "reply = ''ABORTED''"
    using DoAbort_calls [OF abort_tx(2) [unfolded SendCoord_ABORT]] by blast
  show ?case by (rule ended_abort [OF _ _ _ e(1)]) (use tx_ok_quiet [OF abort_tx(3), of c] abort_tx(1) e(2) in auto)
next
  case (commit_tx s c srv bs)
  then show ?case by (intro txstep_ok_coord(3))
next
  case (vote b s names v)
  then show ?case by (intro txstep_ok_vote) auto
next
  case (decide s c votes srv calls reply)
  then show ?case by (intro txstep_ok_decide)
next
  case (execute b v s cnames lnames pnames a out)
  then show ?case by (intro txstep_ok_execute) auto
qed

subsection \<open>Branches of the system are branches as they were studied alone\<close>

lemma site_step:
  assumes "\<forall>x. breach x (sites s x)" "bstep b (sites s b) y"
  shows "\<forall>x. breach x (((sites s)(b := y)) x)"
  using assms breach.step by auto

lemma tx_ok_free:
  assumes "tx_ok tid (view s tid)" "phase s tid = Sending c b cmd"
  shows "Tid cmd = tid" "waiting (sites s b) (Tid cmd) = None" "Tid cmd \<notin> prepared (sites s b)"
proof -
  show t: "Tid cmd = tid" using assms by (simp add: tx_ok_def)
  have "wait_of tid (sites s) b = None" "b \<notin> prep_of tid (sites s)" using assms by (simp_all add: tx_ok_def resting_def)
  then show "waiting (sites s b) (Tid cmd) = None" "Tid cmd \<notin> prepared (sites s b)" by (simp_all add: t wait_of_def prep_of_def)
qed

lemma tx_ok_in_flight:
  assumes "tx_ok tid (view s tid)" "(b, tid, k) \<in> flight s"
  shows "waiting (sites s b) tid = None" "k = CommitCall True \<Longrightarrow> tid \<in> prepared (sites s b)"
proof -
  have f: "(b, k) \<in> of_tx tid (flight s)" "of_tx tid (flight s) \<noteq> {}" using assms(2) by (auto simp: of_tx_def)
  from f(2) have "wait_of tid (sites s) = Map.empty"
    using assms(1) by (cases "phase s tid") (auto simp: tx_ok_def resting_def)
  then show "waiting (sites s b) tid = None" by (simp add: wait_of_def fun_eq_iff)
  show "tid \<in> prepared (sites s b)" if "k = CommitCall True"
    using assms(1) f(1) that by (cases "phase s tid") (auto simp: tx_ok_def resting_def collecting_ok_def ended_ok_def prep_of_def)
qed

lemma txstep_sites:
  assumes "txstep dial tid s s'" "tx_ok tid (view s tid)" "\<forall>x. breach x (sites s x)"
  shows "\<forall>x. breach x (sites s' x)"
  using assms
proof (induction rule: txstep.induct)
  case (arrive_wait s c b cmd a)
  note f = tx_ok_free [OF arrive_wait(3,1)]
  show ?case using site_step [OF arrive_wait(4) bstep.call_wait [OF f(2,3) arrive_wait(2)]] f(1) by simp
next
  case (arrive_done s c b cmd a r)
  note f = tx_ok_free [OF arrive_done(3,1)]
  show ?case using site_step [OF arrive_done(4) bstep.call_done [OF f(2,3) arrive_done(2)]] by simp
next
  case (granted s c b cmd a r)
  show ?case using site_step [OF granted(5) bstep.grant [OF granted(2,3)]] by simp
next
  case (vote b s names v)
  note f = tx_ok_in_flight(1) [OF vote(4,1)]
  show ?case
  proof (cases v)
    case True
    then show ?thesis using site_step [OF vote(5) bstep.prepare [OF f vote(2)]] vote(3) by simp
  next
    case False
    then show ?thesis using vote(5) by simp
  qed
next
  case (execute b v s cnames lnames pnames a out)
  show ?case
  proof (cases v)
    case True
    then have "tid \<in> prepared (sites s b)" using tx_ok_in_flight(2) [OF execute(5,1)] by simp
    then show ?thesis using site_step [OF execute(6) bstep.commit] execute(2-4) True by simp
  next
    case False
    then show ?thesis
      using site_step [OF execute(6) bstep.abort [OF tx_ok_in_flight(1) [OF execute(5,1)] execute(3)]] execute(4) by simp
  qed
qed simp_all

lemma txreach_ok:
  assumes "txreach dial s"
  shows "tx_ok t (view s t) \<and> (\<forall>x. breach x (sites s x))"
  using assms
proof (induction arbitrary: t)
  case (start srvs)
  have "tx_ok t (view (tx_init srvs) t)" by (simp add: tx_init_def tx_ok_def resting_def prep_of_def wait_of_def binit_def)
  then show ?case by (simp add: tx_init_def breach.start)
next
  case (step s tid s')
  then have "tx_ok t (view s' t)" using txstep_ok txstep_frame by (cases "t = tid") metis+
  then show ?case using step txstep_sites by blast
qed

text \<open>
  No step starts a call that is already in flight: when a coordinator sends its prepare calls, or the commit
  calls of an abort at its own command, no call of the transaction is in flight, and when it has
  collected its votes no commit call is.
\<close>

lemma calls_are_new:
  assumes "txreach dial s"
  shows "phase s tid \<in> {Idle c, Replied c r} \<Longrightarrow> (b, tid, k) \<notin> flight s"
    "phase s tid = Collecting c votes \<Longrightarrow> (b, tid, CommitCall v) \<notin> flight s"
proof -
  note ok = conjunct1 [OF txreach_ok [OF assms, of tid]]
  show "(b, tid, k) \<notin> flight s" if "phase s tid \<in> {Idle c, Replied c r}"
    using tx_ok_quiet(1) [OF ok, of c _ _ r] that by (auto simp: of_tx_def)
  show "(b, tid, CommitCall v) \<notin> flight s" if "phase s tid = Collecting c votes"
  proof
    assume "(b, tid, CommitCall v) \<in> flight s"
    then have "(b, CommitCall v) \<in> of_tx tid (flight s)" by simp
    then show False using ok that by (auto simp: tx_ok_def collecting_ok_def)
  qed
qed

subsection \<open>The branches a coordinator keeps are those it sent commands to\<close>

definition goals :: "(string \<times> string \<times> Command) set \<Rightarrow> string \<Rightarrow> string set" where
  "goals F t = {b. \<exists>cmd. (t, b, cmd) \<in> F}"

definition sent_ok :: "view \<Rightarrow> string set \<Rightarrow> bool" where
  "sent_ok v bs \<longleftrightarrow> (case v_phase v of
     NotBegun \<Rightarrow> bs = {}
   | Idle c \<Rightarrow> v_related v c = Some bs
   | Sending c b cmd \<Rightarrow> v_related v c = Some bs \<and> b \<in> bs
   | Blocked c b \<Rightarrow> v_related v c = Some bs
   | Replied c r \<Rightarrow> v_related v c = Some bs
   | Collecting c votes \<Rightarrow> v_related v c = Some bs
   | Ended c r \<Rightarrow> r = ''COMMIT OK'' \<longrightarrow> v_related v c = Some bs)"

lemma goals_simps [simp]:
  "goals (F \<union> G) t = goals F t \<union> goals G t" "goals {} t = {}" "goals (insert (t, b, cmd) F) t = insert b (goals F t)"
  by (auto simp: goals_def)

lemma goals_sent_by: "t \<noteq> tid \<Longrightarrow> goals (sent_by s tid) t = {}"
  by (auto simp: goals_def sent_by_def split: tx_phase.splits)

lemma txstep_sent:
  assumes "txstep dial tid s s'" "sent_ok (view s tid) bs"
  shows "sent_ok (view s' tid) (bs \<union> goals (sent_by s' tid) tid)"
  using assms
proof (induction rule: txstep.induct)
  case (begin_tx s c srv r)
  then show ?case by (simp add: sent_ok_def sent_by_def SendCoord_BEGIN)
next
  case (send s c line srv b cmd)
  obtain bs' where "relatedBranches (coords s c) tid = Some bs'"
    "relatedBranches srv = (relatedBranches (coords s c))(tid \<mapsto> insert b bs')"
    using SendCoord_Forward [OF send(2)] by blast
  then show ?case using send(1,3) by (simp add: sent_ok_def sent_by_def)
next
  case (replied s c r srv calls reply)
  show ?case
  proof (cases "r = NF_ABRT")
    case True
    then have "reply = NF_ABRT" using replied(2) by (auto simp: SendCoord_replied_def split: prod.splits)
    then show ?thesis by (simp add: sent_ok_def sent_by_def NF_ABRT_def cli_stops_def)
  next
    case False
    then show ?thesis using replied by (auto simp: SendCoord_replied_def sent_ok_def sent_by_def)
  qed
next
  case (abort_tx s c srv calls reply)
  then have "reply = ''ABORTED''" using DoAbort_calls by (simp add: SendCoord_ABORT)
  then show ?case by (simp add: sent_ok_def sent_by_def)
next
  case (commit_tx s c srv bs')
  then show ?case by (simp add: sent_ok_def sent_by_def SendCoord_COMMIT)
next
  case (vote b s names v)
  then show ?case by (cases "phase s tid") (simp_all add: sent_ok_def sent_by_def insert_absorb)
next
  case (decide s c votes srv calls reply)
  then have "reply = ''COMMIT OK'' \<longrightarrow> relatedBranches srv tid = relatedBranches (coords s c) tid"
    by (auto simp: TwoPhaseCommit_def Let_def split: option.splits if_splits dest!: DoAbort_calls)
  then show ?case using decide(1,3) by (simp add: sent_ok_def sent_by_def)
next
  case (execute b v s cnames lnames pnames a out)
  then show ?case by (cases "phase s tid") (simp_all add: sent_ok_def sent_by_def insert_absorb)
qed (simp_all add: sent_ok_def sent_by_def)

lemma txran_sent: "txran dial s F \<Longrightarrow> sent_ok (view s t) (goals F t)"
proof (induction arbitrary: t rule: txran.induct)
  case (start srvs)
  show ?case by (simp add: sent_ok_def tx_init_def)
next
  case (step s F tid s')
  then show ?case
    using txstep_sent [OF step(2) step.IH [of tid]] txstep_frame [OF step(2), of t] goals_sent_by [of t tid s']
    by (cases "t = tid") simp_all
qed

lemma txstep_sends:
  assumes "txstep dial tid s s'" "phase s' tid = Sending c b cmd" "phase s tid \<noteq> phase s' tid"
  shows "Tid cmd = tid \<and> Branch cmd = b"
  using assms by (cases rule: txstep.cases) (auto elim: SendCoord_Forward split: if_splits elim!: add_vote.elims)

lemma txran_named: "txran dial s F \<Longrightarrow> (\<forall>(t, b, cmd) \<in> F. Tid cmd = t \<and> Branch cmd = b) \<and>
    (\<forall>t c b cmd. phase s t = Sending c b cmd \<longrightarrow> Tid cmd = t \<and> Branch cmd = b)"
proof (induction rule: txran.induct)
  case (step s F tid s')
  have "Tid cmd = t \<and> Branch cmd = b" if "phase s' t = Sending c b cmd" for t c b cmd
  proof (cases "phase s' t = phase s t")
    case False
    then have "t = tid" using txstep_frame [OF step(2), of t] by (auto simp: view_def)
    then show ?thesis using txstep_sends [OF step(2)] that False by metis
  next
    case True
    then show ?thesis using that step.IH by metis
  qed
  then show ?case using step.IH by (auto simp: sent_by_def split: tx_phase.splits)
qed (simp add: tx_init_def)

subsection \<open>Guarantees of the whole system\<close>

text \<open>
  C3: Atomic commitment. Whatever clients, coordinators and branches do, all branches that have executed the outcome of a
  transaction have executed the same one; once the client has its last reply, it is a commit exactly when the reply was
  COMMIT OK.
\<close>

theorem tx_atomic:
  assumes "txreach dial s" "(b, tid, v) \<in> decisions s" "(b', tid, v') \<in> decisions s"
  shows "v = v' \<and> (\<exists>c r. phase s tid = Ended c r \<and> v = (r = ''COMMIT OK''))"
proof -
  note ok = conjunct1 [OF txreach_ok [OF assms(1), of tid]]
  have d: "(b, v) \<in> of_tx tid (decisions s)" "(b', v') \<in> of_tx tid (decisions s)" using assms(2,3) by simp_all
  obtain c r where p: "phase s tid = Ended c r"
    using ok d by (cases "phase s tid") (auto simp: tx_ok_def resting_def collecting_ok_def)
  then have "\<forall>b w. (b, w) \<in> of_tx tid (decisions s) \<longrightarrow> w = (r = ''COMMIT OK'')" using ok by (simp add: tx_ok_def ended_ok_def)
  then show ?thesis using d p by blast
qed

text \<open>
  C15: A commit reaches every branch. When a client has been told COMMIT OK and no call of its transaction is on its way any
  more, the branches that have executed the commit are exactly those to which a command of the transaction was sent in the
  course of the run, as recorded beside the state by \<open>txran\<close>; each of these commands was sent to the branch it names. No
  branch has executed an abort.
\<close>

theorem tx_commit_complete:
  assumes "txran dial s F" "phase s tid = Ended c ''COMMIT OK''" "\<And>b k. (b, tid, k) \<notin> flight s"
  shows "{b. (b, tid, True) \<in> decisions s} = {b. \<exists>cmd. (tid, b, cmd) \<in> F} \<and>
    (\<forall>b cmd. (tid, b, cmd) \<in> F \<longrightarrow> Tid cmd = tid \<and> Branch cmd = b) \<and> (\<forall>b. (b, tid, False) \<notin> decisions s)"
proof -
  have "ended_ok (view s tid) c True"
    using conjunct1 [OF txreach_ok [OF txran_reach [OF assms(1)], of tid]] assms(2) by (simp add: tx_ok_def)
  then have "relatedBranches (coords s c) tid = Some {b. (b, tid, True) \<in> decisions s}" "\<forall>b. (b, tid, False) \<notin> decisions s"
    using assms(3) by (auto simp: ended_ok_def)
  moreover have "relatedBranches (coords s c) tid = Some (goals F tid)"
    using txran_sent [OF assms(1), of tid] assms(2) by (simp add: sent_ok_def)
  ultimately show ?thesis using txran_named [OF assms(1)] by (auto simp: goals_def)
qed

text \<open>
  C9: The branches of the whole system behave as the branch that was studied alone: every site is a reachable state of \<open>bstep\<close>, that is, coordinators and
  clients keep to the rules \<open>bstep\<close> relies on. So no committed balance of any branch of the system is ever negative, and
  a transaction with the write lock of an account is the only one with a lock on it.
\<close>

theorem tx_system_refines_branch:
  assumes "txreach dial s"
  shows "breach b (sites s b) \<and> 0 \<le> sint (map_get 0 (committedData (app (sites s b))) acct) \<and>
    (holds (app (sites s b)) acct t = Some False \<and> holds (app (sites s b)) acct t' \<noteq> None \<longrightarrow> t' = t)"
proof -
  have r: "breach b (sites s b)" using txreach_ok [OF assms] by blast
  then have "binv (sites s b)" by (rule breach_binv)
  then show ?thesis using r holds_exclusive by (auto simp: binv_def no_debt_def)
qed

end
