(* ===== verification/Tx_System_Runs.thy ===== *)
theory Tx_System_Runs
  imports Tx_System
begin

section \<open>Transactions: a run of the whole system\<close>

text \<open>
  One client deposits into an account of branch A and into one of branch B and commits, with A as its
  coordinator. The states it goes through are those in which the hypotheses of the properties of \<open>Tx_System\<close> hold.
\<close>

abbreviation reaches :: "string \<Rightarrow> string \<Rightarrow> bool" where
  "reaches \<equiv> \<lambda>_ _. True"

definition dep :: "string \<Rightarrow> string \<Rightarrow> goint \<Rightarrow> Command" where
  "dep b a n = \<lparr>Tid = ''t'', Branch = b, Account = a, Method = ''DEPOSIT'', Amount_c = n\<rparr>"

definition unheld :: "string \<Rightarrow> TxApp" where
  "unheld a = \<lparr>locks = [a \<mapsto> \<lparr>rwMu = \<lparr>readers = 0, writer = False\<rparr>, tids = Map.empty\<rparr>],
     txLockInfo = [''t'' \<mapsto> Map.empty], committedData = Map.empty, cache = [''t'' \<mapsto> Map.empty]\<rparr>"

definition held :: "string \<Rightarrow> goint \<Rightarrow> TxApp" where
  "held a n = \<lparr>locks = [a \<mapsto> \<lparr>rwMu = \<lparr>readers = 0, writer = True\<rparr>, tids = [''t'' \<mapsto> False]\<rparr>],
     txLockInfo = [''t'' \<mapsto> [a \<mapsto> False]], committedData = Map.empty, cache = [''t'' \<mapsto> [a \<mapsto> n]]\<rparr>"

definition settled :: "string \<Rightarrow> goint \<Rightarrow> TxApp" where
  "settled a n = \<lparr>locks = [a \<mapsto> \<lparr>rwMu = \<lparr>readers = 0, writer = False\<rparr>, tids = Map.empty\<rparr>],
     txLockInfo = Map.empty, committedData = [a \<mapsto> n], cache = Map.empty\<rparr>"

definition site :: "TxApp \<Rightarrow> string set \<Rightarrow> branch_state" where
  "site ap p = \<lparr>app = ap, waiting = Map.empty, prepared = p\<rparr>"

lemmas branch_evals = ForwardCmd_start_def ForwardCmd_finish_def fwd_init_def fwd_body_def acquire_start_def acquire_finish_def
  Deposit_body_def Commit_def releaseLocks_def nested_put_def nested_get_def nested_delete_def rw_new_def rw_Lock_def
  rw_Unlock_def map_get_def Let_def dep_def

lemma deposit_calls:
  "ForwardCmd_start b (app binit) (dep b a n) = Inr (unheld a, Wait)"
  "ForwardCmd_finish b (unheld a) (dep b a n) = Some (Inr (held a n, OK))"
  by (simp_all add: branch_evals unheld_def held_def binit_def)

lemma commit_call: "\<exists>out. Commit (held a n) ''t'' True [a] [] [a] = Inr (settled a n, out)"
  by (simp add: branch_evals held_def settled_def)

lemma held_names: "locked_names (held a n) ''t'' [a]" "changed_names (held a n) ''t'' [a]"
  by (simp_all add: held_def locked_names_def changed_names_def)

definition srv0 :: Server where
  "srv0 = \<lparr>branch_s = ''A'', port_s = ''1'', canCommit = Map.empty, haveCommitted = Map.empty,
     branchInfo = [''A'' \<mapsto> \<lparr>addr = ''a'', bport = ''1''\<rparr>, ''B'' \<mapsto> \<lparr>addr = ''b'', bport = ''2''\<rparr>], rpcClients = {}, relatedBranches = Map.empty\<rparr>"

definition sys :: "Server \<Rightarrow> (string \<Rightarrow> branch_state) \<Rightarrow> tx_phase \<Rightarrow> (string \<times> string \<times> tcall) set \<Rightarrow> (string \<times> string \<times> bool) set \<Rightarrow> txsys"
  where "sys srv si p fl de = \<lparr>coords = (\<lambda>_. srv0)(''A'' := srv), sites = si, phase = (\<lambda>_. NotBegun)(''t'' := p), flight = fl, decisions = de\<rparr>"

lemma sys_step: "txreach reaches s \<Longrightarrow> txstep reaches ''t'' s s' \<Longrightarrow> txreach reaches s'"
  by (rule txreach.step)

lemma run_deposit:
  assumes "txreach reaches (sys srv si (Idle ''A'') {} {})" "si b = binit"
    "SendCoord reaches srv ''t'' line = Inr (srv', Forward b (dep b a n))"
  shows "txreach reaches (sys srv' (si(b := site (held a n) {})) (Idle ''A'') {} {})"
proof -
  let ?si1 = "si(b := \<lparr>app = unheld a, waiting = [''t'' \<mapsto> dep b a n], prepared = {}\<rparr>)" and ?si2 = "si(b := site (held a n) {})"
  have s1: "txstep reaches ''t'' (sys srv si (Idle ''A'') {} {}) (sys srv' si (Sending ''A'' b (dep b a n)) {} {})"
    using txstep.send [of "sys srv si (Idle ''A'') {} {}" "''t''" "''A''" reaches line srv' b "dep b a n"] assms(3) by (simp add: sys_def)
  have s2: "txstep reaches ''t'' (sys srv' si (Sending ''A'' b (dep b a n)) {} {}) (sys srv' ?si1 (Blocked ''A'' b) {} {})"
    using txstep.arrive_wait [of "sys srv' si (Sending ''A'' b (dep b a n)) {} {}" "''t''" "''A''" b "dep b a n" "unheld a" reaches]
      assms(2) deposit_calls(1) by (simp add: sys_def binit_def)
  have s3: "txstep reaches ''t'' (sys srv' ?si1 (Blocked ''A'' b) {} {}) (sys srv' ?si2 (Replied ''A'' OK) {} {})"
    using txstep.granted [of "sys srv' ?si1 (Blocked ''A'' b) {} {}" "''t''" "''A''" b "dep b a n" "held a n" OK reaches] deposit_calls(2)
    by (simp add: sys_def site_def)
  have "SendCoord_replied srv' ''t'' OK = (srv', {}, OK)" "\<not> cli_stops OK"
    by (simp_all add: SendCoord_replied_def OK_def NF_ABRT_def cli_stops_def)
  then have s4: "txstep reaches ''t'' (sys srv' ?si2 (Replied ''A'' OK) {} {}) (sys srv' ?si2 (Idle ''A'') {} {})"
    using txstep.replied [of "sys srv' ?si2 (Replied ''A'' OK) {} {}" "''t''" "''A''" OK srv' "{}" OK reaches]
    by (simp add: sys_def commit_calls_def)
  show ?thesis by (rule sys_step [OF sys_step [OF sys_step [OF sys_step [OF assms(1) s1] s2] s3] s4])
qed

definition srv_at :: "string set \<Rightarrow> int \<Rightarrow> Server" where
  "srv_at bs k = srv0\<lparr>canCommit := [''t'' \<mapsto> k], haveCommitted := [''t'' \<mapsto> 0], rpcClients := bs, relatedBranches := [''t'' \<mapsto> bs]\<rparr>"

lemma atoi_digits: "atoi ''5'' = Some 5" "atoi ''7'' = Some 7"
  by code_simp+

lemma parse_deposits:
  "parse_cmd ''t'' ''DEPOSIT A.x 5'' = Inr (dep ''A'' ''x'' 5)" "parse_cmd ''t'' ''DEPOSIT B.y 7'' = Inr (dep ''B'' ''y'' 7)"
  by (simp_all add: parse_cmd_def slice_get_def trim_suffix_def dep_def atoi_digits Let_def)

lemma send_deposits:
  "SendCoord reaches (srv_at {} 0) ''t'' ''DEPOSIT A.x 5'' = Inr (srv_at {''A''} 0, Forward ''A'' (dep ''A'' ''x'' 5))"
  "SendCoord reaches (srv_at {''A''} 0) ''t'' ''DEPOSIT B.y 7'' = Inr (srv_at {''A'', ''B''} 0, Forward ''B'' (dep ''B'' ''y'' 7))"
  by (simp_all add: SendCoord_def parse_deposits, simp_all add: srv_at_def srv0_def dep_def Let_def insert_commute)

subsection \<open>The commit\<close>

definition sites0 :: "string \<Rightarrow> branch_state" where
  "sites0 = (\<lambda>_. binit)(''A'' := site (held ''x'' 5) {}, ''B'' := site (held ''y'' 7) {})"

lemma run_begun: "txreach reaches (sys (srv_at {''A'', ''B''} 0) sites0 (Idle ''A'') {} {})"
proof -
  have "txreach reaches (sys srv0 (\<lambda>_. binit) NotBegun {} {})"
    using txreach.start [of reaches "\<lambda>_. srv0"] by (simp add: sys_def tx_init_def fun_upd_idem)
  moreover have "SendCoord reaches srv0 ''t'' ''BEGIN'' = Inr (srv_at {} 0, ReplyNow OK)"
    by (simp add: SendCoord_def srv_at_def srv0_def)
  then have "txstep reaches ''t'' (sys srv0 (\<lambda>_. binit) NotBegun {} {}) (sys (srv_at {} 0) (\<lambda>_. binit) (Idle ''A'') {} {})"
    using txstep.begin_tx [of "sys srv0 (\<lambda>_. binit) NotBegun {} {}" "''t''" reaches "''A''" "srv_at {} 0" OK] by (simp add: sys_def)
  ultimately have "txreach reaches (sys (srv_at {} 0) (\<lambda>_. binit) (Idle ''A'') {} {})" by (rule sys_step)
  from run_deposit [OF this _ send_deposits(1)] have
    "txreach reaches (sys (srv_at {''A''} 0) ((\<lambda>_. binit)(''A'' := site (held ''x'' 5) {})) (Idle ''A'') {} {})" by simp
  from run_deposit [OF this _ send_deposits(2)] show ?thesis by (simp add: sites0_def)
qed

lemma run_vote:
  assumes "txreach reaches (sys srv si (Collecting ''A'' votes) fl {})" "(b, ''t'', PrepareCall) \<in> fl" "si b = site (held a n) {}" "0 \<le> sint n"
  shows "txreach reaches (sys srv (si(b := site (held a n) {''t''})) (Collecting ''A'' (votes @ [True])) (fl - {(b, ''t'', PrepareCall)}) {})"
proof -
  have "Prepare (held a n) ''t'' [a]" using assms(4) by (simp add: Prepare_def held_def)
  then have "txstep reaches ''t'' (sys srv si (Collecting ''A'' votes) fl {})
      (sys srv (si(b := site (held a n) {''t''})) (Collecting ''A'' (votes @ [True])) (fl - {(b, ''t'', PrepareCall)}) {})"
    using txstep.vote [of b "''t''" "sys srv si (Collecting ''A'' votes) fl {}" "[a]" True reaches] assms(2,3) held_names(1) [of a n]
    by (simp add: sys_def site_def)
  then show ?thesis using assms(1) by (rule sys_step [rotated])
qed

lemma run_execute:
  assumes "txreach reaches (sys srv si p fl de)" "(b, ''t'', CommitCall True) \<in> fl" "si b = site (held a n) {''t''}"
  shows "txreach reaches (sys srv (si(b := site (settled a n) {})) p (fl - {(b, ''t'', CommitCall True)}) (insert (b, ''t'', True) de))"
proof -
  obtain out where "Commit (held a n) ''t'' True [a] [] [a] = Inr (settled a n, out)" using commit_call by blast
  then have "txstep reaches ''t'' (sys srv si p fl de)
      (sys srv (si(b := site (settled a n) {})) p (fl - {(b, ''t'', CommitCall True)}) (insert (b, ''t'', True) de))"
    using txstep.execute [of b "''t''" True "sys srv si p fl de" "[a]" "[a]" "[]" "settled a n" out reaches] assms(2,3) held_names [of a n]
    by (simp add: sys_def site_def)
  then show ?thesis using assms(1) by (rule sys_step [rotated])
qed

definition sites1 :: "string \<Rightarrow> branch_state" where
  "sites1 = (\<lambda>_. binit)(''A'' := site (settled ''x'' 5) {}, ''B'' := site (settled ''y'' 7) {})"

definition committed_sys :: txsys where
  "committed_sys = sys (srv_at {''A'', ''B''} 2) sites1 (Ended ''A'' ''COMMIT OK'') {} {(''A'', ''t'', True), (''B'', ''t'', True)}"

lemma run_committed: "txreach reaches committed_sys"
proof -
  let ?prep = "\<lambda>bs. (\<lambda>b. (b, ''t'', PrepareCall)) ` bs" and ?srv = "srv_at {''A'', ''B''} 0"
  have "SendCoord reaches ?srv ''t'' ''COMMIT'' = Inr (?srv, CollectVotes {''A'', ''B''})" by (simp add: SendCoord_def srv_at_def)
  then have "txstep reaches ''t'' (sys ?srv sites0 (Idle ''A'') {} {}) (sys ?srv sites0 (Collecting ''A'' []) (?prep {''A'', ''B''}) {})"
    using txstep.commit_tx [of "sys ?srv sites0 (Idle ''A'') {} {}" "''t''" "''A''" reaches ?srv "{''A'', ''B''}"] by (simp add: sys_def)
  then have "txreach reaches (sys ?srv sites0 (Collecting ''A'' []) (?prep {''A'', ''B''}) {})" by (rule sys_step [OF run_begun])
  from run_vote [OF this, of "''A''" "''x''" 5] have
    "txreach reaches (sys ?srv (sites0(''A'' := site (held ''x'' 5) {''t''})) (Collecting ''A'' [True]) (?prep {''B''}) {})"
    by (simp add: sites0_def insert_Diff_if)
  from run_vote [OF this, of "''B''" "''y''" 7] have r:
    "txreach reaches (sys ?srv (sites0(''A'' := site (held ''x'' 5) {''t''}, ''B'' := site (held ''y'' 7) {''t''})) (Collecting ''A'' [True, True]) {} {})"
    (is "txreach reaches (sys ?srv ?si _ {} {})") by (simp add: sites0_def)
  have "TwoPhaseCommit ?srv ''t'' [True, True] = Some (Inr (srv_at {''A'', ''B''} 2, {(''A'', True), (''B'', True)}, ''COMMIT OK''))"
    by (simp add: TwoPhaseCommit_def srv_at_def Let_def)
  then have "txstep reaches ''t'' (sys ?srv ?si (Collecting ''A'' [True, True]) {} {})
      (sys (srv_at {''A'', ''B''} 2) ?si (Ended ''A'' ''COMMIT OK'') {(''A'', ''t'', CommitCall True), (''B'', ''t'', CommitCall True)} {})"
    using txstep.decide [of "sys ?srv ?si (Collecting ''A'' [True, True]) {} {}" "''t''" "''A''" "[True, True]"
        "srv_at {''A'', ''B''} 2" "{(''A'', True), (''B'', True)}" "''COMMIT OK''" reaches] by (simp add: sys_def commit_calls_def)
  from run_execute [OF sys_step [OF r this], of "''A''" "''x''" 5] have
    "txreach reaches (sys (srv_at {''A'', ''B''} 2) (?si(''A'' := site (settled ''x'' 5) {})) (Ended ''A'' ''COMMIT OK'')
      {(''B'', ''t'', CommitCall True)} {(''A'', ''t'', True)})" by (simp add: insert_Diff_if)
  from run_execute [OF this, of "''B''" "''y''" 7] show ?thesis
    by (simp add: committed_sys_def sites0_def sites1_def insert_commute fun_upd_twist)
qed

subsection \<open>The properties on this run\<close>

theorem tx_atomic_witness:
  "txreach reaches committed_sys \<and> (''A'', ''t'', True) \<in> decisions committed_sys \<and> (''B'', ''t'', True) \<in> decisions committed_sys \<and>
   (\<exists>c r. phase committed_sys ''t'' = Ended c r \<and> True = (r = ''COMMIT OK''))"
proof -
  have d: "(''A'', ''t'', True) \<in> decisions committed_sys" "(''B'', ''t'', True) \<in> decisions committed_sys"
    by (simp_all add: committed_sys_def sys_def)
  show ?thesis using tx_atomic [OF run_committed d] d run_committed by blast
qed

theorem tx_commit_complete_witness:
  "\<exists>F. txran reaches committed_sys F \<and> {b. \<exists>cmd. (''t'', b, cmd) \<in> F} = {''A'', ''B''}"
proof -
  obtain F where F: "txran reaches committed_sys F" using txreach_ran [OF run_committed] by blast
  have "phase committed_sys ''t'' = Ended ''A'' ''COMMIT OK''" "\<And>b k. (b, ''t'', k) \<notin> flight committed_sys"
    by (simp_all add: committed_sys_def sys_def)
  from tx_commit_complete [OF F this] have "{b. \<exists>cmd. (''t'', b, cmd) \<in> F} = {b. (b, ''t'', True) \<in> decisions committed_sys}"
    by simp
  also have "\<dots> = {''A'', ''B''}" by (auto simp: committed_sys_def sys_def)
  finally show ?thesis using F by blast
qed

theorem tx_system_refines_branch_witness:
  "txreach reaches committed_sys \<and> committedData (app (sites committed_sys ''B'')) ''y'' = Some 7 \<and> breach ''B'' (sites committed_sys ''B'')"
proof -
  have "committedData (app (sites committed_sys ''B'')) ''y'' = Some 7"
    by (simp add: committed_sys_def sys_def sites1_def site_def settled_def)
  then show ?thesis using tx_system_refines_branch [OF run_committed, of "''B''" "''y''"] run_committed by blast
qed

end
