(* ===== verification/Tx_Ledger.thy ===== *)
theory Tx_Ledger
  imports Tx_System_Runs
begin

section \<open>Transactions: the balances are the books\<close>

text \<open>
  What clients are promised, in their own terms: the books list every deposit and every withdrawal a branch has
  answered with OK, in the order of the answers. \<open>txtrace\<close> keeps the books along a run of \<open>txstep\<close>; it adds nothing
  to a state and restricts no step (\<open>txreach_has_books\<close>). The theorems say that the locks, the caches and the commit loop
  of the branches implement the books: a committed balance is the sum of the entries of the transactions that the branch
  has committed, what a transaction has changed is the sum of its own entries, and a balance reply is the sum of both.
\<close>

subsection \<open>The books\<close>

record posting =
  by_tx :: string
  at_branch :: string
  on_acct :: string
  delta :: goint

definition posting :: "string \<Rightarrow> Command \<Rightarrow> string \<Rightarrow> posting list" where
  "posting b cmd r =
     (if r = OK \<and> Method cmd = ''DEPOSIT'' then [\<lparr>by_tx = Tid cmd, at_branch = b, on_acct = Account cmd, delta = Amount_c cmd\<rparr>]
      else if r = OK \<and> Method cmd = ''WITHDRAW'' then [\<lparr>by_tx = Tid cmd, at_branch = b, on_acct = Account cmd, delta = - Amount_c cmd\<rparr>]
      else [])"

text \<open>The entry a step of transaction \<open>tid\<close> makes: one when a branch answers its command.\<close>

fun answered :: "(string \<rightharpoonup> Command) \<Rightarrow> tx_phase \<Rightarrow> tx_phase \<Rightarrow> posting list" where
  "answered w (Sending c b cmd) (Replied c' r) = posting b cmd r"
| "answered w (Blocked c b) (Replied c' r) = (case w b of Some cmd \<Rightarrow> posting b cmd r | None \<Rightarrow> [])"
| "answered w p p' = []"

inductive txtrace :: "(string \<Rightarrow> string \<Rightarrow> bool) \<Rightarrow> txsys \<Rightarrow> posting list \<Rightarrow> bool" for dial where
  start: "txtrace dial (tx_init srvs) []"
| step: "txtrace dial s books \<Longrightarrow> txstep dial tid s s' \<Longrightarrow>
    txtrace dial s' (books @ answered (\<lambda>b. waiting (sites s b) tid) (phase s tid) (phase s' tid))"

definition books_total :: "posting list \<Rightarrow> (posting \<Rightarrow> bool) \<Rightarrow> goint" where
  "books_total books P = sum_list (map delta (filter P books))"

definition is_on :: "string \<Rightarrow> string \<Rightarrow> posting \<Rightarrow> bool" where
  "is_on b acct e \<longleftrightarrow> at_branch e = b \<and> on_acct e = acct"

definition tx_total :: "posting list \<Rightarrow> string \<Rightarrow> string \<Rightarrow> string \<Rightarrow> goint" where
  "tx_total books b acct tid = books_total books (\<lambda>e. is_on b acct e \<and> by_tx e = tid)"

definition committed_total :: "posting list \<Rightarrow> (string \<times> string \<times> bool) set \<Rightarrow> string \<Rightarrow> string \<Rightarrow> goint" where
  "committed_total books de b acct = books_total books (\<lambda>e. is_on b acct e \<and> (b, by_tx e, True) \<in> de)"

lemma txtrace_reach: "txtrace dial s books \<Longrightarrow> txreach dial s"
  by (induction rule: txtrace.induct) (auto intro: txreach.intros)

lemma txreach_has_books: "txreach dial s \<Longrightarrow> \<exists>books. txtrace dial s books"
  by (induction rule: txreach.induct) (auto intro: txtrace.intros)

lemma total_append [simp]: "books_total (xs @ ys) P = books_total xs P + books_total ys P"
  by (simp add: books_total_def)

lemma total_Nil [simp]: "books_total [] P = 0"
  by (simp add: books_total_def)

lemma total_none: "(\<And>e. e \<in> set books \<Longrightarrow> \<not> P e) \<Longrightarrow> books_total books P = 0"
  by (simp add: books_total_def filter_False)

lemma total_cong: "(\<And>e. e \<in> set books \<Longrightarrow> P e = Q e) \<Longrightarrow> books_total books P = books_total books Q"
  by (simp add: books_total_def cong: filter_cong)

text \<open>Committing one more transaction adds its entries.\<close>

lemma total_more:
  assumes "\<And>e. e \<in> set books \<Longrightarrow> \<not> (P e \<and> Q e)"
  shows "books_total books (\<lambda>e. P e \<or> Q e) = books_total books P + books_total books Q"
  using assms by (induction books) (auto simp: books_total_def)

lemma committed_total_insert:
  assumes "(b, tid, True) \<notin> de"
  shows "committed_total books (insert (b, tid, True) de) b acct = committed_total books de b acct + tx_total books b acct tid"
proof -
  have "committed_total books (insert (b, tid, True) de) b acct =
      books_total books (\<lambda>e. (is_on b acct e \<and> (b, by_tx e, True) \<in> de) \<or> (is_on b acct e \<and> by_tx e = tid))"
    unfolding committed_total_def by (rule total_cong) auto
  also have "\<dots> = committed_total books de b acct + tx_total books b acct tid"
    unfolding committed_total_def tx_total_def by (rule total_more) (use assms in auto)
  finally show ?thesis .
qed

lemma committed_total_other:
  "(b', tid, v) \<noteq> (b, tid, True) \<Longrightarrow> committed_total books (insert (b', tid, v) de) b acct = committed_total books de b acct"
  unfolding committed_total_def by (rule total_cong) auto

subsection \<open>What a command does to the changes of its transaction\<close>

definition gain :: "Command \<Rightarrow> string \<Rightarrow> string \<Rightarrow> goint" where
  "gain cmd r acct = (if Account cmd = acct then sum_list (map delta (posting [] cmd r)) else 0)"

lemma tx_total_posting:
  "tx_total (posting b' cmd r) b acct t = (if b' = b \<and> t = Tid cmd then gain cmd r acct else 0)"
  by (auto simp: tx_total_def books_total_def posting_def gain_def is_on_def)

lemma own_change_nested: "own_change a t acct = (case nested_get (cache a) t acct of None \<Rightarrow> 0 | Some c \<Rightarrow> c)"
  by (simp add: own_change_def nested_get_def map_get_def split: option.splits)

lemma own_change_put:
  "nested_put (cache a) t x v = Inr c \<Longrightarrow> own_change (a\<lparr>cache := c\<rparr>) t acct = (if acct = x then v else own_change a t acct)"
  by (simp add: own_change_nested nested_get_put)

lemma Deposit_gain:
  assumes "Deposit_body a t x n = Inr (a', r)"
  shows "r = OK" "own_change a' t acct = own_change a t acct + (if x = acct then n else 0)"
proof -
  have d: "Deposit_body a t x n = bind_result (nested_put (cache a) t x (own_change a t x + n)) (\<lambda>c. Inr (a\<lparr>cache := c\<rparr>, OK))"
    by (simp add: Deposit_body_def own_change_nested split: option.splits)
  obtain c where c: "nested_put (cache a) t x (own_change a t x + n) = Inr c" "a' = a\<lparr>cache := c\<rparr>" "r = OK"
    using assms unfolding d by (auto simp: bind_result_Inr_iff)
  show "r = OK" by (rule c(3))
  show "own_change a' t acct = own_change a t acct + (if x = acct then n else 0)"
    using own_change_put [OF c(1)] c(2) by simp
qed

lemma Withdraw_gain:
  assumes "Withdraw_body a t x n = Inr (a', r)"
  shows "r = NF_ABRT \<and> a' = a \<or> r = OK \<and> (\<forall>acct. own_change a' t acct = own_change a t acct - (if x = acct then n else 0))"
proof (cases "committedData a x = None \<and> nested_get (cache a) t x = None")
  case True
  then show ?thesis using assms by (simp add: Withdraw_body_def)
next
  case False
  then have d: "Withdraw_body a t x n = bind_result (nested_put (cache a) t x (own_change a t x - n)) (\<lambda>c. Inr (a\<lparr>cache := c\<rparr>, OK))"
    by (auto simp: Withdraw_body_def own_change_nested Let_def)
  obtain c where c: "nested_put (cache a) t x (own_change a t x - n) = Inr c" "a' = a\<lparr>cache := c\<rparr>" "r = OK"
    using assms unfolding d by (auto simp: bind_result_Inr_iff)
  then show ?thesis using own_change_put [OF c(1)] by simp
qed

lemma OK_not_NF [simp]: "OK \<noteq> NF_ABRT" "NF_ABRT \<noteq> OK"
  by (simp_all add: OK_def NF_ABRT_def)

lemma fwd_body_gain:
  assumes "fwd_body branch a cmd = Inr (a', r)" "Method cmd \<in> {''DEPOSIT'', ''WITHDRAW'', ''BALANCE''}"
  shows "own_change a' (Tid cmd) acct = own_change a (Tid cmd) acct + gain cmd r acct"
proof -
  consider "Method cmd = ''DEPOSIT''" | "Method cmd = ''WITHDRAW''" | "Method cmd = ''BALANCE''" using assms(2) by auto
  then show ?thesis
  proof cases
    case 1
    then have "Deposit_body a (Tid cmd) (Account cmd) (Amount_c cmd) = Inr (a', r)" using assms(1) by (simp add: fwd_body_def)
    note g = Deposit_gain [OF this]
    show ?thesis using g(2) [of acct] g(1) 1 by (simp add: gain_def posting_def)
  next
    case 2
    then have "Withdraw_body a (Tid cmd) (Account cmd) (Amount_c cmd) = Inr (a', r)" using assms(1) by (simp add: fwd_body_def)
    then show ?thesis using Withdraw_gain 2 by (fastforce simp: gain_def posting_def)
  next
    case 3
    then show ?thesis using assms(1) by (simp add: fwd_body_def Let_def gain_def posting_def)
  qed
qed

lemma ForwardCmd_start_gain:
  assumes "locks_ok a" "ForwardCmd_start branch a cmd = Inr (a', res)"
  shows "own_change a' (Tid cmd) acct = own_change a (Tid cmd) acct + (case res of Wait \<Rightarrow> 0 | Reply r \<Rightarrow> gain cmd r acct)"
proof (cases "Method cmd \<in> {''DEPOSIT'', ''WITHDRAW'', ''BALANCE''}")
  case True
  note I = fwd_init_ok [OF assms(1), where tid = "Tid cmd"]
  obtain a2 w where s: "acquire_start (fwd_init a (Tid cmd)) (Tid cmd) (Account cmd) (Method cmd = ''BALANCE'') = Inr (a2, w)"
    "cache a2 = cache (fwd_init a (Tid cmd))"
    by (rule acquire_start_ok [OF I(1), of "Tid cmd" "Account cmd" "Method cmd = ''BALANCE''"], rule that)
  have c: "own_change a2 (Tid cmd) acct = own_change a (Tid cmd) acct" using I(7) s(2) by (simp add: own_change_nested)
  show ?thesis
  proof (cases w)
    case True
    then show ?thesis using assms(2) s(1) c \<open>Method cmd \<in> _\<close> by (auto simp: ForwardCmd_start_def Let_def)
  next
    case False
    then obtain r where "fwd_body branch a2 cmd = Inr (a', r)" "res = Reply r"
      using assms(2) s(1) True by (auto simp: ForwardCmd_start_def Let_def bind_result_Inr_iff)
    then show ?thesis using fwd_body_gain [OF _ True] c by simp
  qed
next
  case False
  then show ?thesis using assms(2) fwd_init_ok(7) [OF assms(1), where tid = "Tid cmd"]
    by (auto simp: ForwardCmd_start_def Let_def own_change_nested gain_def posting_def)
qed

lemma ForwardCmd_finish_gain:
  assumes "locks_ok a" "waits_ok a cmd" "ForwardCmd_finish branch a cmd = Some (Inr (a', r))"
  shows "own_change a' (Tid cmd) acct = own_change a (Tid cmd) acct + gain cmd r acct"
proof -
  obtain r1 where r1: "acquire_finish a (Tid cmd) (Account cmd) (Method cmd = ''BALANCE'') = Some r1"
    "Inr (a', r) = bind_result r1 (\<lambda>app1. fwd_body branch app1 cmd)"
    using assms(3) by (auto simp: ForwardCmd_finish_def split: option.splits)
  have W: "Method cmd \<in> {''DEPOSIT'', ''WITHDRAW'', ''BALANCE''}" "locks a (Account cmd) \<noteq> None" "txLockInfo a (Tid cmd) \<noteq> None"
    "if Method cmd = ''BALANCE'' then holds a (Account cmd) (Tid cmd) \<noteq> Some False else holds a (Account cmd) (Tid cmd) = None"
    using assms(2) unfolding waits_ok_def by blast+
  obtain a1 where a1: "r1 = Inr a1" "cache a1 = cache a" by (rule acquire_finish_ok [OF assms(1) r1(1) W(2-4)], rule that)
  then have "fwd_body branch a1 cmd = Inr (a', r)" using r1(2) by simp
  from fwd_body_gain [OF this W(1)] show ?thesis using a1(2) by (simp add: own_change_nested)
qed

subsection \<open>The branches keep the books\<close>

definition books_ok :: "txsys \<Rightarrow> posting list \<Rightarrow> bool" where
  "books_ok s books \<longleftrightarrow> (\<forall>b acct. map_get 0 (committedData (app (sites s b))) acct = committed_total books (decisions s) b acct \<and>
     (\<forall>t. own_change (app (sites s b)) t acct = (if \<exists>v. (b, t, v) \<in> decisions s then 0 else tx_total books b acct t)))"

lemma books_okD:
  assumes "books_ok s books"
  shows "map_get 0 (committedData (app (sites s b))) acct = committed_total books (decisions s) b acct"
    "own_change (app (sites s b)) t acct = (if \<exists>v. (b, t, v) \<in> decisions s then 0 else tx_total books b acct t)"
  using assms unfolding books_ok_def by blast+

lemma books_init: "books_ok (tx_init srvs) []"
  by (simp add: books_ok_def tx_init_def binit_def committed_total_def tx_total_def own_change_def)

lemma books_same:
  assumes "books_ok s books" "decisions s' = decisions s" "\<And>b. app (sites s' b) = app (sites s b)"
  shows "books_ok s' books"
  using assms unfolding books_ok_def by simp

lemma books_post:
  assumes ok: "books_ok s books" and undecided: "of_tx tid (decisions s) = {}"
    and s': "decisions s' = decisions s" "sites s' = (sites s)(b := x)" "committedData (app x) = committedData (app (sites s b))"
    and others: "\<And>t. t \<noteq> tid \<Longrightarrow> same_tx t (app (sites s b)) (app x)"
    and own: "\<And>acct. own_change (app x) tid acct = own_change (app (sites s b)) tid acct + tx_total new b acct tid"
    and new: "\<And>e. e \<in> set new \<Longrightarrow> at_branch e = b \<and> by_tx e = tid"
  shows "books_ok s' (books @ new)"
  unfolding books_ok_def
proof (intro allI conjI)
  fix b' acct
  have "(b', by_tx e, True) \<notin> decisions s" if "e \<in> set new" for e using new [OF that] undecided by (auto simp: of_tx_def)
  then have "committed_total new (decisions s) b' acct = 0" unfolding committed_total_def by (intro total_none) auto
  then have c: "committed_total (books @ new) (decisions s) b' acct = committed_total books (decisions s) b' acct"
    by (simp add: committed_total_def)
  have same: "committedData (app (sites s' b')) = committedData (app (sites s b'))" using s'(2,3) by simp
  show "map_get 0 (committedData (app (sites s' b'))) acct = committed_total (books @ new) (decisions s') b' acct"
    unfolding s'(1) c same by (rule books_okD(1) [OF ok])
  fix t
  have n: "tx_total new b' acct t = (if b' = b \<and> t = tid then tx_total new b acct tid else 0)"
    using new by (auto simp: tx_total_def is_on_def intro!: total_none)
  have "own_change (app (sites s' b')) t acct = own_change (app (sites s b')) t acct + tx_total new b' acct t"
    using own same_tx_change [OF others] s'(2) n by simp
  moreover have "tx_total new b' acct t = 0" if "\<exists>v. (b', t, v) \<in> decisions s" using n undecided that by (auto simp: of_tx_def)
  ultimately show "own_change (app (sites s' b')) t acct = (if \<exists>v. (b', t, v) \<in> decisions s' then 0 else tx_total (books @ new) b' acct t)"
    using books_okD(2) [OF ok, of b' t acct] s'(1) by (auto simp: tx_total_def)
qed

lemma posting_tags: "e \<in> set (posting b cmd r) \<Longrightarrow> at_branch e = b \<and> by_tx e = Tid cmd"
  by (auto simp: posting_def split: if_splits)

lemma own_total_posting: "tx_total (posting b cmd r) b acct (Tid cmd) = gain cmd r acct"
  by (simp add: tx_total_posting)

lemma books_settle:
  assumes ok: "books_ok s books" and same: "\<And>w. (b, tid, w) \<in> decisions s \<Longrightarrow> w = v"
    and s': "decisions s' = insert (b, tid, v) (decisions s)" "sites s' = (sites s)(b := x)"
    and com: "\<And>acct. map_get 0 (committedData (app x)) acct =
      map_get 0 (committedData (app (sites s b))) acct + (if v then own_change (app (sites s b)) tid acct else 0)"
    and own: "cache (app x) tid = None" and others: "\<And>t. t \<noteq> tid \<Longrightarrow> same_tx t (app (sites s b)) (app x)"
  shows "books_ok s' books"
  unfolding books_ok_def
proof (intro allI conjI)
  fix b' acct
  have here: "map_get 0 (committedData (app x)) acct = committed_total books (insert (b, tid, v) (decisions s)) b acct"
  proof (cases "v \<and> (b, tid, True) \<notin> decisions s")
    case True
    then have "\<not> (\<exists>w. (b, tid, w) \<in> decisions s)" using same by (metis (full_types))
    then show ?thesis using True com books_okD [OF ok] by (simp add: committed_total_insert)
  next
    case False
    then have "\<not> v \<or> own_change (app (sites s b)) tid acct = 0 \<and> (b, tid, v) \<in> decisions s" using books_okD(2) [OF ok] by auto
    then show ?thesis using com books_okD(1) [OF ok] by (auto simp: committed_total_other insert_absorb)
  qed
  show "map_get 0 (committedData (app (sites s' b'))) acct = committed_total books (decisions s') b' acct"
    using here books_okD(1) [OF ok] s' by (cases "b' = b") (simp_all add: committed_total_other)
  fix t
  show "own_change (app (sites s' b')) t acct = (if \<exists>v. (b', t, v) \<in> decisions s' then 0 else tx_total books b' acct t)"
  proof (cases "b' = b \<and> t = tid")
    case True
    then show ?thesis using own s' by (auto simp: own_change_def)
  next
    case False
    then have "own_change (app (sites s' b')) t acct = own_change (app (sites s b')) t acct" using same_tx_change [OF others] s'(2) by auto
    moreover have "(\<exists>v. (b', t, v) \<in> decisions s') = (\<exists>v. (b', t, v) \<in> decisions s)" using False s'(1) by auto
    ultimately show ?thesis using books_okD(2) [OF ok] by simp
  qed
qed

lemma answered_frame [simp]:
  "answered w p p = []" "answered w p (Idle c) = []" "answered w p (Sending c b cmd) = []" "answered w p (Blocked c b) = []"
  "answered w p (Ended c r) = []" "answered w p (Collecting c votes) = []" "answered w p (add_vote v p) = []"
  by (cases p; simp)+

lemma books_step:
  assumes "txstep dial tid s s'" "tx_ok tid (view s tid)" "\<And>b. binv (sites s b)" "books_ok s books"
  shows "books_ok s' (books @ answered (\<lambda>b. waiting (sites s b) tid) (phase s tid) (phase s' tid))"
  using assms
proof (induction rule: txstep.induct)
  case (arrive_wait s c b cmd a)
  note f = tx_ok_free(1) [OF arrive_wait(3,1)] and q = tx_ok_quiet(2) [OF arrive_wait(3), of c b cmd]
  have l: "locks_ok (app (sites s b))" using arrive_wait(4) [of b] by (simp add: binv_def)
  obtain a' where fs: "a' = a" "committedData a' = committedData (app (sites s b))" "\<And>t. t \<noteq> Tid cmd \<Longrightarrow> same_tx t (app (sites s b)) a'"
    by (rule ForwardCmd_start_ok [OF l, of b cmd]) (use arrive_wait(2) in auto)
  show ?case
    using books_post [OF arrive_wait(5) q, where new = "[]" and b = b] fs f arrive_wait(1) ForwardCmd_start_gain [OF l arrive_wait(2)]
    by (simp add: tx_total_def)
next
  case (arrive_done s c b cmd a r)
  note f = tx_ok_free(1) [OF arrive_done(3,1)] and q = tx_ok_quiet(2) [OF arrive_done(3), of c b cmd]
  have l: "locks_ok (app (sites s b))" using arrive_done(4) [of b] by (simp add: binv_def)
  obtain a' where fs: "a' = a" "committedData a' = committedData (app (sites s b))" "\<And>t. t \<noteq> Tid cmd \<Longrightarrow> same_tx t (app (sites s b)) a'"
    by (rule ForwardCmd_start_ok [OF l, of b cmd]) (use arrive_done(2) in auto)
  have g: "own_change a (Tid cmd) acct = own_change (app (sites s b)) (Tid cmd) acct + tx_total (posting b cmd r) b acct (Tid cmd)" for acct
    using ForwardCmd_start_gain [OF l arrive_done(2)] by (simp add: own_total_posting)
  show ?case
    by (rule books_post [OF arrive_done(5) q, where b = b and x = "(sites s b)\<lparr>app := a\<rparr>"])
      (use fs f arrive_done(1) g posting_tags in auto)
next
  case (granted s c b cmd a r)
  have l: "locks_ok (app (sites s b))" "Tid cmd = tid" "waits_ok (app (sites s b)) cmd"
    using granted(2) granted(5) [of b] by (auto simp: binv_def wait_ok_def)
  have q: "of_tx tid (decisions s) = {}" using granted(1,4) by (simp add: tx_ok_def resting_def)
  obtain a' where fs: "a' = a" "committedData a' = committedData (app (sites s b))" "\<And>t. t \<noteq> Tid cmd \<Longrightarrow> same_tx t (app (sites s b)) a'"
    by (rule ForwardCmd_finish_ok [OF l(1,3) granted(3)]) auto
  have g: "own_change a (Tid cmd) acct = own_change (app (sites s b)) (Tid cmd) acct + tx_total (posting b cmd r) b acct (Tid cmd)" for acct
    using ForwardCmd_finish_gain [OF l(1,3) granted(3)] by (simp add: own_total_posting)
  show ?case
    by (rule books_post [OF granted(6) q, where b = b and x = "(sites s b)\<lparr>app := a, waiting := (waiting (sites s b))(tid := None)\<rparr>"])
      (use fs l(2) granted(1,2) g posting_tags in auto)
next
  case (execute b v s cnames lnames pnames a out)
  have l: "locks_ok (app (sites s b))" using execute(6) [of b] by (simp add: binv_def)
  obtain a' out' where c: "Commit (app (sites s b)) tid v cnames pnames lnames = Inr (a', out')"
    "committedData a' = (if v then commit_loop (map_get Map.empty (cache (app (sites s b))) tid) (committedData (app (sites s b))) cnames
       else committedData (app (sites s b)))" "cache a' = (cache (app (sites s b)))(tid := None)"
    "\<And>t. t \<noteq> tid \<Longrightarrow> same_tx t (app (sites s b)) a'"
    by (rule Commit_ok [OF l execute(3), of v cnames pnames], rule that)
  have a: "a = a'" using c(1) execute(4) by simp
  have com: "map_get 0 (committedData a) acct =
      map_get 0 (committedData (app (sites s b))) acct + (if v then own_change (app (sites s b)) tid acct else 0)" for acct
    using execute(2) by (auto simp: a c(2) changed_names_def map_get_def commit_loop_apply own_change_def dom_def split: option.splits)
  have b': "(b, CommitCall v) \<in> of_tx tid (flight s)" using execute(1) by simp
  have same: "w = v" if "(b, tid, w) \<in> decisions s" for w
  proof -
    have d: "(b, w) \<in> of_tx tid (decisions s)" using that by simp
    obtain c r where "phase s tid = Ended c r"
      using execute(5) b' by (cases "phase s tid") (auto simp: tx_ok_def resting_def collecting_ok_def)
    then have "\<forall>b w. (b, CommitCall w) \<in> of_tx tid (flight s) \<longrightarrow> w = (r = ''COMMIT OK'')"
      "\<forall>b w. (b, w) \<in> of_tx tid (decisions s) \<longrightarrow> w = (r = ''COMMIT OK'')"
      using execute(5) by (simp_all add: tx_ok_def ended_ok_def)
    then show ?thesis using b' d by blast
  qed
  have "books_ok (s\<lparr>sites := (sites s)(b := (sites s b)\<lparr>app := a, prepared := prepared (sites s b) - {tid}\<rparr>),
      flight := flight s - {(b, tid, CommitCall v)}, decisions := insert (b, tid, v) (decisions s)\<rparr>) books"
    by (rule books_settle [OF execute(7) same, where x = "(sites s b)\<lparr>app := a, prepared := prepared (sites s b) - {tid}\<rparr>"])
      (use com c(3,4) a in auto)
  then show ?case by simp
qed (auto elim!: books_same simp: if_distrib [of "answered _ _"] if_split)

lemma txtrace_books: "txtrace dial s books \<Longrightarrow> books_ok s books"
proof (induction rule: txtrace.induct)
  case (start srvs)
  show ?case by (rule books_init)
next
  case (step s books tid s')
  note r = txreach_ok [OF txtrace_reach [OF step(1)]]
  show ?case by (rule books_step [OF step(2) _ _ step(3)]) (use r breach_binv in blast)+
qed

subsection \<open>Every entry is at a branch the coordinator knows of\<close>

text \<open>
  The branches at which a transaction may have entries: those its coordinator has noted, until the transaction is
  aborted; the coordinator then forgets them, and they no longer matter.
\<close>

definition noted :: "txsys \<Rightarrow> string \<Rightarrow> string \<Rightarrow> string set" where
  "noted s c t = map_get {} (relatedBranches (coords s c)) t"

definition scope :: "txsys \<Rightarrow> string \<Rightarrow> string set" where
  "scope s t = (case phase s t of NotBegun \<Rightarrow> {} | Idle c \<Rightarrow> noted s c t | Sending c b cmd \<Rightarrow> noted s c t | Blocked c b \<Rightarrow> noted s c t
     | Replied c r \<Rightarrow> noted s c t | Collecting c votes \<Rightarrow> noted s c t
     | Ended c r \<Rightarrow> if r = ''COMMIT OK'' then noted s c t else UNIV)"

fun target :: "tx_phase \<Rightarrow> string set" where
  "target (Sending c b cmd) = {b}"
| "target (Blocked c b) = {b}"
| "target p = {}"

definition entries_at :: "posting list \<Rightarrow> string \<Rightarrow> string set" where
  "entries_at books t = at_branch ` {e \<in> set books. by_tx e = t}"

definition noted_ok :: "txsys \<Rightarrow> posting list \<Rightarrow> string \<Rightarrow> bool" where
  "noted_ok s books t \<longleftrightarrow> entries_at books t \<union> target (phase s t) \<subseteq> scope s t"

lemma entries_at_append [simp]: "entries_at (xs @ ys) t = entries_at xs t \<union> entries_at ys t" "entries_at [] t = {}"
  by (auto simp: entries_at_def)

lemma entries_at_posting: "entries_at (posting b cmd r) t \<subseteq> (if t = Tid cmd then {b} else {})"
  using posting_tags by (auto simp: entries_at_def)

lemma noted_ok_frame: "view s' t = view s t \<Longrightarrow> noted_ok s' books t = noted_ok s books t"
proof -
  assume v: "view s' t = view s t"
  have p: "phase s' t = phase s t" using arg_cong [OF v, of v_phase] by simp
  have r: "relatedBranches (coords s' c) t = relatedBranches (coords s c) t" for c
    using fun_cong [OF arg_cong [OF v, of v_related], of c] by simp
  show ?thesis by (cases "phase s t") (simp_all add: noted_ok_def scope_def noted_def map_get_def p r)
qed

lemma noted_step:
  assumes "txstep dial tid s s'" "tx_ok tid (view s tid)" "noted_ok s books tid"
  shows "noted_ok s' (books @ answered (\<lambda>b. waiting (sites s b) tid) (phase s tid) (phase s' tid)) tid"
  using assms
proof (induction rule: txstep.induct)
  case (send s c line srv b cmd)
  obtain bs where "relatedBranches (coords s c) tid = Some bs" "relatedBranches srv = (relatedBranches (coords s c))(tid \<mapsto> insert b bs)"
    using SendCoord_Forward [OF send(2)] by blast
  then show ?case using send(1,4) by (auto simp: noted_ok_def scope_def noted_def)
next
  case (arrive_done s c b cmd a r)
  then show ?case using entries_at_posting [of b cmd r tid] by (auto simp: noted_ok_def scope_def noted_def split: if_splits)
next
  case (granted s c b cmd a r)
  then show ?case using entries_at_posting [of b cmd r tid] by (auto simp: noted_ok_def scope_def noted_def split: if_splits)
next
  case (replied s c r srv calls reply)
  then show ?case
    by (auto simp: noted_ok_def scope_def noted_def SendCoord_replied_def NF_ABRT_def cli_stops_def split: if_splits prod.splits)
next
  case (abort_tx s c srv calls reply)
  then show ?case using DoAbort_calls [of "coords s c" tid srv calls reply] by (simp add: SendCoord_ABORT noted_ok_def scope_def)
next
  case (commit_tx s c srv bs)
  then show ?case by (simp add: SendCoord_COMMIT noted_ok_def scope_def noted_def)
next
  case (vote b s names v)
  then show ?case by (cases "phase s tid") (auto simp: noted_ok_def scope_def noted_def)
next
  case (decide s c votes srv calls reply)
  have "reply \<noteq> ''COMMIT OK'' \<or> relatedBranches srv = relatedBranches (coords s c)"
    using decide(2) by (auto simp: TwoPhaseCommit_def DoAbort_def Let_def split: option.splits if_splits)
  then show ?case using decide(1,4) by (auto simp: noted_ok_def scope_def noted_def)
next
  case (execute b v s cnames lnames pnames a out)
  then show ?case by (cases "phase s tid") (auto simp: noted_ok_def scope_def noted_def)
qed (auto simp: noted_ok_def scope_def noted_def)

lemma answered_tags:
  assumes "txstep dial tid s s'" "tx_ok tid (view s tid)" "\<And>b. binv (sites s b)" "t \<noteq> tid"
  shows "entries_at (answered (\<lambda>b. waiting (sites s b) tid) (phase s tid) (phase s' tid)) t = {}"
proof (cases "answered (\<lambda>b. waiting (sites s b) tid) (phase s tid) (phase s' tid) = []")
  case False
  then obtain b cmd r where c: "answered (\<lambda>b. waiting (sites s b) tid) (phase s tid) (phase s' tid) = posting b cmd r"
    "(\<exists>c. phase s tid = Sending c b cmd) \<or> waiting (sites s b) tid = Some cmd"
    by (cases "(\<lambda>b. waiting (sites s b) tid, phase s tid, phase s' tid)" rule: answered.cases) (auto split: option.splits)
  then have "Tid cmd = tid"
    using tx_ok_free(1) [OF assms(2)] assms(3) [of b] by (auto simp: binv_def wait_ok_def)
  then show ?thesis using entries_at_posting [of b cmd r t] assms(4) c by simp
qed simp

lemma txtrace_noted: "txtrace dial s books \<Longrightarrow> noted_ok s books t"
proof (induction arbitrary: t rule: txtrace.induct)
  case (start srvs)
  show ?case by (simp add: noted_ok_def tx_init_def)
next
  case (step s books tid s' t)
  note r = txreach_ok [OF txtrace_reach [OF step(1)]]
  have inv: "binv (sites s b)" for b using r breach_binv by blast
  show ?case
  proof (cases "t = tid")
    case True
    then show ?thesis using noted_step [OF step(2) _ step(3)] r by blast
  next
    case False
    have "noted_ok s' books t" using noted_ok_frame [OF txstep_frame [OF step(2) False]] step(3) by simp
    then show ?thesis using answered_tags [OF step(2) _ inv False] r by (simp add: noted_ok_def)
  qed
qed

subsection \<open>What clients can rely on\<close>

definition told_commit :: "txsys \<Rightarrow> string \<Rightarrow> bool" where
  "told_commit s t \<longleftrightarrow> (case phase s t of Ended c r \<Rightarrow> r = ''COMMIT OK'' | _ \<Rightarrow> False)"

lemma decided_told:
  assumes "txreach dial s" "(b, t, True) \<in> decisions s"
  shows "told_commit s t"
proof -
  have d: "(b, True) \<in> of_tx t (decisions s)" using assms(2) by simp
  then show ?thesis using conjunct1 [OF txreach_ok [OF assms(1), of t]]
    by (cases "phase s t") (auto simp: tx_ok_def resting_def collecting_ok_def ended_ok_def told_commit_def simp del: in_of_tx)
qed

lemma told_decided:
  assumes "txtrace dial s books" "flight s = {}" "told_commit s (by_tx e)" "e \<in> set books"
  shows "(at_branch e, by_tx e, True) \<in> decisions s"
proof -
  obtain c where p: "phase s (by_tx e) = Ended c ''COMMIT OK''" using assms(3) by (auto simp: told_commit_def split: tx_phase.splits)
  have "relatedBranches (coords s c) (by_tx e) = Some {b. (b, by_tx e, True) \<in> decisions s}"
    using conjunct1 [OF txreach_ok [OF txtrace_reach [OF assms(1)], of "by_tx e"]] p assms(2) by (simp add: tx_ok_def ended_ok_def)
  moreover have "at_branch e \<in> entries_at books (by_tx e)" using assms(4) by (auto simp: entries_at_def)
  ultimately show ?thesis using txtrace_noted [OF assms(1), of "by_tx e"] p by (auto simp: noted_ok_def scope_def noted_def)
qed

text \<open>
  C6: The balances are the books. Whenever no call of a coordinator is on its way, the committed balance of every account of
  every branch is the sum of the deposits and withdrawals that were answered with OK to transactions whose client has been
  told COMMIT OK: an acknowledged transaction is in the balances with all its entries, any other one with none.
\<close>

theorem tx_balances_are_books:
  assumes "txtrace dial s books" "flight s = {}"
  shows "map_get 0 (committedData (app (sites s b))) acct =
    books_total books (\<lambda>e. at_branch e = b \<and> on_acct e = acct \<and> told_commit s (by_tx e))"
proof -
  have "committed_total books (decisions s) b acct = books_total books (\<lambda>e. at_branch e = b \<and> on_acct e = acct \<and> told_commit s (by_tx e))"
    unfolding committed_total_def
    by (rule total_cong) (use decided_told [OF txtrace_reach [OF assms(1)]] told_decided [OF assms] in \<open>auto simp: is_on_def\<close>)
  then show ?thesis using books_okD(1) [OF txtrace_books [OF assms(1)]] by simp
qed

text \<open>What a balance reply is computed from.\<close>

definition shown :: "TxApp \<Rightarrow> string \<Rightarrow> string \<Rightarrow> goint" where
  "shown a t acct = map_get 0 (committedData a) acct + own_change a t acct"

lemma fwd_body_balance:
  assumes "fwd_body b a cmd = Inr (a', r)" "Method cmd = ''BALANCE''" "r \<noteq> NF_ABRT"
  shows "r = b @ ''.'' @ Account cmd @ '' = '' @ itoa (shown a (Tid cmd) (Account cmd))"
  using assms by (auto simp: fwd_body_def Balance_body_def Let_def shown_def own_change_nested split: if_splits)

lemma ForwardCmd_start_balance:
  assumes "locks_ok a" "ForwardCmd_start b a cmd = Inr (a', Reply r)" "Method cmd = ''BALANCE''" "r \<noteq> NF_ABRT"
  shows "r = b @ ''.'' @ Account cmd @ '' = '' @ itoa (shown a (Tid cmd) (Account cmd))"
proof -
  note I = fwd_init_ok [OF assms(1), where tid = "Tid cmd"]
  obtain a2 w where s: "acquire_start (fwd_init a (Tid cmd)) (Tid cmd) (Account cmd) (Method cmd = ''BALANCE'') = Inr (a2, w)"
    "committedData a2 = committedData (fwd_init a (Tid cmd))" "cache a2 = cache (fwd_init a (Tid cmd))"
    by (rule acquire_start_ok [OF I(1), of "Tid cmd" "Account cmd" "Method cmd = ''BALANCE''"], rule that)
  have "fwd_body b a2 cmd = Inr (a', r)"
    using assms(2,3) s(1) by (auto simp: ForwardCmd_start_def Let_def bind_result_Inr_iff split: if_splits)
  moreover have "shown a2 (Tid cmd) (Account cmd) = shown a (Tid cmd) (Account cmd)"
    using I(2,7) s(2,3) by (simp add: shown_def own_change_nested)
  ultimately show ?thesis using fwd_body_balance assms(3,4) by metis
qed

lemma ForwardCmd_finish_balance:
  assumes "locks_ok a" "waits_ok a cmd" "ForwardCmd_finish b a cmd = Some (Inr (a', r))" "Method cmd = ''BALANCE''" "r \<noteq> NF_ABRT"
  shows "r = b @ ''.'' @ Account cmd @ '' = '' @ itoa (shown a (Tid cmd) (Account cmd))"
proof -
  obtain r1 where r1: "acquire_finish a (Tid cmd) (Account cmd) (Method cmd = ''BALANCE'') = Some r1"
    "Inr (a', r) = bind_result r1 (\<lambda>app1. fwd_body b app1 cmd)"
    using assms(3) by (auto simp: ForwardCmd_finish_def split: option.splits)
  have W: "locks a (Account cmd) \<noteq> None" "txLockInfo a (Tid cmd) \<noteq> None"
    "if Method cmd = ''BALANCE'' then holds a (Account cmd) (Tid cmd) \<noteq> Some False else holds a (Account cmd) (Tid cmd) = None"
    using assms(2) unfolding waits_ok_def by blast+
  obtain a1 where a1: "r1 = Inr a1" "committedData a1 = committedData a" "cache a1 = cache a"
    by (rule acquire_finish_ok [OF assms(1) r1(1) W], rule that)
  have "fwd_body b a1 cmd = Inr (a', r)" using r1(2) a1(1) by simp
  moreover have "shown a1 (Tid cmd) (Account cmd) = shown a (Tid cmd) (Account cmd)"
    using a1(2,3) by (simp add: shown_def own_change_nested)
  ultimately show ?thesis using fwd_body_balance assms(4,5) by metis
qed

text \<open>The command of transaction \<open>tid\<close> that is at branch \<open>b\<close>.\<close>

definition at_work :: "txsys \<Rightarrow> string \<Rightarrow> string \<Rightarrow> Command \<Rightarrow> bool" where
  "at_work s tid b cmd \<longleftrightarrow> (case phase s tid of Sending c b' cmd' \<Rightarrow> b' = b \<and> cmd' = cmd
     | Blocked c b' \<Rightarrow> b' = b \<and> waiting (sites s b) tid = Some cmd | _ \<Rightarrow> False)"

lemma answered_balance:
  assumes "txstep dial tid s s'" "\<And>b. binv (sites s b)" "at_work s tid b cmd" "phase s' tid = Replied c r"
    "Method cmd = ''BALANCE''" "r \<noteq> NF_ABRT"
  shows "r = b @ ''.'' @ Account cmd @ '' = '' @ itoa (shown (app (sites s b)) (Tid cmd) (Account cmd))"
  using assms
proof (induction rule: txstep.induct)
  case (arrive_done s c' b' cmd' a r')
  have l: "locks_ok (app (sites s b'))" using arrive_done(3) [of b'] by (simp add: binv_def)
  have e: "b' = b" "cmd' = cmd" "r' = r" using arrive_done(1,4,5) by (simp_all add: at_work_def)
  show ?case using ForwardCmd_start_balance [OF l arrive_done(2)] e arrive_done(6,7) by simp
next
  case (granted s c' b' cmd' a r')
  have e: "b' = b" "cmd' = cmd" "r' = r" using granted(1,2,5,6) by (simp_all add: at_work_def)
  have l: "locks_ok (app (sites s b'))" "waits_ok (app (sites s b')) cmd'"
    using granted(2) granted(4) [of b'] by (auto simp: binv_def wait_ok_def)
  show ?case using ForwardCmd_finish_balance [OF l granted(3)] e granted(7,8) by simp
next
  case (vote b' s names v)
  then show ?case by (cases "phase s tid") (simp_all add: at_work_def)
qed (auto simp: at_work_def split: if_splits tx_phase.splits)

text \<open>
  C12: A balance reply is right. When a branch answers a BALANCE command, and the account exists, the reply is the branch, the
  account and the sum of the entries of the transactions the branch has committed so far and of the entries the
  transaction itself has made there: nothing of any other running or aborted transaction is seen.
\<close>

theorem tx_balance_reply:
  assumes "txtrace dial s books" "txstep dial tid s s'" "at_work s tid b cmd" "phase s' tid = Replied c r"
    "Method cmd = ''BALANCE''" "r \<noteq> NF_ABRT"
  shows "r = b @ ''.'' @ Account cmd @ '' = '' @ itoa (books_total books (\<lambda>e. at_branch e = b \<and> on_acct e = Account cmd \<and>
    ((b, by_tx e, True) \<in> decisions s \<or> by_tx e = tid)))"
proof -
  note k = txreach_ok [OF txtrace_reach [OF assms(1)]] and ok = txtrace_books [OF assms(1)]
  have inv: "binv (sites s x)" for x using k breach_binv by blast
  have w: "Tid cmd = tid \<and> of_tx tid (decisions s) = {}"
    using assms(3) conjunct1 [OF k, of tid] inv [of b]
    by (auto simp: at_work_def tx_ok_def resting_def binv_def wait_ok_def split: tx_phase.splits)
  have u: "(b, tid, v) \<notin> decisions s" for v using w by (auto simp: of_tx_def)
  have "books_total books (\<lambda>e. at_branch e = b \<and> on_acct e = Account cmd \<and> ((b, by_tx e, True) \<in> decisions s \<or> by_tx e = tid)) =
      committed_total books (insert (b, tid, True) (decisions s)) b (Account cmd)"
    unfolding committed_total_def by (rule total_cong) (auto simp: is_on_def)
  also have "\<dots> = shown (app (sites s b)) tid (Account cmd)"
    using committed_total_insert [of b tid "decisions s" books "Account cmd"] u books_okD [OF ok] by (simp add: shown_def)
  finally show ?thesis using answered_balance [OF assms(2) inv assms(3-6)] w by simp
qed

subsection \<open>The properties on a run\<close>

theorem tx_balances_are_books_witness:
  "\<exists>books. txtrace reaches committed_sys books \<and> flight committed_sys = {} \<and>
     books_total books (\<lambda>e. at_branch e = ''A'' \<and> on_acct e = ''x'' \<and> told_commit committed_sys (by_tx e)) = 5"
proof -
  obtain books where b: "txtrace reaches committed_sys books" using txreach_has_books [OF run_committed] by blast
  have f: "flight committed_sys = {}" "map_get 0 (committedData (app (sites committed_sys ''A''))) ''x'' = 5"
    by (simp_all add: committed_sys_def sys_def sites1_def site_def settled_def)
  show ?thesis using tx_balances_are_books [OF b f(1), of "''A''" "''x''"] b f by auto
qed

definition bal :: Command where
  "bal = \<lparr>Tid = ''t'', Branch = ''A'', Account = ''x'', Method = ''BALANCE'', Amount_c = - 1\<rparr>"

definition asked_sys :: txsys where
  "asked_sys = sys (srv_at {''A'', ''B''} 0) sites0 (Sending ''A'' ''A'' bal) {} {}"

definition told_sys :: txsys where
  "told_sys = sys (srv_at {''A'', ''B''} 0) sites0 (Replied ''A'' ''A.x = 5'') {} {}"

lemma run_asked: "txreach reaches asked_sys"
proof -
  have "parse_cmd ''t'' ''BALANCE A.x'' = Inr bal" by (simp add: parse_cmd_def slice_get_def trim_suffix_def bal_def Let_def)
  then have "SendCoord reaches (srv_at {''A'', ''B''} 0) ''t'' ''BALANCE A.x'' = Inr (srv_at {''A'', ''B''} 0, Forward ''A'' bal)"
    by (simp add: SendCoord_def) (simp add: srv_at_def srv0_def bal_def)
  then have "txstep reaches ''t'' (sys (srv_at {''A'', ''B''} 0) sites0 (Idle ''A'') {} {}) asked_sys"
    using txstep.send [of "sys (srv_at {''A'', ''B''} 0) sites0 (Idle ''A'') {} {}" "''t''" "''A''" reaches "''BALANCE A.x''"
        "srv_at {''A'', ''B''} 0" "''A''" bal] by (simp add: sys_def asked_sys_def)
  then show ?thesis by (rule sys_step [OF run_begun])
qed

lemma run_told: "txstep reaches ''t'' asked_sys told_sys"
proof -
  have i: "itoa (5 :: goint) = ''5''" by code_simp
  have "ForwardCmd_start ''A'' (app (sites0 ''A'')) bal = Inr (held ''x'' 5, Reply ''A.x = 5'')"
    by (simp add: branch_evals Balance_body_def held_def sites0_def site_def bal_def NF_ABRT_def i)
  then show ?thesis
    using txstep.arrive_done [of asked_sys "''t''" "''A''" "''A''" bal "held ''x'' 5" "''A.x = 5''" reaches]
    by (simp add: asked_sys_def told_sys_def sys_def) (simp add: sites0_def site_def fun_upd_twist fun_upd_idem)
qed

theorem tx_balance_reply_witness:
  "\<exists>books. txtrace reaches asked_sys books \<and> at_work asked_sys ''t'' ''A'' bal \<and> Method bal = ''BALANCE'' \<and>
     ''A.x = 5'' = ''A'' @ ''.'' @ ''x'' @ '' = '' @ itoa (books_total books (\<lambda>e. at_branch e = ''A'' \<and> on_acct e = ''x'' \<and>
       ((''A'', by_tx e, True) \<in> decisions asked_sys \<or> by_tx e = ''t'')))"
proof -
  obtain books where b: "txtrace reaches asked_sys books" using txreach_has_books [OF run_asked] by blast
  have f: "at_work asked_sys ''t'' ''A'' bal" "phase told_sys ''t'' = Replied ''A'' ''A.x = 5''" "Method bal = ''BALANCE''"
    "''A.x = 5'' \<noteq> NF_ABRT" "Account bal = ''x''"
    by (simp_all add: asked_sys_def told_sys_def sys_def at_work_def bal_def NF_ABRT_def)
  show ?thesis using tx_balance_reply [OF b run_told f(1-4)] b f(1,3,5) by auto
qed

end
