(* ===== verification/Tx_Deadlock.thy ===== *)
theory Tx_Deadlock
  imports Tx_Ledger
begin

section \<open>Transactions: deadlock\<close>

text \<open>
  The deadlock detection of \<^verbatim>\<open>server/account.go\<close> is commented out, there is no timeout, and a client that waits for a reply
  reads no further command. A set of transactions is deadlocked when each of them waits for a lock that another one of
  the set holds. The theorem says that this is final: no step of anybody ends it. The run at the end
  reaches such a state.
\<close>

definition blocks :: "bool option \<Rightarrow> Command \<Rightarrow> bool" where
  "blocks h cmd \<longleftrightarrow> h = Some False \<or> h = Some True \<and> Method cmd \<noteq> ''BALANCE''"

definition deadlock :: "txsys \<Rightarrow> string set \<Rightarrow> bool" where
  "deadlock s D \<longleftrightarrow> (\<forall>t \<in> D. \<exists>c b cmd u. phase s t = Blocked c b \<and> waiting (sites s b) t = Some cmd \<and> u \<in> D \<and> u \<noteq> t \<and>
     blocks (holds (app (sites s b)) (Account cmd) u) cmd)"

subsection \<open>A step leaves the locks of other transactions alone\<close>

lemma txstep_same_tx:
  assumes "txstep dial tid s s'" "tx_ok tid (view s tid)" "\<And>b. binv (sites s b)" "t \<noteq> tid"
  shows "same_tx t (app (sites s b)) (app (sites s' b))"
  using assms
proof (induction rule: txstep.induct)
  case (arrive_wait s c b' cmd a)
  have l: "locks_ok (app (sites s b'))" using arrive_wait(4) [of b'] by (simp add: binv_def)
  have "same_tx t (app (sites s b')) a"
    by (rule ForwardCmd_start_ok [OF l, of b' cmd]) (use arrive_wait(2,5) tx_ok_free(1) [OF arrive_wait(3,1)] in auto)
  then show ?case by simp
next
  case (arrive_done s c b' cmd a r)
  have l: "locks_ok (app (sites s b'))" using arrive_done(4) [of b'] by (simp add: binv_def)
  have "same_tx t (app (sites s b')) a"
    by (rule ForwardCmd_start_ok [OF l, of b' cmd]) (use arrive_done(2,5) tx_ok_free(1) [OF arrive_done(3,1)] in auto)
  then show ?case by simp
next
  case (granted s c b' cmd a r)
  have l: "locks_ok (app (sites s b'))" "Tid cmd = tid" "waits_ok (app (sites s b')) cmd"
    using granted(2) granted(5) [of b'] by (auto simp: binv_def wait_ok_def)
  have "same_tx t (app (sites s b')) a" by (rule ForwardCmd_finish_ok [OF l(1,3) granted(3)]) (use granted(6) l(2) in auto)
  then show ?case by simp
next
  case (execute b' v s cnames lnames pnames a out)
  have l: "locks_ok (app (sites s b'))" using execute(6) [of b'] by (simp add: binv_def)
  have "same_tx t (app (sites s b')) a"
    by (rule Commit_ok [OF l execute(3), of v cnames pnames]) (use execute(4,7) in auto)
  then show ?case by simp
qed auto

subsection \<open>A blocked call is not granted\<close>

lemma blocked_not_granted:
  assumes "locks_ok a" "blocks (holds a (Account cmd) u) cmd"
  shows "ForwardCmd_finish b a cmd = None"
proof -
  obtain l where l: "locks a (Account cmd) = Some l" "tids l u = holds a (Account cmd) u"
    using assms(2) by (auto simp: blocks_def holds_def split: option.splits)
  have tab: "gorw.table_ok (rwMu l) (tids l)" by (rule locks_okD(1) [OF assms(1) l(1)])
  have "(if Method cmd = ''BALANCE'' then rw_RLock (rwMu l) else rw_Lock (rwMu l)) = None"
  proof (cases "holds a (Account cmd) u = Some False")
    case True
    then have "writer (rwMu l)" using tab l(2) by (auto simp: gorw.table_ok_def)
    then show ?thesis by (simp add: rw_RLock_def rw_Lock_def)
  next
    case False
    then have u: "tids l u = Some True" "Method cmd \<noteq> ''BALANCE''" using assms(2) l(2) by (auto simp: blocks_def)
    obtain m where "rw_RUnlock (rwMu l) = Inr m" using gorw.table_ok_runlock [OF tab u(1)] by blast
    then have "0 < readers (rwMu l)" by (auto simp: rw_RUnlock_def split: if_splits)
    then show ?thesis using u(2) by (simp add: rw_Lock_def)
  qed
  then show ?thesis using l(1) by (simp add: ForwardCmd_finish_def acquire_finish_def split: if_splits)
qed

lemma deadlocked_cannot_step:
  assumes "txstep dial tid s s'" "tx_ok tid (view s tid)" "\<And>b. binv (sites s b)" "deadlock s D" "tid \<in> D"
  shows False
proof -
  obtain c b cmd u where d: "phase s tid = Blocked c b" "waiting (sites s b) tid = Some cmd"
    "blocks (holds (app (sites s b)) (Account cmd) u) cmd"
    using assms(4,5) unfolding deadlock_def by blast
  have "locks_ok (app (sites s b))" using assms(3) [of b] by (simp add: binv_def)
  then have n: "ForwardCmd_finish b (app (sites s b)) cmd = None" using d(3) by (rule blocked_not_granted)
  have f: "of_tx tid (flight s) = {}" using assms(2) d(1) by (simp add: tx_ok_def resting_def)
  have nf: "(x, tid, k) \<notin> flight s" for x k using f by (auto simp: of_tx_def)
  show False using assms(1) by cases (use d n nf in auto)
qed

lemma deadlock_step:
  assumes "txreach dial s" "deadlock s D" "txstep dial tid s s'"
  shows "deadlock s' D \<and> (\<forall>t \<in> D. phase s' t = phase s t)"
proof -
  note k = txreach_ok [OF assms(1)]
  have inv: "binv (sites s b)" for b using k breach_binv by blast
  have ok: "tx_ok tid (view s tid)" using k by blast
  have out: "tid \<notin> D" using deadlocked_cannot_step [OF assms(3) ok inv assms(2)] by blast
  have same: "phase s' t = phase s t" "waiting (sites s' b) t = waiting (sites s b) t"
    "holds (app (sites s' b)) acct t = holds (app (sites s b)) acct t" if "t \<in> D" for t b acct
  proof -
    have t: "t \<noteq> tid" using that out by blast
    note v = txstep_frame [OF assms(3) t]
    show "phase s' t = phase s t" using arg_cong [OF v, of v_phase] by simp
    show "waiting (sites s' b) t = waiting (sites s b) t"
      using fun_cong [OF arg_cong [OF v, of v_waiting], of b] by (simp add: wait_of_def)
    show "holds (app (sites s' b)) acct t = holds (app (sites s b)) acct t"
      using txstep_same_tx [OF assms(3) ok inv t] by (simp add: same_tx_def)
  qed
  have "deadlock s' D"
    unfolding deadlock_def
  proof
    fix t assume t: "t \<in> D"
    obtain c b cmd u where d: "phase s t = Blocked c b" "waiting (sites s b) t = Some cmd" "u \<in> D" "u \<noteq> t"
      "blocks (holds (app (sites s b)) (Account cmd) u) cmd"
      using assms(2) t unfolding deadlock_def by blast
    show "\<exists>c b cmd u. phase s' t = Blocked c b \<and> waiting (sites s' b) t = Some cmd \<and> u \<in> D \<and> u \<noteq> t \<and>
        blocks (holds (app (sites s' b)) (Account cmd) u) cmd"
      using d same [OF t] same(3) [OF d(3)] by metis
  qed
  then show ?thesis using same(1) by blast
qed

text \<open>
  C24: A deadlock is for ever. When every transaction of a set waits for a lock that another one of the set holds, then whatever
  clients, coordinators and branches do from then on, all of them go on waiting at the same branch.
\<close>

theorem tx_deadlock_forever:
  assumes "txreach dial s" "deadlock s D" "(\<lambda>x y. \<exists>tid. txstep dial tid x y)\<^sup>*\<^sup>* s s'"
  shows "deadlock s' D \<and> (\<forall>t \<in> D. phase s' t = phase s t)"
proof -
  have "txreach dial s' \<and> deadlock s' D \<and> (\<forall>t \<in> D. phase s' t = phase s t)"
    using assms(3)
  proof (induction rule: rtranclp_induct)
    case base
    show ?case using assms(1,2) by blast
  next
    case (step x y)
    then obtain tid where st: "txstep dial tid x y" by blast
    have x: "txreach dial x" "deadlock x D" "\<forall>t \<in> D. phase x t = phase s t" using step.IH by blast+
    show ?case using deadlock_step [OF x(1,2) st] x txreach.step [OF x(1) st] by simp
  qed
  then show ?thesis by blast
qed

subsection \<open>A run into a deadlock\<close>

text \<open>Transaction t deposits into A.x, u into B.y; then t wants to deposit into B.y and u into A.x.\<close>

definition udep :: "string \<Rightarrow> string \<Rightarrow> goint \<Rightarrow> Command" where
  "udep b a n = \<lparr>Tid = ''u'', Branch = b, Account = a, Method = ''DEPOSIT'', Amount_c = n\<rparr>"

definition uheld :: TxApp where
  "uheld = \<lparr>locks = [''y'' \<mapsto> \<lparr>rwMu = \<lparr>readers = 0, writer = True\<rparr>, tids = [''u'' \<mapsto> False]\<rparr>],
     txLockInfo = [''u'' \<mapsto> [''y'' \<mapsto> False]], committedData = Map.empty, cache = [''u'' \<mapsto> [''y'' \<mapsto> 7]]\<rparr>"

definition unheld_u :: TxApp where
  "unheld_u = \<lparr>locks = [''y'' \<mapsto> \<lparr>rwMu = \<lparr>readers = 0, writer = False\<rparr>, tids = Map.empty\<rparr>],
     txLockInfo = [''u'' \<mapsto> Map.empty], committedData = Map.empty, cache = [''u'' \<mapsto> Map.empty]\<rparr>"

definition t_waits :: TxApp where
  "t_waits = uheld\<lparr>txLockInfo := (txLockInfo uheld)(''t'' \<mapsto> Map.empty), cache := (cache uheld)(''t'' \<mapsto> Map.empty)\<rparr>"

definition u_waits :: TxApp where
  "u_waits = (held ''x'' 5)\<lparr>txLockInfo := (txLockInfo (held ''x'' 5))(''u'' \<mapsto> Map.empty),
     cache := (cache (held ''x'' 5))(''u'' \<mapsto> Map.empty)\<rparr>"

lemma duo_calls:
  "ForwardCmd_start ''B'' (app binit) (udep ''B'' ''y'' 7) = Inr (unheld_u, Wait)"
  "ForwardCmd_finish ''B'' unheld_u (udep ''B'' ''y'' 7) = Some (Inr (uheld, OK))"
  "ForwardCmd_start ''B'' uheld (dep ''B'' ''y'' 7) = Inr (t_waits, Wait)"
  "ForwardCmd_start ''A'' (held ''x'' 5) (udep ''A'' ''x'' 5) = Inr (u_waits, Wait)"
  by (simp_all add: branch_evals udep_def unheld_u_def uheld_def t_waits_def u_waits_def held_def binit_def)

definition srv2 :: "string set \<Rightarrow> string set \<Rightarrow> Server" where
  "srv2 bs cs = srv0\<lparr>canCommit := [''t'' \<mapsto> 0, ''u'' \<mapsto> 0], haveCommitted := [''t'' \<mapsto> 0, ''u'' \<mapsto> 0], rpcClients := bs \<union> cs,
     relatedBranches := [''t'' \<mapsto> bs, ''u'' \<mapsto> cs]\<rparr>"

definition duo :: "Server \<Rightarrow> (string \<Rightarrow> branch_state) \<Rightarrow> tx_phase \<Rightarrow> tx_phase \<Rightarrow> txsys" where
  "duo srv si p q = \<lparr>coords = (\<lambda>_. srv0)(''A'' := srv), sites = si, phase = (\<lambda>_. NotBegun)(''t'' := p, ''u'' := q), flight = {}, decisions = {}\<rparr>"

lemma parse_udeps:
  "parse_cmd ''u'' ''DEPOSIT A.x 5'' = Inr (udep ''A'' ''x'' 5)" "parse_cmd ''u'' ''DEPOSIT B.y 7'' = Inr (udep ''B'' ''y'' 7)"
  by (simp_all add: parse_cmd_def slice_get_def trim_suffix_def udep_def atoi_digits Let_def)

lemma duo_sends:
  "SendCoord reaches (srv2 {''A''} {}) ''u'' ''DEPOSIT B.y 7'' = Inr (srv2 {''A''} {''B''}, Forward ''B'' (udep ''B'' ''y'' 7))"
  "SendCoord reaches (srv2 {''A''} {''B''}) ''t'' ''DEPOSIT B.y 7'' = Inr (srv2 {''A'', ''B''} {''B''}, Forward ''B'' (dep ''B'' ''y'' 7))"
  "SendCoord reaches (srv2 {''A'', ''B''} {''B''}) ''u'' ''DEPOSIT A.x 5'' = Inr (srv2 {''A'', ''B''} {''A'', ''B''}, Forward ''A'' (udep ''A'' ''x'' 5))"
  by (simp_all add: SendCoord_def parse_udeps parse_deposits,
      simp_all add: srv2_def srv0_def dep_def udep_def Let_def insert_commute fun_upd_twist)

definition sites2 :: "branch_state \<Rightarrow> branch_state \<Rightarrow> string \<Rightarrow> branch_state" where
  "sites2 a b = (\<lambda>_. binit)(''A'' := a, ''B'' := b)"

abbreviation t_site :: branch_state where
  "t_site \<equiv> site (held ''x'' 5) {}"

lemma duo_begun: "txreach reaches (duo (srv2 {''A''} {}) (sites2 t_site binit) (Idle ''A'') (Idle ''A''))"
proof -
  have "txreach reaches (sys srv0 (\<lambda>_. binit) NotBegun {} {})"
    using txreach.start [of reaches "\<lambda>_. srv0"] by (simp add: sys_def tx_init_def fun_upd_idem)
  moreover have "SendCoord reaches srv0 ''t'' ''BEGIN'' = Inr (srv_at {} 0, ReplyNow OK)"
    by (simp add: SendCoord_def srv_at_def srv0_def)
  then have "txstep reaches ''t'' (sys srv0 (\<lambda>_. binit) NotBegun {} {}) (sys (srv_at {} 0) (\<lambda>_. binit) (Idle ''A'') {} {})"
    using txstep.begin_tx [of "sys srv0 (\<lambda>_. binit) NotBegun {} {}" "''t''" reaches "''A''" "srv_at {} 0" OK] by (simp add: sys_def)
  ultimately have "txreach reaches (sys (srv_at {} 0) (\<lambda>_. binit) (Idle ''A'') {} {})" by (rule sys_step)
  from run_deposit [OF this _ send_deposits(1)] have
    r: "txreach reaches (sys (srv_at {''A''} 0) ((\<lambda>_. binit)(''A'' := t_site)) (Idle ''A'') {} {})" (is "txreach _ ?s") by simp
  have "SendCoord reaches (srv_at {''A''} 0) ''u'' ''BEGIN'' = Inr (srv2 {''A''} {}, ReplyNow OK)"
    by (simp add: SendCoord_def srv_at_def srv2_def srv0_def)
  then have "txstep reaches ''u'' ?s (duo (srv2 {''A''} {}) (sites2 t_site binit) (Idle ''A'') (Idle ''A''))"
    using txstep.begin_tx [of ?s "''u''" reaches "''A''" "srv2 {''A''} {}" OK]
    by (simp add: sys_def duo_def sites2_def fun_upd_idem)
  with r show ?thesis by (rule txreach.step)
qed

lemma duo_u_deposited: "txreach reaches (duo (srv2 {''A''} {''B''}) (sites2 t_site (site uheld {})) (Idle ''A'') (Idle ''A''))"
proof -
  let ?v = "srv2 {''A''} {''B''}" and ?c = "udep ''B'' ''y'' 7" and ?b1 = "\<lparr>app = unheld_u, waiting = [''u'' \<mapsto> udep ''B'' ''y'' 7], prepared = {}\<rparr>"
  let ?s0 = "duo (srv2 {''A''} {}) (sites2 t_site binit) (Idle ''A'') (Idle ''A'')"
  let ?s1 = "duo ?v (sites2 t_site binit) (Idle ''A'') (Sending ''A'' ''B'' ?c)"
  let ?s2 = "duo ?v (sites2 t_site ?b1) (Idle ''A'') (Blocked ''A'' ''B'')"
  let ?s3 = "duo ?v (sites2 t_site (site uheld {})) (Idle ''A'') (Replied ''A'' OK)"
  have 1: "txstep reaches ''u'' ?s0 ?s1"
    using txstep.send [of ?s0 "''u''" "''A''" reaches "''DEPOSIT B.y 7''" ?v "''B''" ?c] duo_sends(1) by (simp add: duo_def)
  have 2: "txstep reaches ''u'' ?s1 ?s2"
    using txstep.arrive_wait [of ?s1 "''u''" "''A''" "''B''" ?c unheld_u reaches] duo_calls(1)
    by (simp add: duo_def sites2_def binit_def)
  have 3: "txstep reaches ''u'' ?s2 ?s3"
    using txstep.granted [of ?s2 "''u''" "''A''" "''B''" ?c uheld OK reaches] duo_calls(2) by (simp add: duo_def sites2_def site_def)
  have "SendCoord_replied ?v ''u'' OK = (?v, {}, OK)" "\<not> cli_stops OK"
    by (simp_all add: SendCoord_replied_def OK_def NF_ABRT_def cli_stops_def)
  then have 4: "txstep reaches ''u'' ?s3 (duo ?v (sites2 t_site (site uheld {})) (Idle ''A'') (Idle ''A''))"
    using txstep.replied [of ?s3 "''u''" "''A''" OK ?v "{}" OK reaches] by (simp add: duo_def commit_calls_def)
  show ?thesis
    by (rule txreach.step [OF txreach.step [OF txreach.step [OF txreach.step [OF duo_begun 1] 2] 3] 4])
qed

definition stuck_sys :: txsys where
  "stuck_sys = duo (srv2 {''A'', ''B''} {''A'', ''B''})
     (sites2 \<lparr>app = u_waits, waiting = [''u'' \<mapsto> udep ''A'' ''x'' 5], prepared = {}\<rparr>
             \<lparr>app = t_waits, waiting = [''t'' \<mapsto> dep ''B'' ''y'' 7], prepared = {}\<rparr>)
     (Blocked ''A'' ''B'') (Blocked ''A'' ''A'')"

lemma run_stuck: "txreach reaches stuck_sys"
proof -
  let ?v = "srv2 {''A'', ''B''} {''B''}" and ?w = "srv2 {''A'', ''B''} {''A'', ''B''}"
  let ?b = "\<lparr>app = t_waits, waiting = [''t'' \<mapsto> dep ''B'' ''y'' 7], prepared = {}\<rparr>"
  let ?s0 = "duo (srv2 {''A''} {''B''}) (sites2 t_site (site uheld {})) (Idle ''A'') (Idle ''A'')"
  let ?s1 = "duo ?v (sites2 t_site (site uheld {})) (Sending ''A'' ''B'' (dep ''B'' ''y'' 7)) (Idle ''A'')"
  let ?s2 = "duo ?v (sites2 t_site ?b) (Blocked ''A'' ''B'') (Idle ''A'')"
  let ?s3 = "duo ?w (sites2 t_site ?b) (Blocked ''A'' ''B'') (Sending ''A'' ''A'' (udep ''A'' ''x'' 5))"
  have 1: "txstep reaches ''t'' ?s0 ?s1"
    using txstep.send [of ?s0 "''t''" "''A''" reaches "''DEPOSIT B.y 7''" ?v "''B''" "dep ''B'' ''y'' 7"] duo_sends(2)
    by (simp add: duo_def fun_upd_twist)
  have 2: "txstep reaches ''t'' ?s1 ?s2"
    using txstep.arrive_wait [of ?s1 "''t''" "''A''" "''B''" "dep ''B'' ''y'' 7" t_waits reaches] duo_calls(3)
    by (simp add: duo_def sites2_def site_def fun_upd_twist)
  have 3: "txstep reaches ''u'' ?s2 ?s3"
    using txstep.send [of ?s2 "''u''" "''A''" reaches "''DEPOSIT A.x 5''" ?w "''A''" "udep ''A'' ''x'' 5"] duo_sends(3)
    by (simp add: duo_def)
  have 4: "txstep reaches ''u'' ?s3 stuck_sys"
    using txstep.arrive_wait [of ?s3 "''u''" "''A''" "''A''" "udep ''A'' ''x'' 5" u_waits reaches] duo_calls(4)
    by (simp add: duo_def sites2_def site_def stuck_sys_def fun_upd_twist)
  show ?thesis
    by (rule txreach.step [OF txreach.step [OF txreach.step [OF txreach.step [OF duo_u_deposited 1] 2] 3] 4])
qed

lemma stuck_deadlock: "deadlock stuck_sys {''t'', ''u''}"
  unfolding deadlock_def
proof
  fix t assume "t \<in> {''t'', ''u''}"
  then consider "t = ''t''" | "t = ''u''" by blast
  then show "\<exists>c b cmd u. phase stuck_sys t = Blocked c b \<and> waiting (sites stuck_sys b) t = Some cmd \<and> u \<in> {''t'', ''u''} \<and> u \<noteq> t \<and>
      blocks (holds (app (sites stuck_sys b)) (Account cmd) u) cmd"
  proof cases
    case 1
    then show ?thesis
      by (intro exI [of _ "''A''"] exI [of _ "''B''"] exI [of _ "dep ''B'' ''y'' 7"] exI [of _ "''u''"])
        (simp add: stuck_sys_def duo_def sites2_def t_waits_def uheld_def holds_def blocks_def dep_def)
  next
    case 2
    then show ?thesis
      by (intro exI [of _ "''A''"] exI [of _ "''A''"] exI [of _ "udep ''A'' ''x'' 5"] exI [of _ "''t''"])
        (simp add: stuck_sys_def duo_def sites2_def u_waits_def held_def holds_def blocks_def udep_def)
  qed
qed

theorem tx_deadlock_forever_witness:
  "txreach reaches stuck_sys \<and> deadlock stuck_sys {''t'', ''u''} \<and> phase stuck_sys ''t'' = Blocked ''A'' ''B'' \<and> phase stuck_sys ''u'' = Blocked ''A'' ''A''"
  using tx_deadlock_forever [OF run_stuck stuck_deadlock rtranclp.rtrancl_refl] run_stuck
  by (simp add: stuck_sys_def duo_def)

end
