(* ===== verification/Raft_Peer.thy ===== *)
theory Raft_Peer
  imports Prelude
begin

section \<open>Raft: the state of a peer and its handlers\<close>

text \<open>
  \<^verbatim>\<open>raft-demo/src/raft/raft.go\<close>, \<^verbatim>\<open>rpc.go\<close> and \<^verbatim>\<open>util.go\<close>. Every critical section of the code, between
  \<^verbatim>\<open>mu.Lock()\<close> and \<^verbatim>\<open>mu.Unlock()\<close>, is one function on the record of the peer; the goroutines that run
  them are in \<open>Raft_Cluster\<close>. A function also returns the goroutines its section starts, the
  messages it sends on \<^verbatim>\<open>applyCh\<close> and, for a handler, the reply. The channel \<^verbatim>\<open>rpcCh\<close> is the list of
  the values in it, and \<open>rpc_ready\<close> says when a handler can send on it without blocking. Timers,
  debug output and the generator of timeouts are left out, and so is \<^verbatim>\<open>entryCh\<close>: what it carries
  is ignored by \<^verbatim>\<open>replicate\<close>. Commands are of an arbitrary type.
\<close>

subsection \<open>Data\<close>

datatype RaftState = FOLLOWER | CANDIDATE | LEADER | KilledState

record 'c LogEntry =
  Command :: 'c
  eTerm :: int
  eIndex :: int

record 'c ApplyMsg =
  CommandValid :: bool
  aCommand :: 'c
  CommandIndex :: int

record 'c Raft =
  me :: nat
  dead :: bool
  currentTerm :: int
  votedFor :: int
  rlog :: "'c LogEntry list"
  commitIndex :: int
  lastApplied :: int
  nextIndex :: "int list"
  matchIndex :: "int list"
  rstate :: RaftState
  votesGot :: int
  numPeers :: nat
  rpcCh :: "int list"

record RequestVoteArgs =
  rvTerm :: int
  CandidateId :: int
  rvLastLogIndex :: int
  rvLastLogTerm :: int

record RequestVoteReply =
  rvrTerm :: int
  VoteGranted :: bool

record 'c AppendEntriesArgs =
  aeTerm :: int
  LeaderId :: int
  PrevLogIndex :: int
  PrevLogTerm :: int
  Entries :: "'c LogEntry list"
  LeaderCommit :: int

record AppendEntriesReply =
  FollowerId :: nat
  aerTerm :: int
  LastLogIndex :: int
  IsHeartbeat :: bool
  Success :: bool

text \<open>The goroutines that a critical section may start.\<close>

datatype spawn = SpawnFollower | SpawnCandidate | SpawnLeader

subsection \<open>Small predicates\<close>

definition isState :: "'c Raft \<Rightarrow> RaftState \<Rightarrow> bool" where
  "isState rf st \<longleftrightarrow> rstate rf = st"

definition GetState :: "'c Raft \<Rightarrow> int \<times> bool" where
  "GetState rf = (currentTerm rf, rstate rf = LEADER)"

definition isCandUpToDate :: "'c Raft \<Rightarrow> RequestVoteArgs \<Rightarrow> bool" where
  "isCandUpToDate rf args =
     (let logLength = length (rlog rf)
      in if logLength = 0 then True
         else rvLastLogTerm args > eTerm (rlog rf ! (logLength - 1)) \<or>
              (rvLastLogTerm args = eTerm (rlog rf ! (logLength - 1)) \<and>
               rvLastLogIndex args \<ge> int logLength - 1))"

definition isElected :: "'c Raft \<Rightarrow> bool" where
  "isElected rf \<longleftrightarrow> votesGot rf > int (numPeers rf div 2)"

definition killed :: "'c Raft \<Rightarrow> bool" where
  "killed rf = dead rf"

subsection \<open>Creation, commands and the end of a peer\<close>

definition raft_Make :: "nat \<Rightarrow> nat \<Rightarrow> 'c \<Rightarrow> 'c Raft" where
  "raft_Make peers i zero =
     \<lparr>me = i, dead = False, currentTerm = 0, votedFor = 0,
      rlog = [\<lparr>Command = zero, eTerm = 0, eIndex = 0\<rparr>], commitIndex = 0, lastApplied = 0,
      nextIndex = [], matchIndex = [], rstate = FOLLOWER, votesGot = 0, numPeers = peers, rpcCh = []\<rparr>"

text \<open>The critical section of \<^verbatim>\<open>Start\<close>; it is entered after a separate check that the peer is leader.\<close>

definition raft_Start :: "'c Raft \<Rightarrow> 'c \<Rightarrow> 'c Raft \<times> int \<times> int" where
  "raft_Start rf command =
     (let newEntry = \<lparr>Command = command, eTerm = currentTerm rf, eIndex = int (length (rlog rf))\<rparr>
      in (rf\<lparr>rlog := rlog rf @ [newEntry]\<rparr>, int (length (rlog rf)), currentTerm rf))"

definition raft_Kill :: "'c Raft \<Rightarrow> 'c Raft" where
  "raft_Kill rf = rf\<lparr>dead := True, rstate := KilledState\<rparr>"

subsection \<open>Followers and candidates\<close>

definition toFollower_enter :: "'c Raft \<Rightarrow> 'c Raft" where
  "toFollower_enter rf = rf\<lparr>votedFor := - 1\<rparr>"

definition toFollower_rpc :: "'c Raft \<Rightarrow> 'c Raft" where
  "toFollower_rpc rf = rf\<lparr>rpcCh := tl (rpcCh rf)\<rparr>"

definition toFollower_timeout :: "'c Raft \<Rightarrow> 'c Raft" where
  "toFollower_timeout rf = rf\<lparr>rstate := CANDIDATE\<rparr>"

definition toCandidate_round :: "'c Raft \<Rightarrow> 'c Raft" where
  "toCandidate_round rf = rf\<lparr>rstate := CANDIDATE, currentTerm := currentTerm rf + 1\<rparr>"

definition startElection_begin :: "'c Raft \<Rightarrow> ('c Raft \<times> RequestVoteArgs) result" where
  "startElection_begin rf =
     (let rf1 = rf\<lparr>votedFor := int (me rf), votesGot := 1\<rparr>
      in bind_result (slice_get (rlog rf1) (int (length (rlog rf1)) - 1)) (\<lambda>lastEntry.
           Inr (rf1, \<lparr>rvTerm = currentTerm rf1, CandidateId = int (me rf1),
                     rvLastLogIndex = eIndex lastEntry, rvLastLogTerm = eTerm lastEntry\<rparr>)))"

datatype election_outcome = KeepWaiting | ElectionOver "spawn list"

definition startElection_reply :: "'c Raft \<Rightarrow> RequestVoteReply \<Rightarrow> 'c Raft \<times> election_outcome" where
  "startElection_reply rf reply =
     (if rvrTerm reply > currentTerm rf then
        (rf\<lparr>currentTerm := rvrTerm reply, rstate := FOLLOWER\<rparr>, ElectionOver [SpawnFollower])
      else if VoteGranted reply then
        (let rf1 = rf\<lparr>votesGot := votesGot rf + 1\<rparr>
         in if isElected rf1 then (rf1\<lparr>rstate := LEADER\<rparr>, ElectionOver [SpawnLeader]) else (rf1, KeepWaiting))
      else (rf, KeepWaiting))"

text \<open>Both handlers first tell the goroutine that runs the clock; the send blocks when \<^verbatim>\<open>rpcCh\<close> is full.\<close>

definition rpc_ready :: "'c Raft \<Rightarrow> bool" where
  "rpc_ready rf \<longleftrightarrow> (rstate rf = FOLLOWER \<longrightarrow> length (rpcCh rf) < numPeers rf)"

definition rpc_notify :: "'c Raft \<Rightarrow> int \<Rightarrow> 'c Raft" where
  "rpc_notify rf n = (if rstate rf = FOLLOWER then rf\<lparr>rpcCh := rpcCh rf @ [n]\<rparr> else rf)"

text \<open>
  Both then adopt a larger term and leave the state of candidate or leader; \<open>c\<close> says that
  \<^verbatim>\<open>AppendEntries\<close> found the peer to be a candidate, which has to follow also in its own term.
\<close>

definition follow :: "'c Raft \<Rightarrow> int \<Rightarrow> bool \<Rightarrow> 'c Raft \<times> spawn list" where
  "follow rf t c =
     (if t > currentTerm rf \<or> c then
        let rf0 = rf\<lparr>currentTerm := t\<rparr>
        in if rstate rf0 \<noteq> FOLLOWER then (rf0\<lparr>rstate := FOLLOWER\<rparr>, [SpawnFollower]) else (rf0, [])
      else (rf, []))"

definition RequestVote :: "'c Raft \<Rightarrow> RequestVoteArgs \<Rightarrow> 'c Raft \<times> RequestVoteReply \<times> spawn list" where
  "RequestVote rfp args =
     (let rf = rpc_notify rfp 1;
          (rf1, sp) = follow rf (rvTerm args) False;
          (rf2, granted) =
        (if rvTerm args \<ge> currentTerm rf \<and> (votedFor rf1 = - 1 \<or> votedFor rf1 = CandidateId args) \<and> isCandUpToDate rf1 args
         then (rf1\<lparr>votedFor := CandidateId args\<rparr>, True) else (rf1, False))
      in (rf2, \<lparr>rvrTerm = currentTerm rf2, VoteGranted = granted\<rparr>, sp))"

subsection \<open>AppendEntries\<close>

text \<open>The first loop: \<open>inLog\<close> collects the positions of the entries the log already has.\<close>

fun ae_scan :: "'c LogEntry list \<Rightarrow> 'c LogEntry list \<Rightarrow> nat \<Rightarrow> nat list \<Rightarrow> ('c LogEntry list \<times> nat list) result" where
  "ae_scan lg [] i inLog = Inr (lg, inLog)"
| "ae_scan lg (e # es) i inLog =
     (if eIndex e < int (length lg) then
        bind_result (slice_get lg (eIndex e)) (\<lambda>x.
          if eTerm x \<noteq> eTerm e then Inr (take (nat (eIndex e)) lg, inLog)
          else ae_scan lg es (i + 1) (inLog @ [i]))
      else ae_scan lg es (i + 1) inLog)"

text \<open>The second loop: everything from the first entry on that the log does not have.\<close>

fun ae_append :: "'c LogEntry list \<Rightarrow> 'c LogEntry list \<Rightarrow> nat \<Rightarrow> nat list \<Rightarrow> bool \<Rightarrow> 'c LogEntry list" where
  "ae_append lg [] i inLog needAppend = lg"
| "ae_append lg (e # es) i inLog needAppend =
     (let needAppend1 = (if i \<notin> set inLog then True else needAppend)
      in ae_append (if needAppend1 then lg @ [e] else lg) es (i + 1) inLog needAppend1)"

definition apply_msg :: "'c LogEntry \<Rightarrow> 'c ApplyMsg" where
  "apply_msg e = \<lparr>CommandValid = True, aCommand = Command e, CommandIndex = eIndex e\<rparr>"

text \<open>The loops that apply the entries after position \<open>i\<close> up to position \<open>c\<close>.\<close>

function apply_loop :: "'c LogEntry list \<Rightarrow> int \<Rightarrow> int \<Rightarrow> 'c ApplyMsg list result" where
  "apply_loop lg i c =
     (if i < c then
        bind_result (slice_get lg (i + 1)) (\<lambda>e.
        bind_result (apply_loop lg (i + 1) c) (\<lambda>ms. Inr (apply_msg e # ms)))
      else Inr [])"
  by pat_completeness auto
termination by (relation "measure (\<lambda>(_, i, c). nat (c - i))") auto

declare apply_loop.simps [simp del]

definition ae_fail :: "'c Raft \<Rightarrow> 'c AppendEntriesArgs \<Rightarrow> AppendEntriesReply" where
  "ae_fail rf args =
     \<lparr>FollowerId = me rf, aerTerm = currentTerm rf, LastLogIndex = 0, IsHeartbeat = (Entries args = []),
      Success = False\<rparr>"

definition ae_commit :: "'c Raft \<Rightarrow> 'c AppendEntriesArgs \<Rightarrow> ('c Raft \<times> 'c ApplyMsg list) result" where
  "ae_commit rf args =
     (if LeaderCommit args > commitIndex rf then
        bind_result (slice_get (rlog rf) (int (length (rlog rf)) - 1)) (\<lambda>lastEntry.
        let c = min_f64 (LeaderCommit args) (eIndex lastEntry)
        in bind_result (apply_loop (rlog rf) (commitIndex rf) c) (\<lambda>ms. Inr (rf\<lparr>commitIndex := c\<rparr>, ms)))
      else Inr (rf, []))"

definition AppendEntries ::
  "'c Raft \<Rightarrow> 'c AppendEntriesArgs \<Rightarrow> ('c Raft \<times> AppendEntriesReply \<times> spawn list \<times> 'c ApplyMsg list) result" where
  "AppendEntries rfp args =
     (let rf = rpc_notify rfp 2 in
      if aeTerm args < currentTerm rf then Inr (rf, ae_fail rf args, [], [])
      else
        let (rf1, sp) = follow rf (aeTerm args) (rstate rf = CANDIDATE)
        in bind_result
             (if PrevLogTerm args \<noteq> - 1 then
                if int (length (rlog rf1)) - 1 < PrevLogIndex args then Inr False
                else bind_result (slice_get (rlog rf1) (PrevLogIndex args)) (\<lambda>e. Inr (eTerm e = PrevLogTerm args))
              else Inr True) (\<lambda>consistent.
           if \<not> consistent then Inr (rf1, ae_fail rf1 args, sp, [])
           else
             bind_result
               (if length (rlog rf1) > 0 then ae_scan (rlog rf1) (Entries args) 0 [] else Inr (rlog rf1, [])) (\<lambda>(lg, inLog).
             bind_result (ae_commit (rf1\<lparr>rlog := ae_append lg (Entries args) 0 inLog False\<rparr>) args) (\<lambda>(rf2, ms).
               Inr (rf2, \<lparr>FollowerId = me rf2, aerTerm = currentTerm rf2, LastLogIndex = int (length (rlog rf2)) - 1,
                          IsHeartbeat = (Entries args = []), Success = True\<rparr>, sp, ms)))))"

subsection \<open>Leaders\<close>

definition toLeader_enter :: "'c Raft \<Rightarrow> 'c Raft" where
  "toLeader_enter rf =
     rf\<lparr>nextIndex := map (\<lambda>si. if si \<noteq> me rf then int (length (rlog rf)) else 0) [0..<numPeers rf],
        matchIndex := replicate (numPeers rf) 0\<rparr>"

text \<open>The message for one peer, then the loop over the peers.\<close>

definition replicate_one :: "'c Raft \<Rightarrow> nat \<Rightarrow> 'c AppendEntriesArgs result" where
  "replicate_one rf si =
     (let lastLogIndex = int (length (rlog rf)) - 1
      in bind_result (slice_get (rlog rf) lastLogIndex) (\<lambda>lastEntry.
         let args = \<lparr>aeTerm = currentTerm rf, LeaderId = int (me rf), PrevLogIndex = lastLogIndex,
                     PrevLogTerm = eTerm lastEntry, Entries = [], LeaderCommit = commitIndex rf\<rparr>
         in bind_result (slice_get (nextIndex rf) (int si)) (\<lambda>next.
            if lastLogIndex \<ge> next then
              bind_result (slice_get (rlog rf) (next - 1)) (\<lambda>prev.
                Inr (args\<lparr>PrevLogIndex := next - 1, PrevLogTerm := eTerm prev, Entries := drop (nat next) (rlog rf)\<rparr>))
            else Inr args)))"

fun replicate_loop :: "'c Raft \<Rightarrow> nat list \<Rightarrow> (nat \<times> 'c AppendEntriesArgs) list result" where
  "replicate_loop rf [] = Inr []"
| "replicate_loop rf (si # sis) =
     (if si = me rf then replicate_loop rf sis
      else bind_result (replicate_one rf si) (\<lambda>args.
           bind_result (replicate_loop rf sis) (\<lambda>ms. Inr ((si, args) # ms))))"

definition raft_replicate :: "'c Raft \<Rightarrow> (nat \<times> 'c AppendEntriesArgs) list result" where
  "raft_replicate rf =
     (if rstate rf = LEADER then replicate_loop rf [0..<numPeers rf] else Inr [])"

definition count_matches :: "'c Raft \<Rightarrow> int \<Rightarrow> nat" where
  "count_matches rf index = 1 + length (filter (\<lambda>si. si \<noteq> me rf \<and> matchIndex rf ! si \<ge> index) [0..<numPeers rf])"

definition commitAt :: "'c Raft \<Rightarrow> int \<Rightarrow> ('c Raft \<times> 'c ApplyMsg list) result" where
  "commitAt rf index =
     (if index \<le> commitIndex rf then Inr (rf, [])
      else
        bind_result (slice_get (rlog rf) index) (\<lambda>e.
        if length (matchIndex rf) < numPeers rf then Inl IndexOutOfRange
        else
          let rf1 = (if count_matches rf index > numPeers rf div 2 \<and> eTerm e = currentTerm rf
                     then rf\<lparr>commitIndex := index\<rparr> else rf)
          in bind_result (apply_loop (rlog rf1) (lastApplied rf1) (commitIndex rf1)) (\<lambda>ms.
               Inr (rf1\<lparr>lastApplied := max (lastApplied rf1) (commitIndex rf1)\<rparr>, ms))))"

text \<open>The two critical sections of \<^verbatim>\<open>handleReply\<close>; the first one says whether the goroutine goes on.\<close>

definition handleReply_term :: "'c Raft \<Rightarrow> AppendEntriesReply \<Rightarrow> 'c Raft \<times> bool" where
  "handleReply_term rf reply =
     (if aerTerm reply > currentTerm rf
      then (rf\<lparr>currentTerm := aerTerm reply, rstate := FOLLOWER\<rparr>, False) else (rf, True))"

definition handleReply_update :: "'c Raft \<Rightarrow> AppendEntriesReply \<Rightarrow> ('c Raft \<times> int option) result" where
  "handleReply_update rf reply =
     (if Success reply then
        if IsHeartbeat reply then Inr (rf, None)
        else
          bind_result (slice_get (matchIndex rf) (int (FollowerId reply))) (\<lambda>mi.
          let rf1 = (if mi < LastLogIndex reply
                     then rf\<lparr>matchIndex := (matchIndex rf)[FollowerId reply := LastLogIndex reply]\<rparr> else rf)
          in bind_result (slice_get (nextIndex rf1) (int (FollowerId reply))) (\<lambda>_.
               Inr (rf1\<lparr>nextIndex := (nextIndex rf1)[FollowerId reply := LastLogIndex reply + 1]\<rparr>,
                    Some (LastLogIndex reply))))
      else
        bind_result (slice_get (nextIndex rf) (int (FollowerId reply))) (\<lambda>ni.
          Inr (rf\<lparr>nextIndex := (nextIndex rf)[FollowerId reply := ni - 1]\<rparr>, None)))"

end
