(* ===== verification/Raft_Log.thy ===== *)
theory Raft_Log
  imports Raft_Peer
begin

section \<open>Raft: the log of a peer\<close>

text \<open>
  What the handlers do to the log. \<open>log_ok\<close> is the shape of a log: it is not empty and the index
  of an entry is its position. \<open>merge_log\<close> is the text-book rule for a follower that accepts
  entries, and \<open>AppendEntries_merge\<close> shows that the two loops of the handler compute it. The other
  lemmas describe the messages a leader sends, the commands that are applied, and the rule by
  which a leader commits.
\<close>

named_theorems raft_defs

subsection \<open>Positions\<close>

fun indexed :: "nat \<Rightarrow> 'c LogEntry list \<Rightarrow> bool" where
  "indexed n [] \<longleftrightarrow> True"
| "indexed n (e # es) \<longleftrightarrow> eIndex e = int n \<and> indexed (Suc n) es"

definition log_ok :: "'c LogEntry list \<Rightarrow> bool" where
  "log_ok lg \<longleftrightarrow> lg \<noteq> [] \<and> indexed 0 lg"

lemma indexed_append [simp]: "indexed n (xs @ ys) \<longleftrightarrow> indexed n xs \<and> indexed (n + length xs) ys"
  by (induction xs arbitrary: n) auto

lemma indexed_nth: "indexed n xs \<Longrightarrow> i < length xs \<Longrightarrow> eIndex (xs ! i) = int (n + i)"
  by (induction xs arbitrary: n i) (auto simp: nth_Cons split: nat.splits)

lemma indexed_take [simp]: "indexed n xs \<Longrightarrow> indexed n (take k xs)"
  by (induction xs arbitrary: n k) (auto simp: take_Cons split: nat.splits)

lemma indexed_drop: "indexed n xs \<Longrightarrow> indexed (n + k) (drop k xs)"
  by (induction xs arbitrary: n k) (auto simp: drop_Cons split: nat.splits, metis add_Suc)

lemma log_ok_nth: "log_ok lg \<Longrightarrow> i < length lg \<Longrightarrow> eIndex (lg ! i) = int i"
  using indexed_nth [of 0 lg i] by (simp add: log_ok_def)

lemma log_ok_drop: "log_ok lg \<Longrightarrow> indexed k (drop k lg)"
  using indexed_drop [of 0 lg k] by (simp add: log_ok_def)

lemma log_ok_length: "log_ok lg \<Longrightarrow> 0 < length lg"
  by (simp add: log_ok_def)

lemma log_ok_last: "log_ok lg \<Longrightarrow> slice_get lg (int (length lg) - 1) = Inr (lg ! (length lg - 1))"
  using log_ok_length [of lg] by (simp add: nat_diff_distrib')

subsection \<open>The rule for accepting entries\<close>

fun agree_len :: "'c LogEntry list \<Rightarrow> 'c LogEntry list \<Rightarrow> nat" where
  "agree_len (x # xs) (e # es) = (if eTerm x = eTerm e then Suc (agree_len xs es) else 0)"
| "agree_len _ _ = 0"

definition merge_log :: "'c LogEntry list \<Rightarrow> nat \<Rightarrow> 'c LogEntry list \<Rightarrow> 'c LogEntry list" where
  "merge_log lg start es =
     (let k = agree_len (drop start lg) es
      in if k = length es then lg else take (start + k) lg @ drop k es)"

lemma agree_len_le: "agree_len xs es \<le> length xs" "agree_len xs es \<le> length es"
  by (induction xs es rule: agree_len.induct) auto

lemma agree_len_bound: "start \<le> length lg \<Longrightarrow> min (length lg) (start + agree_len (drop start lg) es) = start + agree_len (drop start lg) es"
  using agree_len_le(1) [of "drop start lg" es] by simp

lemma agree_len_Nil [simp]: "agree_len xs [] = 0"
  by (cases xs) auto

lemma agree_len_nth: "i < agree_len xs es \<Longrightarrow> eTerm (xs ! i) = eTerm (es ! i)"
  by (induction xs es arbitrary: i rule: agree_len.induct) (auto simp: nth_Cons split: if_splits nat.splits)

lemma ae_scan_agree:
  assumes "indexed start es" "start \<le> length lg"
  shows "ae_scan lg es i inLog =
     Inr (let k = agree_len (drop start lg) es
          in (if k = length es \<or> length lg \<le> start + k then lg else take (start + k) lg, inLog @ [i..<i + k]))"
  using assms
proof (induction es arbitrary: start i inLog)
  case (Cons e es)
  then have e: "eIndex e = int start" and es: "indexed (Suc start) es" by auto
  show ?case
  proof (cases "start < length lg")
    case True
    then have d: "drop start lg = lg ! start # drop (Suc start) lg" by (simp add: Cons_nth_drop_Suc)
    show ?thesis
    proof (cases "eTerm (lg ! start) = eTerm e")
      case agree: True
      then have "ae_scan lg (e # es) i inLog = ae_scan lg es (i + 1) (inLog @ [i])" using True e by simp
      then show ?thesis
        using Cons.IH [OF es, of "i + 1" "inLog @ [i]"] True agree by (simp add: d Let_def upt_rec [of i])
    next
      case False
      then show ?thesis using True e by (simp add: d)
    qed
  next
    case False
    then have l: "drop start lg = []" "start = length lg" using Cons.prems(2) by auto
    have past: "ae_scan lg es i inLog = Inr (lg, inLog)" if "indexed n es" "length lg \<le> n" for es n i
      using that by (induction es arbitrary: n i) auto
    show ?thesis using past [of start "e # es"] Cons.prems(1) l by simp
  qed
qed simp

lemma ae_append_True: "ae_append lg es i inLog True = lg @ es"
  by (induction es arbitrary: lg i) auto

lemma ae_append_drop:
  "set inLog = {0..<k} \<Longrightarrow> i \<le> k \<Longrightarrow> ae_append lg es i inLog False = lg @ drop (k - i) es"
proof (induction es arbitrary: lg i)
  case (Cons e es)
  then show ?case by (cases "i = k") (simp_all add: Let_def ae_append_True drop_Cons' Suc_diff_le)
qed simp

lemma merge_log_loops:
  assumes "indexed start es" "start \<le> length lg"
  shows "bind_result (ae_scan lg es 0 []) (\<lambda>(lg', inLog). Inr (ae_append lg' es 0 inLog False)) =
     Inr (merge_log lg start es)"
  using assms agree_len_le [of "drop start lg" es]
  by (simp add: ae_scan_agree Let_def merge_log_def ae_append_drop)

lemma merge_log_ok: "log_ok lg \<Longrightarrow> indexed start es \<Longrightarrow> 0 < start \<Longrightarrow> start \<le> length lg \<Longrightarrow> log_ok (merge_log lg start es)"
  using agree_len_bound [of start lg es] indexed_drop [of start es "agree_len (drop start lg) es"]
  by (auto simp: log_ok_def merge_log_def Let_def)

lemma merge_log_take: "start \<le> length lg \<Longrightarrow> take start (merge_log lg start es) = take start lg"
  using agree_len_le(1) [of "drop start lg" es] by (simp add: merge_log_def Let_def)

lemma merge_log_has_terms:
  assumes "start \<le> length lg" "i < length es"
  shows "start + i < length (merge_log lg start es)" "eTerm (merge_log lg start es ! (start + i)) = eTerm (es ! i)"
proof -
  let ?k = "agree_len (drop start lg) es"
  have k: "?k \<le> length lg - start" "?k \<le> length es" using agree_len_le [of "drop start lg" es] by simp_all
  then show "start + i < length (merge_log lg start es)" using assms by (auto simp: merge_log_def Let_def)
  have agree: "eTerm (lg ! (start + i)) = eTerm (es ! i)" if "i < ?k"
    using agree_len_nth [OF that] that k assms(1) by (simp add: nth_drop)
  show "eTerm (merge_log lg start es ! (start + i)) = eTerm (es ! i)"
  proof (cases "?k = length es \<or> i < ?k")
    case True
    then show ?thesis using agree assms k by (auto simp: merge_log_def Let_def nth_append)
  next
    case False
    then show ?thesis using assms k agree_len_bound [of start lg es] by (simp add: merge_log_def Let_def nth_append)
  qed
qed

subsection \<open>Applying commands\<close>

lemma apply_loop_segment:
  assumes "0 \<le> i" "c < int (length lg)"
  shows "apply_loop lg i c = Inr (map apply_msg (take (nat (c - i)) (drop (Suc (nat i)) lg)))"
  using assms
proof (induction lg i c rule: apply_loop.induct)
  case (1 lg i c)
  show ?case
  proof (cases "i < c")
    case True
    then have g: "slice_get lg (i + 1) = Inr (lg ! Suc (nat i))" using 1 by (simp add: nat_add_distrib)
    have d: "drop (Suc (nat i)) lg = lg ! Suc (nat i) # drop (Suc (nat (i + 1))) lg"
      using True 1 by (simp add: nat_add_distrib Cons_nth_drop_Suc)
    have n: "nat (c - i) = Suc (nat (c - (i + 1)))" using True by simp
    show ?thesis using 1 True g by (subst apply_loop.simps) (simp add: d n)
  qed (subst apply_loop.simps, simp)
qed

lemma apply_loop_none: "c \<le> i \<Longrightarrow> apply_loop lg i c = Inr []"
  by (subst apply_loop.simps) simp

lemma apply_loop_Inr:
  assumes "apply_loop lg i c = Inr ms" "0 \<le> i"
  shows "ms = map apply_msg (take (nat (c - i)) (drop (Suc (nat i)) lg))"
proof (cases "c < int (length lg)")
  case True
  then show ?thesis using apply_loop_segment [OF assms(2) True] assms(1) by simp
next
  case False
  have "apply_loop lg i c = Inl IndexOutOfRange" if "0 \<le> i" "i < c" "int (length lg) \<le> c" for i
    using that
  proof (induction lg i c rule: apply_loop.induct)
    case (1 lg i c)
    then show ?case
      by (subst apply_loop.simps) (cases "i + 1 < int (length lg)"; force simp: slice_get_def)
  qed
  then have "c \<le> i" using assms False by (metis Inl_Inr_False leI not_less)
  then show ?thesis using apply_loop_none [of c i lg] assms(1) by simp
qed

subsection \<open>AppendEntries\<close>

definition ae_args_ok :: "'c AppendEntriesArgs \<Rightarrow> bool" where
  "ae_args_ok args \<longleftrightarrow> 0 \<le> PrevLogIndex args \<and> PrevLogTerm args \<noteq> - 1 \<and>
     indexed (Suc (nat (PrevLogIndex args))) (Entries args)"

definition ae_accepts :: "'c Raft \<Rightarrow> 'c AppendEntriesArgs \<Rightarrow> bool" where
  "ae_accepts rf args \<longleftrightarrow> currentTerm rf \<le> aeTerm args \<and> PrevLogIndex args < int (length (rlog rf)) \<and>
     eTerm (rlog rf ! nat (PrevLogIndex args)) = PrevLogTerm args"

lemma rpc_notify_simps [simp]:
  "me (rpc_notify rf n) = me rf" "dead (rpc_notify rf n) = dead rf" "currentTerm (rpc_notify rf n) = currentTerm rf"
  "votedFor (rpc_notify rf n) = votedFor rf" "rlog (rpc_notify rf n) = rlog rf" "commitIndex (rpc_notify rf n) = commitIndex rf"
  "lastApplied (rpc_notify rf n) = lastApplied rf" "nextIndex (rpc_notify rf n) = nextIndex rf"
  "matchIndex (rpc_notify rf n) = matchIndex rf" "rstate (rpc_notify rf n) = rstate rf"
  "votesGot (rpc_notify rf n) = votesGot rf" "numPeers (rpc_notify rf n) = numPeers rf"
  by (simp_all add: rpc_notify_def)

lemma follow_frame [simp]:
  "me (fst (follow rf t c)) = me rf" "votedFor (fst (follow rf t c)) = votedFor rf" "rlog (fst (follow rf t c)) = rlog rf"
  "commitIndex (fst (follow rf t c)) = commitIndex rf" "lastApplied (fst (follow rf t c)) = lastApplied rf"
  "numPeers (fst (follow rf t c)) = numPeers rf" "matchIndex (fst (follow rf t c)) = matchIndex rf"
  "nextIndex (fst (follow rf t c)) = nextIndex rf"
  "currentTerm rf \<le> t \<Longrightarrow> currentTerm (fst (follow rf t c)) = (if t > currentTerm rf \<or> c then t else currentTerm rf)"
  by (auto simp: follow_def Let_def)

lemma AppendEntries_stale:
  "aeTerm args < currentTerm rf \<Longrightarrow> AppendEntries rf args = Inr (rpc_notify rf 2, ae_fail (rpc_notify rf 2) args, [], [])"
  by (simp add: AppendEntries_def Let_def)

lemma AppendEntries_reject:
  assumes "currentTerm rf \<le> aeTerm args" "ae_args_ok args" "\<not> ae_accepts rf args"
    "follow (rpc_notify rf 2) (aeTerm args) (rstate rf = CANDIDATE) = (rf1, sp)"
  shows "AppendEntries rf args = Inr (rf1, ae_fail rf1 args, sp, [])"
proof -
  have "rlog rf1 = rlog rf" using follow_frame(3) [of "rpc_notify rf 2" "aeTerm args" "rstate rf = CANDIDATE"] assms(4) by simp
  then show ?thesis
    using assms unfolding AppendEntries_def
    by (auto simp: ae_args_ok_def ae_accepts_def Let_def slice_get_def)
qed

lemma AppendEntries_accept:
  assumes "ae_accepts rf args" "ae_args_ok args" "log_ok (rlog rf)"
    "follow (rpc_notify rf 2) (aeTerm args) (rstate rf = CANDIDATE) = (rf1, sp)"
  shows "AppendEntries rf args =
    bind_result (ae_commit (rf1\<lparr>rlog := merge_log (rlog rf) (Suc (nat (PrevLogIndex args))) (Entries args)\<rparr>) args) (\<lambda>(rf2, ms).
      Inr (rf2, \<lparr>FollowerId = me rf2, aerTerm = currentTerm rf2, LastLogIndex = int (length (rlog rf2)) - 1,
                 IsHeartbeat = (Entries args = []), Success = True\<rparr>, sp, ms))"
proof -
  let ?p = "Suc (nat (PrevLogIndex args))"
  have l: "rlog rf1 = rlog rf" using follow_frame(3) [of "rpc_notify rf 2" "aeTerm args" "rstate rf = CANDIDATE"] assms(4) by simp
  have p: "?p \<le> length (rlog rf)" "0 < length (rlog rf)" "indexed ?p (Entries args)"
    using assms(1,2,3) by (auto simp: ae_accepts_def ae_args_ok_def log_ok_def)
  have m: "bind_result (ae_scan (rlog rf) (Entries args) 0 []) (\<lambda>(lg, inLog). F (ae_append lg (Entries args) 0 inLog False)) =
      F (merge_log (rlog rf) ?p (Entries args))" for F :: "'a LogEntry list \<Rightarrow> 'b result"
    using merge_log_loops [OF p(3,1)] by (auto simp: bind_result_def split: sum.splits)
  note m' = m [unfolded case_prod_unfold]
  show ?thesis
    using assms(1,2,4) p(2) unfolding AppendEntries_def
    by (simp add: ae_args_ok_def ae_accepts_def Let_def l case_prod_unfold slice_get_def) (rule m')
qed

lemma ae_commit_ok:
  assumes "log_ok (rlog rf)" "0 \<le> commitIndex rf" "LeaderCommit args \<le> 2 ^ 53" "int (length (rlog rf)) \<le> 2 ^ 53"
    "c = (if LeaderCommit args > commitIndex rf then min (LeaderCommit args) (int (length (rlog rf)) - 1) else commitIndex rf)"
  shows "ae_commit rf args = Inr (rf\<lparr>commitIndex := c\<rparr>,
     map apply_msg (take (nat (c - commitIndex rf)) (drop (Suc (nat (commitIndex rf))) (rlog rf))))"
proof (cases "LeaderCommit args > commitIndex rf")
  case True
  have n: "0 < length (rlog rf)" using log_ok_length [OF assms(1)] .
  have e: "eIndex (rlog rf ! (length (rlog rf) - 1)) = int (length (rlog rf)) - 1"
    using n log_ok_nth [OF assms(1), of "length (rlog rf) - 1"] by linarith
  have "min_f64 (LeaderCommit args) (int (length (rlog rf)) - 1) = c"
    using True assms(2,3,4,5) n by (subst min_f64_exact) auto
  moreover have "c < int (length (rlog rf))" using assms(5) True n by simp
  ultimately show ?thesis
    using True assms(2) unfolding ae_commit_def
    by (simp add: log_ok_last [OF assms(1)] e [simplified] apply_loop_segment Let_def)
qed (use assms in \<open>simp add: ae_commit_def\<close>)

lemma merge_log_length: "start \<le> length lg \<Longrightarrow> length (merge_log lg start es) \<le> length lg + length es"
  using agree_len_bound [of start lg es] agree_len_le(2) [of "drop start lg" es] by (simp add: merge_log_def Let_def)

text \<open>
  C11: What \<^verbatim>\<open>AppendEntries\<close> does, on every branch. The call never panics; it succeeds exactly when the
  term is not stale and the log has an entry of the given term at \<^verbatim>\<open>PrevLogIndex\<close>; then the two loops over the
  entries compute the merge of the Raft paper (keep what agrees, cut at the first conflict, append the rest), and
  otherwise the log is unchanged. The commit index moves to the smaller of the leader's and the last index of the new
  log, and exactly the entries after the old one up to the new one are applied, in order.
\<close>

theorem raft_append_entries_merge:
  assumes "log_ok (rlog rf)" "ae_args_ok args" "0 \<le> commitIndex rf" "LeaderCommit args \<le> 2 ^ 53"
    "int (length (rlog rf) + length (Entries args)) \<le> 2 ^ 53"
  shows "\<exists>rf' reply sp ms. AppendEntries rf args = Inr (rf', reply, sp, ms) \<and>
     Success reply = ae_accepts rf args \<and> currentTerm rf' = max (currentTerm rf) (aeTerm args) \<and>
     rlog rf' = (if ae_accepts rf args then merge_log (rlog rf) (Suc (nat (PrevLogIndex args))) (Entries args) else rlog rf) \<and>
     commitIndex rf' = (if ae_accepts rf args \<and> commitIndex rf < LeaderCommit args
                        then min (LeaderCommit args) (int (length (rlog rf')) - 1) else commitIndex rf) \<and>
     ms = map apply_msg (take (nat (commitIndex rf' - commitIndex rf)) (drop (Suc (nat (commitIndex rf))) (rlog rf'))) \<and>
     LastLogIndex reply = (if ae_accepts rf args then int (length (rlog rf')) - 1 else 0)"
proof (cases "currentTerm rf \<le> aeTerm args")
  case True
  obtain rf1 sp where f: "follow (rpc_notify rf 2) (aeTerm args) (rstate rf = CANDIDATE) = (rf1, sp)" by fastforce
  have rf1: "rlog rf1 = rlog rf" "commitIndex rf1 = commitIndex rf" "currentTerm rf1 = max (currentTerm rf) (aeTerm args)"
    using follow_frame [of "rpc_notify rf 2" "aeTerm args" "rstate rf = CANDIDATE"] True f by auto
  show ?thesis
  proof (cases "ae_accepts rf args")
    case acc: True
    let ?lg = "merge_log (rlog rf) (Suc (nat (PrevLogIndex args))) (Entries args)"
    have p: "Suc (nat (PrevLogIndex args)) \<le> length (rlog rf)" using acc assms(2) by (auto simp: ae_accepts_def ae_args_ok_def)
    have lg: "log_ok ?lg" "int (length ?lg) \<le> 2 ^ 53"
      using merge_log_ok [OF assms(1) _ _ p] merge_log_length [OF p, of "Entries args"] assms(2,5)
      by (auto simp: ae_args_ok_def)
    show ?thesis
      using AppendEntries_accept [OF acc assms(2,1) f] ae_commit_ok [of "rf1\<lparr>rlog := ?lg\<rparr>" args, OF _ _ _ _ refl] lg assms(3,4) acc
      by (simp add: rf1)
  next
    case False
    then show ?thesis using AppendEntries_reject [OF True assms(2) False f] by (simp add: rf1 ae_fail_def)
  qed
next
  case False
  then show ?thesis by (simp add: AppendEntries_stale ae_accepts_def ae_fail_def)
qed

text \<open>A follower whose last entry conflicts with the entries of a new leader.\<close>

definition sample_entry :: "int \<Rightarrow> int \<Rightarrow> nat LogEntry" where
  "sample_entry t i = \<lparr>Command = nat (10 * t + i), eTerm = t, eIndex = i\<rparr>"

definition sample_peer :: "nat Raft" where
  "sample_peer = (raft_Make 3 1 0)\<lparr>currentTerm := 2, rlog := [sample_entry 0 0, sample_entry 1 1, sample_entry 2 2]\<rparr>"

definition sample_args :: "nat AppendEntriesArgs" where
  "sample_args = \<lparr>aeTerm = 3, LeaderId = 0, PrevLogIndex = 1, PrevLogTerm = 1, Entries = [sample_entry 3 2, sample_entry 3 3],
     LeaderCommit = 2\<rparr>"

theorem raft_append_entries_merge_witness:
  "\<exists>rf' reply sp. AppendEntries sample_peer sample_args =
      Inr (rf', reply, sp, [apply_msg (sample_entry 1 1), apply_msg (sample_entry 3 2)]) \<and>
     rlog rf' = [sample_entry 0 0, sample_entry 1 1, sample_entry 3 2, sample_entry 3 3] \<and> commitIndex rf' = 2 \<and>
     Success reply \<and> LastLogIndex reply = 3"
proof -
  have ok: "log_ok (rlog sample_peer)" "ae_args_ok sample_args" "0 \<le> commitIndex sample_peer"
    "LeaderCommit sample_args \<le> 2 ^ 53" "int (length (rlog sample_peer) + length (Entries sample_args)) \<le> 2 ^ 53"
    by (simp_all add: log_ok_def ae_args_ok_def sample_peer_def sample_args_def sample_entry_def raft_Make_def)
  have acc: "ae_accepts sample_peer sample_args"
    by (simp add: ae_accepts_def sample_peer_def sample_args_def sample_entry_def)
  have m: "merge_log (rlog sample_peer) (Suc (nat (PrevLogIndex sample_args))) (Entries sample_args) =
      [sample_entry 0 0, sample_entry 1 1, sample_entry 3 2, sample_entry 3 3]"
    by (simp add: merge_log_def sample_peer_def sample_args_def sample_entry_def Let_def numeral_2_eq_2)
  show ?thesis
    using raft_append_entries_merge [OF ok] acc m
    by (auto simp: sample_args_def sample_peer_def raft_Make_def numeral_2_eq_2)
qed

subsection \<open>What a leader sends\<close>

lemma replicate_one_args:
  assumes "replicate_one rf si = Inr args"
  shows "0 \<le> PrevLogIndex args" "PrevLogIndex args < int (length (rlog rf))"
    "PrevLogTerm args = eTerm (rlog rf ! nat (PrevLogIndex args))"
    "Entries args = drop (Suc (nat (PrevLogIndex args))) (rlog rf)"
    "aeTerm args = currentTerm rf" "LeaderId args = int (me rf)" "LeaderCommit args = commitIndex rf"
proof -
  have "Suc (nat (k - 1)) = nat k" if "1 \<le> k" for k :: int using that by simp
  then show "0 \<le> PrevLogIndex args" "PrevLogIndex args < int (length (rlog rf))"
    "PrevLogTerm args = eTerm (rlog rf ! nat (PrevLogIndex args))"
    "Entries args = drop (Suc (nat (PrevLogIndex args))) (rlog rf)"
    "aeTerm args = currentTerm rf" "LeaderId args = int (me rf)" "LeaderCommit args = commitIndex rf"
    using assms by (auto simp: replicate_one_def Let_def bind_result_Inr_iff slice_get_Inr_iff split: if_splits)
qed

lemma replicate_loop_mem:
  "replicate_loop rf sis = Inr ms \<Longrightarrow> (si, args) \<in> set ms \<Longrightarrow> si \<in> set sis \<and> si \<noteq> me rf \<and> replicate_one rf si = Inr args"
  by (induction sis arbitrary: ms) (auto simp: bind_result_Inr_iff split: if_splits)

lemma raft_replicate_mem:
  "raft_replicate rf = Inr ms \<Longrightarrow> (si, args) \<in> set ms \<Longrightarrow>
   rstate rf = LEADER \<and> si < numPeers rf \<and> si \<noteq> me rf \<and> replicate_one rf si = Inr args"
  using replicate_loop_mem [of rf "[0..<numPeers rf]" ms si args] by (simp add: raft_replicate_def split: if_splits)

lemma replicate_one_ok:
  assumes "rlog rf \<noteq> []" "si < length (nextIndex rf)" "0 < nextIndex rf ! si"
  shows "is_ok (replicate_one rf si)"
  using assms by (auto simp: replicate_one_def Let_def slice_get_def Suc_leI)

lemma ae_commit_frame:
  "ae_commit rf args = Inr (rf', ms) \<Longrightarrow> \<exists>c. rf' = rf\<lparr>commitIndex := c\<rparr>"
  by (auto simp: ae_commit_def bind_result_Inr_iff Let_def split: if_splits intro: exI [of _ "commitIndex rf"])

text \<open>Where the call returns, without bounds on the sizes.\<close>

lemma AppendEntries_returns:
  assumes "log_ok (rlog rf)" "ae_args_ok args" "AppendEntries rf args = Inr (rf', reply, sp, ms)"
  shows "rlog rf' = (if ae_accepts rf args then merge_log (rlog rf) (Suc (nat (PrevLogIndex args))) (Entries args) else rlog rf)"
    "currentTerm rf' = max (currentTerm rf) (aeTerm args)" "Success reply = ae_accepts rf args"
    "me rf' = me rf" "numPeers rf' = numPeers rf" "votedFor rf' = votedFor rf" "FollowerId reply = me rf"
    "set sp \<subseteq> {SpawnFollower}"
proof -
  obtain rf1 sp1 where f: "follow (rpc_notify rf 2) (aeTerm args) (rstate rf = CANDIDATE) = (rf1, sp1)" by fastforce
  have sp1: "set sp1 \<subseteq> {SpawnFollower}" using f by (auto simp: follow_def Let_def split: if_splits)
  consider (stale) "aeTerm args < currentTerm rf" | (reject) "currentTerm rf \<le> aeTerm args" "\<not> ae_accepts rf args"
    | (accept) "ae_accepts rf args" "currentTerm rf \<le> aeTerm args"
    by (meson ae_accepts_def leI)
  then have "rlog rf' = (if ae_accepts rf args then merge_log (rlog rf) (Suc (nat (PrevLogIndex args))) (Entries args) else rlog rf) \<and>
    currentTerm rf' = max (currentTerm rf) (aeTerm args) \<and> Success reply = ae_accepts rf args \<and> me rf' = me rf \<and>
    numPeers rf' = numPeers rf \<and> votedFor rf' = votedFor rf \<and> FollowerId reply = me rf \<and> set sp \<subseteq> {SpawnFollower}"
  proof cases
    case stale
    then show ?thesis using AppendEntries_stale [OF stale] assms(3) by (auto simp: ae_accepts_def ae_fail_def)
  next
    case reject
    then show ?thesis
      using AppendEntries_reject [OF reject(1) assms(2) reject(2) f] assms(3) sp1
        follow_frame [of "rpc_notify rf 2" "aeTerm args" "rstate rf = CANDIDATE"] f
      by (auto simp: ae_fail_def)
  next
    case accept
    then show ?thesis
      using assms(3) [unfolded AppendEntries_accept [OF accept(1) assms(2,1) f]] sp1
        follow_frame [of "rpc_notify rf 2" "aeTerm args" "rstate rf = CANDIDATE"] f
      by (auto simp: bind_result_Inr_iff dest!: ae_commit_frame)
  qed
  then show "rlog rf' = (if ae_accepts rf args then merge_log (rlog rf) (Suc (nat (PrevLogIndex args))) (Entries args) else rlog rf)"
    "currentTerm rf' = max (currentTerm rf) (aeTerm args)" "Success reply = ae_accepts rf args"
    "me rf' = me rf" "numPeers rf' = numPeers rf" "votedFor rf' = votedFor rf" "FollowerId reply = me rf"
    "set sp \<subseteq> {SpawnFollower}" by auto
qed

definition terms_ok :: "'c LogEntry list \<Rightarrow> bool" where
  "terms_ok lg \<longleftrightarrow> (\<forall>e \<in> set lg. 0 \<le> eTerm e)"

lemma raft_replicate_args_ok:
  assumes "raft_replicate rf = Inr ms" "(si, args) \<in> set ms" "log_ok (rlog rf)" "terms_ok (rlog rf)"
  shows "ae_args_ok args"
proof -
  have one: "replicate_one rf si = Inr args" using raft_replicate_mem [OF assms(1,2)] by simp
  note a = replicate_one_args [OF one]
  have "rlog rf ! nat (PrevLogIndex args) \<in> set (rlog rf)" using a(1,2) by (intro nth_mem) linarith
  then have "0 \<le> PrevLogTerm args" using assms(4) a(3) by (auto simp: terms_ok_def)
  then show ?thesis using a(1,4) log_ok_drop [OF assms(3)] by (auto simp: ae_args_ok_def)
qed

text \<open>
  C28: A message of a leader, once a follower has accepted it, brings the follower up to date:
  afterwards the follower's log is at least as long as the leader's was, and from
  \<^verbatim>\<open>PrevLogIndex\<close> on its entries have the terms of the leader's entries.
\<close>

theorem raft_replicate_catches_up:
  assumes "raft_replicate ld = Inr ms" "(si, args) \<in> set ms" "log_ok (rlog ld)" "terms_ok (rlog ld)" "log_ok (rlog rf)"
    "AppendEntries rf args = Inr (rf', reply, sp, out)" "Success reply" "PrevLogIndex args \<le> int i" "i < length (rlog ld)"
  shows "i < length (rlog rf') \<and> eTerm (rlog rf' ! i) = eTerm (rlog ld ! i)"
proof -
  let ?p = "nat (PrevLogIndex args)"
  have one: "replicate_one ld si = Inr args" using raft_replicate_mem [OF assms(1,2)] by simp
  note a = replicate_one_args [OF one]
  note r = AppendEntries_returns [OF assms(5) raft_replicate_args_ok [OF assms(1,2,3,4)] assms(6)]
  have acc: "ae_accepts rf args" and lg: "rlog rf' = merge_log (rlog rf) (Suc ?p) (Entries args)" using r(1,3) assms(7) by auto
  have p: "Suc ?p \<le> length (rlog rf)" "Suc ?p \<le> length (rlog ld)" using acc a(1,2) by (auto simp: ae_accepts_def)
  show ?thesis
  proof (cases "i = ?p")
    case True
    have "rlog rf' ! ?p = rlog rf ! ?p" "Suc ?p \<le> length (rlog rf')"
      using merge_log_take [OF p(1), of "Entries args"] p(1) unfolding lg
      by (metis lessI nth_take, metis (no_types) length_take min.absorb_iff2 min.commute)
    then show ?thesis using True acc a(3) by (simp add: ae_accepts_def)
  next
    case False
    then have i: "i = Suc ?p + (i - Suc ?p)" "i - Suc ?p < length (Entries args)"
      using assms(8,9) a(1,2,4) by auto
    show ?thesis using merge_log_has_terms [OF p(1) i(2)] lg a(4) i(1) p(2) by (simp add: nth_drop)
  qed
qed

text \<open>The leader's log of the example is one entry longer than what it has sent before.\<close>

definition sample_leader :: "nat Raft" where
  "sample_leader = (raft_Make 2 0 0)\<lparr>rstate := LEADER, currentTerm := 3, nextIndex := [0, 2], matchIndex := [0, 0], commitIndex := 2,
     rlog := [sample_entry 0 0, sample_entry 1 1, sample_entry 3 2, sample_entry 3 3]\<rparr>"

theorem raft_replicate_catches_up_witness:
  "raft_replicate sample_leader = Inr [(1, sample_args)] \<and>
   (\<exists>rf' reply sp out. AppendEntries sample_peer sample_args = Inr (rf', reply, sp, out) \<and> Success reply \<and>
      3 < length (rlog rf') \<and> eTerm (rlog rf' ! 3) = 3)"
proof -
  have r: "raft_replicate sample_leader = Inr [(1, sample_args)]"
    by (simp add: raft_replicate_def sample_leader_def sample_args_def raft_Make_def replicate_one_def Let_def slice_get_def
        upt_rec sample_entry_def)
  have ok: "log_ok (rlog sample_leader)" "terms_ok (rlog sample_leader)" "log_ok (rlog sample_peer)"
    by (simp_all add: log_ok_def terms_ok_def sample_leader_def sample_peer_def sample_entry_def)
  have "map_sum id (\<lambda>(rf', reply, sp, out). Success reply) (AppendEntries sample_peer sample_args) = Inr True" by code_simp
  then obtain rf' reply sp out where ae: "AppendEntries sample_peer sample_args = Inr (rf', reply, sp, out)" "Success reply"
    by (cases "AppendEntries sample_peer sample_args") auto
  have "3 < length (rlog rf') \<and> eTerm (rlog rf' ! 3) = eTerm (rlog sample_leader ! 3)"
    by (rule raft_replicate_catches_up [OF r _ ok ae]) (simp_all add: sample_args_def sample_leader_def)
  then show ?thesis using r ae by (simp add: sample_leader_def sample_entry_def)
qed

end
