(* ===== verification/Raft_Quorum.thy ===== *)
theory Raft_Quorum
  imports Raft_Log
begin

section \<open>Raft: majorities, votes and commits\<close>

text \<open>
  The two places where a peer counts: \<^verbatim>\<open>isElected\<close> counts votes and \<^verbatim>\<open>commitAt\<close> counts followers that have an
  entry. The locale \<open>quorums\<close> is what the protocol needs of the sets that are counted, namely that
  two of them meet; majorities of the peers are an instance, and the count of \<^verbatim>\<open>commitAt\<close> is a
  majority in this sense. The rest of the theory is the rule by which a peer grants its vote.
\<close>

subsection \<open>Quorums\<close>

locale quorums =
  fixes quorum :: "nat \<Rightarrow> nat set \<Rightarrow> bool"
  assumes members: "quorum n Q \<Longrightarrow> Q \<subseteq> {..<n}"
    and meet: "quorum n Q \<Longrightarrow> quorum n R \<Longrightarrow> Q \<inter> R \<noteq> {}"
    and grows: "quorum n Q \<Longrightarrow> Q \<subseteq> R \<Longrightarrow> R \<subseteq> {..<n} \<Longrightarrow> quorum n R"
begin

lemma nonempty: "quorum n Q \<Longrightarrow> Q \<noteq> {}"
  using meet [of n Q Q] by simp

lemma common_member:
  assumes "quorum n Q" "quorum n R"
  obtains p where "p < n" "p \<in> Q" "p \<in> R"
  using members [OF assms(1)] meet [OF assms] that by blast

lemma not_both: "quorum n Q \<Longrightarrow> Q \<inter> R = {} \<Longrightarrow> \<not> quorum n R"
  using meet by blast

lemma everyone: "quorum n Q \<Longrightarrow> quorum n {..<n}"
  using grows members by blast

end

definition majority :: "nat \<Rightarrow> nat set \<Rightarrow> bool" where
  "majority n Q \<longleftrightarrow> Q \<subseteq> {..<n} \<and> n < 2 * card Q"

interpretation maj: quorums majority
proof
  fix n :: nat and Q R :: "nat set"
  show "Q \<subseteq> {..<n}" if "majority n Q" using that by (simp add: majority_def)
  show "Q \<inter> R \<noteq> {}" if q: "majority n Q" and r: "majority n R"
  proof
    assume e: "Q \<inter> R = {}"
    have "finite Q" "finite R" using q r finite_subset by (auto simp: majority_def)
    then have "card Q + card R = card (Q \<union> R)" using e by (simp add: card_Un_disjoint)
    also have "\<dots> \<le> card {..<n}" using q r by (intro card_mono) (auto simp: majority_def)
    finally show False using q r by (simp add: majority_def)
  qed
  show "majority n R" if "majority n Q" "Q \<subseteq> R" "R \<subseteq> {..<n}"
    using that card_mono [OF finite_subset [OF that(3)] that(2)] by (auto simp: majority_def)
qed

subsection \<open>The rule for commits\<close>

text \<open>The peers that a leader knows to have the entry at \<open>index\<close>, itself included.\<close>

definition acked :: "'c Raft \<Rightarrow> int \<Rightarrow> nat set" where
  "acked rf index = insert (me rf) {si. si < numPeers rf \<and> matchIndex rf ! si \<ge> index}"

lemma count_matches_card: "me rf < numPeers rf \<Longrightarrow> count_matches rf index = card (acked rf index)"
proof -
  let ?S = "{si. si < numPeers rf \<and> si \<noteq> me rf \<and> matchIndex rf ! si \<ge> index}"
  have "length (filter (\<lambda>si. si \<noteq> me rf \<and> matchIndex rf ! si \<ge> index) [0..<numPeers rf]) =
      card (set (filter (\<lambda>si. si \<noteq> me rf \<and> matchIndex rf ! si \<ge> index) [0..<numPeers rf]))"
    by (rule distinct_card [symmetric]) simp
  also have "set (filter (\<lambda>si. si \<noteq> me rf \<and> matchIndex rf ! si \<ge> index) [0..<numPeers rf]) = ?S" by auto
  finally have c: "count_matches rf index = Suc (card ?S)" by (simp add: count_matches_def)
  have "acked rf index = insert (me rf) ?S" by (auto simp: acked_def)
  then show ?thesis using c by simp
qed

lemma commitAt_returns:
  assumes "commitAt rf index = Inr (rf', ms)" "me rf < numPeers rf"
  shows "rf' = rf \<and> ms = [] \<and> index \<le> commitIndex rf \<or>
    commitIndex rf < index \<and> index < int (length (rlog rf)) \<and>
    commitIndex rf' = (if majority (numPeers rf) (acked rf index) \<and> eTerm (rlog rf ! nat index) = currentTerm rf \<and> 0 \<le> index
                       then index else commitIndex rf) \<and>
    rf' = rf\<lparr>commitIndex := commitIndex rf', lastApplied := max (lastApplied rf) (commitIndex rf')\<rparr> \<and>
    apply_loop (rlog rf) (lastApplied rf) (commitIndex rf') = Inr ms"
proof (cases "index \<le> commitIndex rf")
  case True
  then show ?thesis using assms(1) by (simp add: commitAt_def)
next
  case False
  have maj: "numPeers rf div 2 < count_matches rf index \<longleftrightarrow> majority (numPeers rf) (acked rf index)"
    using assms(2) count_matches_card [OF assms(2), of index] by (auto simp: majority_def acked_def)
  show ?thesis
    using assms(1) False
    by (auto simp: commitAt_def bind_result_Inr_iff slice_get_Inr_iff Let_def maj split: if_splits)
qed

lemma commitAt_frame:
  assumes "commitAt rf index = Inr (rf', ms)"
  shows "\<exists>c l. rf' = rf\<lparr>commitIndex := c, lastApplied := l\<rparr> \<and> commitIndex rf \<le> c"
proof (cases "index \<le> commitIndex rf")
  case True
  then have "rf' = rf\<lparr>commitIndex := commitIndex rf, lastApplied := lastApplied rf\<rparr>" using assms by (simp add: commitAt_def)
  then show ?thesis by blast
next
  case False
  then show ?thesis
    using assms by (force simp: commitAt_def bind_result_Inr_iff slice_get_Inr_iff Let_def split: if_splits)
qed

text \<open>
  C23: The rule for commits. When a leader advances its commit index, it is to the index it was
  asked for, the entry there is of the leader's current term, a majority of the peers, the
  leader included, is known to have it, and exactly the entries after \<open>lastApplied\<close> up to this index are
  applied, in order. These need not be unapplied ones: only a leader moves \<open>lastApplied\<close>, so a new leader applies
  again what it applied as a follower (\<open>raft_leader_applies_again\<close>).
\<close>

theorem raft_commit_rule:
  assumes "commitAt rf index = Inr (rf', ms)" "commitIndex rf' \<noteq> commitIndex rf" "me rf < numPeers rf" "0 \<le> lastApplied rf"
  shows "commitIndex rf < index \<and> commitIndex rf' = index \<and> index < int (length (rlog rf)) \<and>
    eTerm (rlog rf ! nat index) = currentTerm rf \<and> majority (numPeers rf) (acked rf index) \<and>
    ms = map apply_msg (take (nat (index - lastApplied rf)) (drop (Suc (nat (lastApplied rf))) (rlog rf))) \<and>
    lastApplied rf' = max (lastApplied rf) index"
  using commitAt_returns [OF assms(1,3)] assms(2)
proof (elim disjE conjE)
  assume c: "commitIndex rf' = (if majority (numPeers rf) (acked rf index) \<and> eTerm (rlog rf ! nat index) = currentTerm rf \<and> 0 \<le> index
                       then index else commitIndex rf)"
    and r: "rf' = rf\<lparr>commitIndex := commitIndex rf', lastApplied := max (lastApplied rf) (commitIndex rf')\<rparr>"
    and a: "apply_loop (rlog rf) (lastApplied rf) (commitIndex rf') = Inr ms"
    and i: "commitIndex rf < index" "index < int (length (rlog rf))"
  have "commitIndex rf' = index" "majority (numPeers rf) (acked rf index)" "eTerm (rlog rf ! nat index) = currentTerm rf"
    using c assms(2) by (auto split: if_splits)
  moreover have "lastApplied rf' = max (lastApplied rf) (commitIndex rf')" using r by (metis Raft.select_convs(7) Raft.surjective Raft.update_convs(7))
  ultimately show ?thesis using apply_loop_Inr [OF a assms(4)] i by simp
qed simp

definition committing_leader :: "nat Raft" where
  "committing_leader = sample_leader\<lparr>numPeers := 3, commitIndex := 1, lastApplied := 1, nextIndex := [0, 4, 3], matchIndex := [0, 3, 1]\<rparr>"

theorem raft_commit_rule_witness:
  "\<exists>rf' ms. commitAt committing_leader 3 = Inr (rf', ms) \<and> commitIndex rf' = 3 \<and> majority 3 (acked committing_leader 3) \<and>
     ms = [apply_msg (sample_entry 3 2), apply_msg (sample_entry 3 3)]"
proof -
  have "map_sum id (\<lambda>(rf', ms). commitIndex rf') (commitAt committing_leader 3) = Inr 3" by code_simp
  then obtain rf' ms where c: "commitAt committing_leader 3 = Inr (rf', ms)" "commitIndex rf' = 3"
    by (cases "commitAt committing_leader 3") auto
  show ?thesis
    using raft_commit_rule [OF c(1)] c
    by (simp add: committing_leader_def sample_leader_def raft_Make_def numeral_2_eq_2 numeral_3_eq_3)
qed

text \<open>
  The quorums of two commits meet: if two leaders of the same group advance their commit
  indices, some peer is known to both to have the entry they commit.
\<close>

theorem raft_commit_quorums_meet:
  fixes a b :: "'c Raft"
  assumes "commitAt a i = Inr (a', ms)" "commitIndex a' \<noteq> commitIndex a" "me a < n" "numPeers a = n"
    "commitAt b j = Inr (b', ms')" "commitIndex b' \<noteq> commitIndex b" "me b < n" "numPeers b = n"
  shows "\<exists>p < n. p \<in> acked a i \<and> p \<in> acked b j"
proof -
  have quorum: "majority n (acked rf index)"
    if "commitAt rf index = Inr (rf', ms)" "commitIndex rf' \<noteq> commitIndex rf" "me rf < n" "numPeers rf = n"
    for rf rf' :: "'c Raft" and index ms
    using commitAt_returns [OF that(1)] that by (auto split: if_splits)
  show ?thesis
    by (rule maj.common_member [OF quorum [OF assms(1-4)] quorum [OF assms(5-8)]]) blast
qed

theorem raft_commit_quorums_meet_witness: "\<exists>p < 3. p \<in> acked committing_leader 3 \<and> p \<in> acked committing_leader 2"
proof -
  have "map_sum id (\<lambda>(rf', ms). commitIndex rf') (commitAt committing_leader 3) = Inr 3"
    "map_sum id (\<lambda>(rf', ms). commitIndex rf') (commitAt committing_leader 2) = Inr 2" by code_simp+
  then obtain a ms b ms' where c: "commitAt committing_leader 3 = Inr (a, ms)" "commitIndex a = 3"
    "commitAt committing_leader 2 = Inr (b, ms')" "commitIndex b = 2"
    by (cases "commitAt committing_leader 3"; cases "commitAt committing_leader 2") auto
  show ?thesis
    by (rule raft_commit_quorums_meet [OF c(1) _ _ _ c(3)])
      (simp_all add: c(2,4) committing_leader_def sample_leader_def raft_Make_def)
qed

subsection \<open>Votes\<close>

lemma RequestVote_eq:
  "RequestVote rf args =
     (let (rf1, sp) = follow (rpc_notify rf 1) (rvTerm args) False;
          granted = (currentTerm rf \<le> rvTerm args \<and> votedFor rf \<in> {- 1, CandidateId args} \<and> isCandUpToDate rf args);
          rf2 = (if granted then rf1\<lparr>votedFor := CandidateId args\<rparr> else rf1)
      in (rf2, \<lparr>rvrTerm = currentTerm rf2, VoteGranted = granted\<rparr>, sp))"
proof -
  obtain rf1 sp where f: "follow (rpc_notify rf 1) (rvTerm args) False = (rf1, sp)" by fastforce
  have "votedFor rf1 = votedFor rf" "rlog rf1 = rlog rf"
    using follow_frame(2,3) [of "rpc_notify rf 1" "rvTerm args" False] f by simp_all
  then show ?thesis by (auto simp: RequestVote_def f Let_def isCandUpToDate_def)
qed

lemma RequestVote_returns:
  assumes "RequestVote rf args = (rf', reply, sp)"
  shows "VoteGranted reply \<longleftrightarrow> currentTerm rf \<le> rvTerm args \<and> votedFor rf \<in> {- 1, CandidateId args} \<and> isCandUpToDate rf args"
    "votedFor rf' = (if VoteGranted reply then CandidateId args else votedFor rf)"
    "currentTerm rf' = max (currentTerm rf) (rvTerm args)" "rvrTerm reply = currentTerm rf'"
    "rlog rf' = rlog rf" "commitIndex rf' = commitIndex rf" "lastApplied rf' = lastApplied rf" "me rf' = me rf"
    "numPeers rf' = numPeers rf" "nextIndex rf' = nextIndex rf" "matchIndex rf' = matchIndex rf" "set sp \<subseteq> {SpawnFollower}"
  using assms unfolding RequestVote_eq by (auto simp: follow_def Let_def rpc_notify_def split: if_splits)

text \<open>
  C26: The rule for votes, on every branch. A peer with a well-formed log grants its vote exactly
  when the term is not stale, its \<^verbatim>\<open>votedFor\<close> is free or already names the candidate, and the last
  entry of the candidate is at least as new as its own, terms compared first and indices second;
  it then remembers the candidate, and in every case adopts a larger term and keeps its log.
\<close>

theorem raft_vote_rule:
  assumes "log_ok (rlog rf)" "RequestVote rf args = (rf', reply, sp)"
  shows "VoteGranted reply =
      (currentTerm rf \<le> rvTerm args \<and> votedFor rf \<in> {- 1, CandidateId args} \<and>
       (eTerm (last (rlog rf)) < rvLastLogTerm args \<or>
        eTerm (last (rlog rf)) = rvLastLogTerm args \<and> eIndex (last (rlog rf)) \<le> rvLastLogIndex args)) \<and>
    votedFor rf' = (if VoteGranted reply then CandidateId args else votedFor rf) \<and>
    currentTerm rf' = max (currentTerm rf) (rvTerm args) \<and> rvrTerm reply = currentTerm rf' \<and> rlog rf' = rlog rf"
proof -
  have l: "rlog rf \<noteq> []" "last (rlog rf) = rlog rf ! (length (rlog rf) - 1)"
    using assms(1) by (simp_all add: log_ok_def last_conv_nth)
  then have "eIndex (last (rlog rf)) = int (length (rlog rf)) - 1"
    using log_ok_nth [OF assms(1), of "length (rlog rf) - 1"] by (simp add: Suc_leI)
  then show ?thesis using RequestVote_returns [OF assms(2)] l by (auto simp: isCandUpToDate_def Let_def)
qed

theorem raft_vote_rule_witness:
  "\<exists>rf' reply sp. RequestVote (sample_peer\<lparr>votedFor := - 1\<rparr>) \<lparr>rvTerm = 3, CandidateId = 2, rvLastLogIndex = 2, rvLastLogTerm = 2\<rparr>
     = (rf', reply, sp) \<and> VoteGranted reply \<and> votedFor rf' = 2 \<and> currentTerm rf' = 3"
proof -
  let ?rf = "sample_peer\<lparr>votedFor := - 1\<rparr>" and ?args = "\<lparr>rvTerm = 3, CandidateId = 2, rvLastLogIndex = 2, rvLastLogTerm = 2\<rparr>"
  obtain rf' reply sp where r: "RequestVote ?rf ?args = (rf', reply, sp)" by (metis prod_cases3)
  have "log_ok (rlog ?rf)" by (simp add: log_ok_def sample_peer_def sample_entry_def)
  from raft_vote_rule [OF this r] show ?thesis using r by (simp add: sample_peer_def sample_entry_def)
qed

text \<open>
  A vote outlives its term. A peer that has voted for one candidate, and has not been through
  \<^verbatim>\<open>toFollower\<close> or an own election since, refuses every other candidate, also in a larger term, in
  which it has not voted yet and which it adopts; the comment on \<^verbatim>\<open>votedFor\<close> says that it is the
  vote of the current term.
\<close>

theorem raft_vote_outlives_term:
  assumes "votedFor rf \<noteq> - 1" "votedFor rf \<noteq> CandidateId args" "currentTerm rf < rvTerm args"
    "RequestVote rf args = (rf', reply, sp)"
  shows "currentTerm rf' = rvTerm args \<and> votedFor rf' = votedFor rf \<and> \<not> VoteGranted reply"
  using RequestVote_returns [OF assms(4)] assms(1,2,3) by auto

theorem raft_vote_outlives_term_witness:
  "\<exists>rf' reply sp. RequestVote sample_peer \<lparr>rvTerm = 9, CandidateId = 2, rvLastLogIndex = 9, rvLastLogTerm = 8\<rparr> = (rf', reply, sp) \<and>
     currentTerm rf' = 9 \<and> votedFor rf' = 0 \<and> \<not> VoteGranted reply"
proof -
  let ?args = "\<lparr>rvTerm = 9, CandidateId = 2, rvLastLogIndex = 9, rvLastLogTerm = 8\<rparr>"
  obtain rf' reply sp where r: "RequestVote sample_peer ?args = (rf', reply, sp)" by (metis prod_cases3)
  have v: "votedFor sample_peer = 0" "currentTerm sample_peer = 2" by (simp_all add: sample_peer_def raft_Make_def)
  show ?thesis using raft_vote_outlives_term [OF _ _ _ r] r v by simp
qed

end
