(* ===== verification/Raft_Cluster.thy ===== *)
theory Raft_Cluster
  imports Raft_Quorum
begin

section \<open>Raft: the goroutines of a group of peers\<close>

text \<open>
  The control flow around the critical sections of \<open>Raft_Peer\<close>. A goroutine is a value of type
  \<open>routine\<close>, the point it has reached: \<^verbatim>\<open>toFollower\<close>, \<^verbatim>\<open>toCandidate\<close> with the election it waits
  for, \<^verbatim>\<open>toLeader\<close>, \<^verbatim>\<open>handleReply\<close>, \<^verbatim>\<open>replicate\<close>, \<^verbatim>\<open>commitAt\<close>, and a call of \<^verbatim>\<open>Start\<close> that has
  passed its check. A step runs one goroutine up to its next point, or lets the network deliver
  or lose a call or a reply; so all interleavings of critical sections are possible, calls and
  replies arrive in any order, late or not at all, and timeouts may fire at any moment. The
  test of a loop is one step, separate from the body, as the state may change in between. The
  reply channels are numbers; a reply that is under way and one that waits in a channel are the
  same. \<^verbatim>\<open>toCandidate\<close> only waits while \<^verbatim>\<open>startElection\<close> runs, so the two are one routine. A handler
  can run when its notification on \<^verbatim>\<open>rpcCh\<close> does not block. A call carries the entries the log
  had when \<^verbatim>\<open>replicate\<close> sliced it.
\<close>

subsection \<open>Goroutines\<close>

datatype 'c packet =
    RVCall nat nat nat RequestVoteArgs            \<comment> \<open>from, to, reply channel\<close>
  | RVReply nat nat RequestVoteReply              \<comment> \<open>to, reply channel\<close>
  | AECall nat nat nat "'c AppendEntriesArgs"
  | AEReply nat nat AppendEntriesReply

datatype 'c routine =
    FolEnter | FolCheck | FolSelect
  | CandCheck | CandRound | ElectStart | ElectCheck nat | ElectSelect nat
  | LeadEnter | LeadCheck nat | LeadSelect nat | Repl nat
  | HandleCheck nat | HandleRecv nat | HandleUpd nat AppendEntriesReply
  | CommitAt int | StartAppend 'c

datatype input = Timeout | RpcSeen | VoteIn RequestVoteReply | AppendIn AppendEntriesReply

type_synonym 'c effect = "'c Raft \<times> 'c routine list \<times> 'c packet list \<times> 'c ApplyMsg list"

fun spawned :: "spawn \<Rightarrow> 'c routine" where
  "spawned SpawnFollower = FolEnter"
| "spawned SpawnCandidate = CandCheck"
| "spawned SpawnLeader = LeadEnter"

text \<open>The loop of \<^verbatim>\<open>toFollower\<close>: its test, and what the \<^verbatim>\<open>select\<close> takes.\<close>

definition toFollower_loop :: "'c Raft \<Rightarrow> 'c routine list" where
  "toFollower_loop rf = (if \<not> killed rf \<and> isState rf FOLLOWER then [FolSelect] else [])"

fun toFollower_select :: "'c Raft \<Rightarrow> input \<Rightarrow> 'c effect option" where
  "toFollower_select rf RpcSeen = (if rpcCh rf = [] then None else Some (toFollower_rpc rf, [FolCheck], [], []))"
| "toFollower_select rf Timeout = Some (toFollower_timeout rf, [CandCheck], [], [])"
| "toFollower_select rf _ = None"

text \<open>The loop of \<^verbatim>\<open>toCandidate\<close> and the election that it waits for.\<close>

definition toCandidate_loop :: "'c Raft \<Rightarrow> 'c routine list" where
  "toCandidate_loop rf = (if \<not> killed rf \<and> isState rf CANDIDATE then [CandRound] else [])"

definition startElection_start :: "'c Raft \<Rightarrow> nat \<Rightarrow> 'c effect result" where
  "startElection_start rf ch =
     (if killed rf then Inr (rf, [], [], [])
      else bind_result (startElection_begin rf) (\<lambda>(rf1, args).
        Inr (rf1, [ElectCheck ch],
             map (\<lambda>si. RVCall (me rf) si ch args) (filter (\<lambda>si. si \<noteq> me rf) [0..<numPeers rf]), [])))"

fun startElection_select :: "'c Raft \<Rightarrow> nat \<Rightarrow> input \<Rightarrow> 'c effect option" where
  "startElection_select rf c Timeout = Some (rf, [CandCheck], [], [])"
| "startElection_select rf c (VoteIn reply) =
     (case startElection_reply rf reply of
        (rf1, KeepWaiting) \<Rightarrow> Some (rf1, [ElectCheck c], [], [])
      | (rf1, ElectionOver sp) \<Rightarrow> Some (rf1, CandCheck # map spawned sp, [], []))"
| "startElection_select rf c _ = None"

text \<open>\<^verbatim>\<open>toLeader\<close> and its loop, and the goroutines that \<^verbatim>\<open>replicate\<close> starts.\<close>

definition toLeader_start :: "'c Raft \<Rightarrow> nat \<Rightarrow> 'c effect" where
  "toLeader_start rf ch = (toLeader_enter rf, [LeadCheck ch, HandleCheck ch], [], [])"

definition toLeader_loop :: "'c Raft \<Rightarrow> nat \<Rightarrow> 'c routine list" where
  "toLeader_loop rf c = (if \<not> killed rf \<and> isState rf LEADER then [LeadSelect c] else [])"

definition replicate_send :: "'c Raft \<Rightarrow> nat \<Rightarrow> 'c effect result" where
  "replicate_send rf c =
     bind_result (raft_replicate rf) (\<lambda>ms. Inr (rf, [], map (\<lambda>(si, args). AECall (me rf) si c args) ms, []))"

text \<open>The loop of \<^verbatim>\<open>handleReply\<close>: it takes a reply, looks at its term, and then uses it.\<close>

definition handleReply_loop :: "'c Raft \<Rightarrow> nat \<Rightarrow> 'c routine list" where
  "handleReply_loop rf c = (if killed rf then [] else [HandleRecv c])"

definition handleReply_receive :: "'c Raft \<Rightarrow> nat \<Rightarrow> AppendEntriesReply \<Rightarrow> 'c effect" where
  "handleReply_receive rf c reply =
     (case handleReply_term rf reply of
        (rf1, goes_on) \<Rightarrow> (rf1, if goes_on then [HandleUpd c reply] else [FolEnter], [], []))"

definition handleReply_use :: "'c Raft \<Rightarrow> nat \<Rightarrow> AppendEntriesReply \<Rightarrow> 'c effect result" where
  "handleReply_use rf c reply =
     bind_result (handleReply_update rf reply) (\<lambda>(rf1, commit).
       Inr (rf1, HandleCheck c # (case commit of None \<Rightarrow> [] | Some i \<Rightarrow> [CommitAt i]), [], []))"

text \<open>The check of \<^verbatim>\<open>Start\<close>; the append is a later step.\<close>

definition raft_Start_check :: "'c Raft \<Rightarrow> 'c \<Rightarrow> 'c routine list" where
  "raft_Start_check rf command = (if isState rf LEADER then [StartAppend command] else [])"

lemmas [raft_defs] = toFollower_loop_def toCandidate_loop_def startElection_start_def toLeader_start_def toLeader_loop_def
  replicate_send_def handleReply_loop_def handleReply_receive_def handleReply_use_def raft_Start_check_def

text \<open>A step that needs nothing from outside; \<open>ch\<close> is a fresh reply channel.\<close>

fun run_tick :: "'c Raft \<Rightarrow> nat \<Rightarrow> 'c routine \<Rightarrow> 'c effect result option" where
  "run_tick rf ch FolEnter = Some (Inr (toFollower_enter rf, [FolCheck], [], []))"
| "run_tick rf ch FolCheck = Some (Inr (rf, toFollower_loop rf, [], []))"
| "run_tick rf ch CandCheck = Some (Inr (rf, toCandidate_loop rf, [], []))"
| "run_tick rf ch CandRound = Some (Inr (toCandidate_round rf, [ElectStart], [], []))"
| "run_tick rf ch ElectStart = Some (startElection_start rf ch)"
| "run_tick rf ch (ElectCheck c) = Some (Inr (rf, if killed rf then [] else [ElectSelect c], [], []))"
| "run_tick rf ch LeadEnter = Some (Inr (toLeader_start rf ch))"
| "run_tick rf ch (LeadCheck c) = Some (Inr (rf, toLeader_loop rf c, [], []))"
| "run_tick rf ch (LeadSelect c) = Some (Inr (rf, [LeadCheck c, Repl c], [], []))"
| "run_tick rf ch (Repl c) = Some (replicate_send rf c)"
| "run_tick rf ch (HandleCheck c) = Some (Inr (rf, handleReply_loop rf c, [], []))"
| "run_tick rf ch (HandleUpd c reply) = Some (handleReply_use rf c reply)"
| "run_tick rf ch (CommitAt i) = Some (bind_result (commitAt rf i) (\<lambda>(rf1, ms). Inr (rf1, [], [], ms)))"
| "run_tick rf ch (StartAppend command) = Some (Inr (fst (raft_Start rf command), [], [], []))"
| "run_tick rf ch _ = None"

text \<open>A step of a goroutine that waits in a \<^verbatim>\<open>select\<close> or for a reply.\<close>

fun run_input :: "'c Raft \<Rightarrow> 'c routine \<Rightarrow> input \<Rightarrow> 'c effect option" where
  "run_input rf FolSelect inp = toFollower_select rf inp"
| "run_input rf (ElectSelect c) inp = startElection_select rf c inp"
| "run_input rf (HandleRecv c) (AppendIn reply) = Some (handleReply_receive rf c reply)"
| "run_input rf _ _ = None"

text \<open>The reply an input takes from the network.\<close>

fun taken_packet :: "nat \<Rightarrow> 'c routine \<Rightarrow> input \<Rightarrow> 'c packet option" where
  "taken_packet i (ElectSelect c) (VoteIn reply) = Some (RVReply i c reply)"
| "taken_packet i (HandleRecv c) (AppendIn reply) = Some (AEReply i c reply)"
| "taken_packet i _ _ = None"

subsection \<open>The group\<close>

record 'c cluster =
  cpeers :: "'c Raft list"
  croutines :: "(nat \<times> 'c routine) list"
  cnet :: "'c packet list"
  capplied :: "(nat \<times> 'c ApplyMsg) list"
  cfresh :: nat
  cpanic :: bool

definition cluster_init :: "nat \<Rightarrow> 'c \<Rightarrow> 'c cluster" where
  "cluster_init n zero =
     \<lparr>cpeers = map (\<lambda>i. raft_Make n i zero) [0..<n], croutines = map (\<lambda>i. (i, FolEnter)) [0..<n], cnet = [],
      capplied = [], cfresh = 0, cpanic = False\<rparr>"

datatype 'c act =
    Tick nat "'c routine"
  | Input nat "'c routine" input
  | DeliverCall "'c packet"
  | Lose "'c packet"
  | ClientStart nat 'c
  | KillPeer nat

definition put_effect :: "'c cluster \<Rightarrow> nat \<Rightarrow> 'c effect \<Rightarrow> 'c cluster" where
  "put_effect s i eff =
     (case eff of (rf, rts, pkts, ms) \<Rightarrow>
        s\<lparr>cpeers := (cpeers s)[i := rf], croutines := croutines s @ map (Pair i) rts, cnet := cnet s @ pkts,
          capplied := capplied s @ map (Pair i) ms, cfresh := Suc (cfresh s)\<rparr>)"

definition put_result :: "'c cluster \<Rightarrow> nat \<Rightarrow> 'c effect result \<Rightarrow> 'c cluster" where
  "put_result s i r = (case r of Inl _ \<Rightarrow> s\<lparr>cpanic := True\<rparr> | Inr eff \<Rightarrow> put_effect s i eff)"

fun deliver_call :: "'c Raft \<Rightarrow> 'c packet \<Rightarrow> 'c effect result option" where
  "deliver_call rf (RVCall from to ch args) =
     (if rpc_ready rf then
        case RequestVote rf args of (rf1, reply, sp) \<Rightarrow> Some (Inr (rf1, map spawned sp, [RVReply from ch reply], []))
      else None)"
| "deliver_call rf (AECall from to ch args) =
     (if rpc_ready rf then
        Some (bind_result (AppendEntries rf args) (\<lambda>(rf1, reply, sp, ms).
          Inr (rf1, map spawned sp, [AEReply from ch reply], ms)))
      else None)"
| "deliver_call rf _ = None"

fun packet_to :: "'c packet \<Rightarrow> nat" where
  "packet_to (RVCall _ to _ _) = to"
| "packet_to (RVReply to _ _) = to"
| "packet_to (AECall _ to _ _) = to"
| "packet_to (AEReply to _ _) = to"

fun cstep :: "'c cluster \<Rightarrow> 'c act \<Rightarrow> 'c cluster option" where
  "cstep s (Tick i rt) =
     (if \<not> cpanic s \<and> i < length (cpeers s) \<and> (i, rt) \<in> set (croutines s) then
        map_option (put_result (s\<lparr>croutines := remove1 (i, rt) (croutines s)\<rparr>) i) (run_tick (cpeers s ! i) (cfresh s) rt)
      else None)"
| "cstep s (Input i rt inp) =
     (if \<not> cpanic s \<and> i < length (cpeers s) \<and> (i, rt) \<in> set (croutines s) \<and>
         (case taken_packet i rt inp of None \<Rightarrow> True | Some p \<Rightarrow> p \<in> set (cnet s)) then
        map_option (put_effect (s\<lparr>croutines := remove1 (i, rt) (croutines s),
            cnet := (case taken_packet i rt inp of None \<Rightarrow> cnet s | Some p \<Rightarrow> remove1 p (cnet s))\<rparr>) i)
          (run_input (cpeers s ! i) rt inp)
      else None)"
| "cstep s (DeliverCall p) =
     (if \<not> cpanic s \<and> p \<in> set (cnet s) \<and> packet_to p < length (cpeers s) then
        map_option (put_result (s\<lparr>cnet := remove1 p (cnet s)\<rparr>) (packet_to p)) (deliver_call (cpeers s ! packet_to p) p)
      else None)"
| "cstep s (Lose p) =
     (if \<not> cpanic s \<and> p \<in> set (cnet s) then Some (s\<lparr>cnet := remove1 p (cnet s)\<rparr>) else None)"
| "cstep s (ClientStart i command) =
     (if \<not> cpanic s \<and> i < length (cpeers s) then
        Some (s\<lparr>croutines := croutines s @ map (Pair i) (raft_Start_check (cpeers s ! i) command)\<rparr>)
      else None)"
| "cstep s (KillPeer i) =
     (if \<not> cpanic s \<and> i < length (cpeers s) then Some (s\<lparr>cpeers := (cpeers s)[i := raft_Kill (cpeers s ! i)]\<rparr>) else None)"

text \<open>
  Who writes in which term: the peer that appends a command, or sends entries, in its current
  term. \<open>creach n zero s W\<close> says that a group of \<open>n\<close> peers can get to \<open>s\<close>, and that the writers on the way
  were those of \<open>W\<close>.
\<close>

fun writers :: "'c cluster \<Rightarrow> 'c act \<Rightarrow> (int \<times> nat) set" where
  "writers s (Tick i (StartAppend _)) = {(currentTerm (cpeers s ! i), i)}"
| "writers s (Tick i (Repl _)) = (if rstate (cpeers s ! i) = LEADER then {(currentTerm (cpeers s ! i), i)} else {})"
| "writers s _ = {}"

inductive creach :: "nat \<Rightarrow> 'c \<Rightarrow> 'c cluster \<Rightarrow> (int \<times> nat) set \<Rightarrow> bool" for n zero where
  start: "creach n zero (cluster_init n zero) {}"
| step: "creach n zero s W \<Longrightarrow> cstep s a = Some t \<Longrightarrow> creach n zero t (W \<union> writers s a)"

fun csteps :: "'c cluster \<Rightarrow> 'c act list \<Rightarrow> 'c cluster option" where
  "csteps s [] = Some s"
| "csteps s (a # as) = (case cstep s a of None \<Rightarrow> None | Some t \<Rightarrow> csteps t as)"

fun all_writers :: "'c cluster \<Rightarrow> 'c act list \<Rightarrow> (int \<times> nat) set" where
  "all_writers s [] = {}"
| "all_writers s (a # as) = writers s a \<union> (case cstep s a of None \<Rightarrow> {} | Some t \<Rightarrow> all_writers t as)"

lemma csteps_reach:
  "csteps s as = Some t \<Longrightarrow> creach n zero s W \<Longrightarrow> creach n zero t (W \<union> all_writers s as)"
proof (induction as arbitrary: s W)
  case (Cons a as)
  then obtain u where u: "cstep s a = Some u" "csteps u as = Some t" by (auto split: option.splits)
  show ?case using Cons.IH [OF u(2) creach.step [OF Cons.prems(2) u(1)]] u(1) by (simp add: Un_assoc)
qed simp

end
