(* ===== verification/Raft_Safety.thy ===== *)
theory Raft_Safety
  imports Raft_Cluster
begin

section \<open>Raft: invariants of the group\<close>

text \<open>
  \<open>cstep_kinds\<close> sorts the steps of a group into those that leave logs and calls with entries alone,
  the command of a client, the calls of a leader and the handling of such a call; the
  invariants are proved over these few kinds. The shape of the logs holds in every run. Log matching,
  the central invariant of Raft, holds in every run in which no two peers write in the same
  term; the code does not guarantee this (\<open>Raft_Runs\<close>), so it is a hypothesis.
\<close>

subsection \<open>The kinds of steps\<close>

definition aes :: "'c packet list \<Rightarrow> (nat \<times> nat \<times> nat \<times> 'c AppendEntriesArgs) set" where
  "aes ps = {(from, to, ch, args). AECall from to ch args \<in> set ps}"

definition quiet :: "'c Raft \<Rightarrow> 'c Raft \<Rightarrow> bool" where
  "quiet rf rf' \<longleftrightarrow> rlog rf' = rlog rf \<and> me rf' = me rf \<and> numPeers rf' = numPeers rf \<and> currentTerm rf \<le> currentTerm rf'"

lemma aes_simps [simp]: "aes (ps @ qs) = aes ps \<union> aes qs" "aes [] = {}"
  by (auto simp: aes_def)

lemma aes_remove1: "aes (remove1 p ps) \<subseteq> aes ps"
  using set_remove1_subset [of p ps] by (auto simp: aes_def)

lemma quiet_refl [simp]: "quiet rf rf"
  by (simp add: quiet_def)

lemma startElection_begin_quiet: "startElection_begin rf = Inr (rf', args) \<Longrightarrow> quiet rf rf'"
  by (auto simp: startElection_begin_def quiet_def bind_result_Inr_iff Let_def)

lemma startElection_reply_quiet: "startElection_reply rf reply = (rf', out) \<Longrightarrow> quiet rf rf'"
  by (auto simp: startElection_reply_def quiet_def Let_def split: if_splits)

lemma handleReply_update_quiet: "handleReply_update rf reply = Inr (rf', out) \<Longrightarrow> quiet rf rf'"
  unfolding handleReply_update_def quiet_def bind_result_Inr_iff slice_get_Inr_iff Let_def
  by (cases "Success reply"; cases "IsHeartbeat reply") (clarsimp simp: bind_result_Inr_iff slice_get_Inr_iff)+

lemma commitAt_quiet: "commitAt rf i = Inr (rf', ms) \<Longrightarrow> quiet rf rf'"
  by (auto simp: quiet_def dest!: commitAt_frame)

lemma RequestVote_quiet: "RequestVote rf args = (rf', reply, sp) \<Longrightarrow> quiet rf rf'"
  using RequestVote_returns [of rf args rf' reply sp] by (simp add: quiet_def)

lemma run_tick_quiet:
  assumes "run_tick rf ch rt = Some (Inr (rf', rts, pkts, ms))" "\<And>c. rt \<noteq> Repl c" "\<And>c. rt \<noteq> StartAppend c"
  shows "quiet rf rf'" "aes pkts = {}"
proof -
  have "quiet rf rf' \<and> aes pkts = {}"
  proof (cases rt)
    case ElectStart
    then show ?thesis
      using assms(1) by (auto simp: raft_defs bind_result_Inr_iff aes_def split: if_splits intro: startElection_begin_quiet)
  next
    case (HandleUpd c reply)
    then show ?thesis using assms(1) by (auto simp: raft_defs bind_result_Inr_iff intro: handleReply_update_quiet)
  next
    case (CommitAt i)
    then show ?thesis using assms(1) by (auto simp: bind_result_Inr_iff intro: commitAt_quiet)
  qed (use assms in \<open>auto simp: raft_defs quiet_def toFollower_enter_def toCandidate_round_def toLeader_enter_def\<close>)
  then show "quiet rf rf'" "aes pkts = {}" by auto
qed

lemma run_input_quiet:
  assumes "run_input rf rt inp = Some (rf', rts, pkts, ms)"
  shows "quiet rf rf'" "pkts = []"
proof -
  have "quiet rf rf' \<and> pkts = []"
  proof (cases "(rf, rt, inp)" rule: run_input.cases)
    case (1 rf0 i)
    then show ?thesis
      using assms by (cases inp) (auto simp: quiet_def toFollower_rpc_def toFollower_timeout_def split: if_splits)
  next
    case (2 rf0 c i)
    then show ?thesis
      using assms by (cases inp) (auto split: prod.splits election_outcome.splits intro: startElection_reply_quiet)
  qed (use assms in \<open>auto simp: raft_defs quiet_def handleReply_term_def split: if_splits\<close>)
  then show "quiet rf rf'" "pkts = []" by auto
qed

lemma cstep_kinds:
  assumes "cstep s a = Some t"
  obtains
    (same) "cpeers t = cpeers s" "aes (cnet t) \<subseteq> aes (cnet s)" "writers s a = {}"
  | (calm) i rf' where "i < length (cpeers s)" "cpeers t = (cpeers s)[i := rf']" "quiet (cpeers s ! i) rf'"
      "aes (cnet t) \<subseteq> aes (cnet s)" "writers s a = {}"
  | (append) i command where "i < length (cpeers s)" "cpeers t = (cpeers s)[i := fst (raft_Start (cpeers s ! i) command)]"
      "aes (cnet t) \<subseteq> aes (cnet s)" "writers s a = {(currentTerm (cpeers s ! i), i)}"
  | (send) i ch where "i < length (cpeers s)" "cpeers t = cpeers s" "rstate (cpeers s ! i) = LEADER"
      "aes (cnet t) \<subseteq> aes (cnet s) \<union>
         {(me (cpeers s ! i), si, ch, args) | si args ms. raft_replicate (cpeers s ! i) = Inr ms \<and> (si, args) \<in> set ms}"
      "writers s a = {(currentTerm (cpeers s ! i), i)}"
  | (handle) src to ch args rf' reply sp ms where "to < length (cpeers s)" "(src, to, ch, args) \<in> aes (cnet s)"
      "AppendEntries (cpeers s ! to) args = Inr (rf', reply, sp, ms)" "cpeers t = (cpeers s)[to := rf']"
      "aes (cnet t) \<subseteq> aes (cnet s)" "writers s a = {}"
proof (cases a)
  case (Tick i rt)
  let ?u = "s\<lparr>croutines := remove1 (i, rt) (croutines s)\<rparr>"
  obtain r where r: "i < length (cpeers s)" "run_tick (cpeers s ! i) (cfresh s) rt = Some r" "t = put_result ?u i r"
    using assms Tick by (auto split: if_splits)
  consider (repl) c where "rt = Repl c" | (start) c where "rt = StartAppend c"
    | (other) "\<And>c. rt \<noteq> Repl c" "\<And>c. rt \<noteq> StartAppend c" by metis
  then show thesis
  proof cases
    case repl
    show thesis
    proof (cases "rstate (cpeers s ! i) = LEADER")
      case True
      have "cpeers t = cpeers s" "aes (cnet t) \<subseteq> aes (cnet s) \<union>
         {(me (cpeers s ! i), si, c, args) | si args ms. raft_replicate (cpeers s ! i) = Inr ms \<and> (si, args) \<in> set ms}"
        using r repl by (auto simp: raft_defs put_result_def put_effect_def aes_def bind_result_def split: sum.splits)
      then show thesis using send [OF r(1) _ True, of c] Tick repl True by simp
    next
      case False
      then have "cpeers t = cpeers s" "aes (cnet t) \<subseteq> aes (cnet s)"
        using r repl by (auto simp: raft_defs put_result_def put_effect_def raft_replicate_def)
      then show thesis using same Tick repl False by simp
    qed
  next
    case start
    then show thesis using append [OF r(1), of c] r Tick by (auto simp: put_result_def put_effect_def)
  next
    case other
    have w: "writers s a = {}" using Tick other by (cases rt) auto
    show thesis
    proof (cases r)
      case (Inl e)
      then show thesis using same r(3) w by (simp add: put_result_def)
    next
      case (Inr eff)
      obtain rf' rts pkts ms where eff: "eff = (rf', rts, pkts, ms)" using prod_cases4 by blast
      show thesis
        using calm [OF r(1), of rf'] run_tick_quiet [OF r(2) [unfolded Inr eff] other] r(3) w
        by (auto simp: put_result_def put_effect_def Inr eff)
    qed
  qed
next
  case (Input i rt inp)
  let ?u = "s\<lparr>croutines := remove1 (i, rt) (croutines s),
            cnet := (case taken_packet i rt inp of None \<Rightarrow> cnet s | Some p \<Rightarrow> remove1 p (cnet s))\<rparr>"
  obtain rf' rts pkts ms where r: "i < length (cpeers s)" "run_input (cpeers s ! i) rt inp = Some (rf', rts, pkts, ms)"
    "t = put_effect ?u i (rf', rts, pkts, ms)"
    using assms Input by (auto split: if_splits)
  have "aes (cnet ?u) \<subseteq> aes (cnet s)" by (auto split: option.splits dest: subsetD [OF aes_remove1])
  then show thesis
    using calm [OF r(1), of rf'] run_input_quiet [OF r(2)] r(3) Input by (simp add: put_effect_def)
next
  case (DeliverCall p)
  let ?i = "packet_to p"
  obtain r where r: "p \<in> set (cnet s)" "?i < length (cpeers s)" "deliver_call (cpeers s ! ?i) p = Some r"
    "t = put_result (s\<lparr>cnet := remove1 p (cnet s)\<rparr>) ?i r"
    using assms DeliverCall by (auto split: if_splits)
  have w: "writers s a = {}" using DeliverCall by simp
  show thesis
  proof (cases r)
    case (Inl e)
    then show thesis using same r(4) w aes_remove1 [of p "cnet s"] by (simp add: put_result_def)
  next
    case (Inr eff)
    obtain rf' rts pkts ms where eff: "eff = (rf', rts, pkts, ms)" using prod_cases4 by blast
    have t: "cpeers t = (cpeers s)[?i := rf']" "cnet t = remove1 p (cnet s) @ pkts"
      using r(4) by (simp_all add: Inr eff put_result_def put_effect_def)
    show thesis
    proof (cases p)
      case (RVCall src to ch args)
      then have "quiet (cpeers s ! ?i) rf'" "aes pkts = {}"
        using r(3) by (auto simp: Inr eff aes_def split: if_splits prod.splits intro: RequestVote_quiet)
      then show thesis using calm [OF r(2) t(1)] t(2) w aes_remove1 [of p "cnet s"] by simp
    next
      case (AECall src to ch args)
      obtain reply sp where "AppendEntries (cpeers s ! to) args = Inr (rf', reply, sp, ms)" "aes pkts = {}"
        using r(3) AECall by (auto simp: Inr eff aes_def bind_result_Inr_iff split: if_splits)
      then show thesis
        using handle [of to src ch args rf' reply sp ms] r(1,2) t w AECall aes_remove1 [of p "cnet s"] by (auto simp: aes_def)
    qed (use r(3) in auto)
  qed
next
  case (Lose p)
  then show thesis using assms same aes_remove1 [of p "cnet s"] by (auto split: if_splits)
next
  case (ClientStart i command)
  then show thesis using assms same by (auto split: if_splits)
next
  case (KillPeer i)
  then show thesis
    using assms calm [of i "raft_Kill (cpeers s ! i)"] by (auto simp: raft_Kill_def quiet_def split: if_splits)
qed

subsection \<open>The shape of logs and calls\<close>

definition log_shape :: "'c \<Rightarrow> 'c LogEntry list \<Rightarrow> int \<Rightarrow> bool" where
  "log_shape zero lg t \<longleftrightarrow> log_ok lg \<and> hd lg = \<lparr>Command = zero, eTerm = 0, eIndex = 0\<rparr> \<and> sorted (map eTerm lg) \<and>
     (\<forall>e \<in> set lg. eTerm e \<le> t)"

definition call_shape :: "'c AppendEntriesArgs \<Rightarrow> bool" where
  "call_shape args \<longleftrightarrow> ae_args_ok args \<and> 0 \<le> PrevLogTerm args \<and> sorted (PrevLogTerm args # map eTerm (Entries args)) \<and>
     (\<forall>e \<in> set (Entries args). eTerm e \<le> aeTerm args)"

definition peer_shape :: "nat \<Rightarrow> 'c \<Rightarrow> nat \<Rightarrow> 'c Raft \<Rightarrow> bool" where
  "peer_shape n zero i rf \<longleftrightarrow> me rf = i \<and> numPeers rf = n \<and> log_shape zero (rlog rf) (currentTerm rf)"

definition shape :: "nat \<Rightarrow> 'c \<Rightarrow> 'c cluster \<Rightarrow> bool" where
  "shape n zero s \<longleftrightarrow> length (cpeers s) = n \<and> (\<forall>i < n. peer_shape n zero i (cpeers s ! i)) \<and>
     (\<forall>(src, to, ch, args) \<in> aes (cnet s). call_shape args)"

lemma log_shape_ok: "log_shape zero lg t \<Longrightarrow> log_ok lg"
  by (simp add: log_shape_def)

lemma log_shape_term: "log_shape zero lg t \<Longrightarrow> t \<le> t' \<Longrightarrow> log_shape zero lg t'"
  by (auto simp: log_shape_def)

lemma log_shape_terms_ok: "log_shape zero lg t \<Longrightarrow> terms_ok lg"
  by (cases lg) (auto simp: log_shape_def log_ok_def terms_ok_def)

lemma shape_init: "shape n zero (cluster_init n zero)"
  by (auto simp: shape_def cluster_init_def peer_shape_def raft_Make_def log_shape_def log_ok_def)

lemma quiet_shape: "peer_shape n zero i rf \<Longrightarrow> quiet rf rf' \<Longrightarrow> peer_shape n zero i rf'"
  by (auto simp: peer_shape_def quiet_def intro: log_shape_term)

lemma raft_Start_shape: "peer_shape n zero i rf \<Longrightarrow> peer_shape n zero i (fst (raft_Start rf command))"
  by (auto simp: peer_shape_def raft_Start_def log_shape_def log_ok_def sorted_append)

lemma raft_replicate_shape:
  assumes "peer_shape n zero i rf" "raft_replicate rf = Inr ms" "(si, args) \<in> set ms"
  shows "call_shape args"
proof -
  have lg: "log_shape zero (rlog rf) (currentTerm rf)" using assms(1) by (simp add: peer_shape_def)
  have "replicate_one rf si = Inr args" using raft_replicate_mem [OF assms(2,3)] by simp
  note a = replicate_one_args [OF this]
  let ?p = "nat (PrevLogIndex args)"
  have p: "?p < length (rlog rf)" using a(1,2) by simp
  have d: "PrevLogTerm args # map eTerm (Entries args) = map eTerm (drop ?p (rlog rf))"
    using a(3,4) p by (simp add: Cons_nth_drop_Suc [symmetric])
  have "sorted (map eTerm (drop ?p (rlog rf)))" using lg by (simp add: log_shape_def drop_map [symmetric])
  then have "sorted (PrevLogTerm args # map eTerm (Entries args))" unfolding d .
  moreover have "0 \<le> PrevLogTerm args" using a(3) p log_shape_terms_ok [OF lg] by (simp add: terms_ok_def)
  moreover have "\<forall>e \<in> set (Entries args). eTerm e \<le> aeTerm args" using lg a(4,5) by (auto simp: log_shape_def dest: in_set_dropD)
  ultimately show ?thesis
    using raft_replicate_args_ok [OF assms(2,3) log_shape_ok [OF lg] log_shape_terms_ok [OF lg]] unfolding call_shape_def by blast
qed

lemma merge_sorted:
  assumes "sorted (map eTerm lg)" "sorted (t # map eTerm es)" "0 < start" "start \<le> length lg" "eTerm (lg ! (start - 1)) = t"
  shows "sorted (map eTerm (merge_log lg start es))"
proof -
  let ?k = "agree_len (drop start lg) es"
  have k: "?k \<le> length es" "start + ?k \<le> length lg" using agree_len_le [of "drop start lg" es] assms(4) by simp_all
  have last: "eTerm (lg ! (start + ?k - 1)) \<le> eTerm y" if y: "y \<in> set (drop ?k es)" for y
  proof (cases "?k = 0")
    case True
    then show ?thesis using y assms(2,5) by simp
  next
    case False
    then have e: "eTerm (lg ! (start + ?k - 1)) = eTerm (es ! (?k - 1))"
      using agree_len_nth [of "?k - 1" "drop start lg" es] k by (simp add: nth_drop)
    obtain i where i: "y = drop ?k es ! i" "i < length es - ?k" using y by (auto simp: in_set_conv_nth)
    define j where "j = ?k + i"
    have j: "y = es ! j" "?k \<le> j" "j < length es" using i k(1) by (auto simp: j_def)
    show ?thesis using sorted_nth_mono [of "map eTerm es" "?k - 1" j] assms(2) k False e j by simp
  qed
  have before: "eTerm x \<le> eTerm (lg ! (start + ?k - 1))" if x: "x \<in> set (take (start + ?k) lg)" for x
  proof -
    obtain i where "x = lg ! i" "i < start + ?k" using x k by (auto simp: in_set_conv_nth)
    then show ?thesis using sorted_nth_mono [OF assms(1), of i "start + ?k - 1"] k assms(3) by simp
  qed
  have "sorted (map eTerm (take (start + ?k) lg))" "sorted (map eTerm (drop ?k es))"
    using assms(1,2) by (simp_all add: take_map [symmetric] drop_map [symmetric])
  then show ?thesis
    using assms(1) last before by (auto simp: merge_log_def Let_def sorted_append) (meson order_trans)
qed

lemma AppendEntries_shape:
  assumes "peer_shape n zero i rf" "call_shape args" "AppendEntries rf args = Inr (rf', reply, sp, ms)"
  shows "peer_shape n zero i rf'"
proof -
  have lg: "log_shape zero (rlog rf) (currentTerm rf)" and ok: "ae_args_ok args"
    using assms(1,2) by (simp_all add: peer_shape_def call_shape_def)
  note r = AppendEntries_returns [OF log_shape_ok [OF lg] ok assms(3)]
  let ?p = "Suc (nat (PrevLogIndex args))" and ?m = "merge_log (rlog rf) (Suc (nat (PrevLogIndex args))) (Entries args)"
  have "log_shape zero (rlog rf') (currentTerm rf')"
  proof (cases "ae_accepts rf args")
    case True
    have p: "?p \<le> length (rlog rf)" "eTerm (rlog rf ! (?p - 1)) = PrevLogTerm args"
      using True ok by (auto simp: ae_accepts_def ae_args_ok_def)
    have "take ?p ?m = take ?p (rlog rf)" by (rule merge_log_take [OF p(1)])
    then have hd: "hd ?m = hd (rlog rf)" using log_shape_ok [OF lg] p(1) by (metis hd_take zero_less_Suc)
    have "set ?m \<subseteq> set (rlog rf) \<union> set (Entries args)"
      by (auto simp: merge_log_def Let_def dest: in_set_takeD in_set_dropD split: if_splits)
    moreover have "sorted (map eTerm ?m)"
      by (rule merge_sorted [OF _ _ _ p]) (use lg assms(2) in \<open>auto simp: log_shape_def call_shape_def\<close>)
    ultimately show ?thesis
      using True lg merge_log_ok [OF log_shape_ok [OF lg] _ _ p(1), of "Entries args"] ok assms(2) r(1,2) hd
      by (force simp: log_shape_def call_shape_def ae_args_ok_def)
  next
    case False
    then show ?thesis using r(1,2) lg by (simp add: log_shape_term)
  qed
  then show ?thesis using r(4,5) assms(1) by (simp add: peer_shape_def)
qed

lemma shape_step:
  assumes "shape n zero s" "cstep s a = Some t"
  shows "shape n zero t"
proof -
  have peers: "peer_shape n zero i (cpeers s ! i)" if "i < length (cpeers s)" for i using assms(1) that by (simp add: shape_def)
  have upd: "shape n zero t" if "cpeers t = (cpeers s)[i := rf']" "i < length (cpeers s)" "peer_shape n zero i rf'"
    "aes (cnet t) \<subseteq> aes (cnet s)" for i rf'
    using that assms(1) by (auto simp: shape_def nth_list_update)
  show ?thesis
    using assms(2)
  proof (cases rule: cstep_kinds)
    case same
    then show ?thesis using assms(1) by (auto simp: shape_def)
  next
    case (calm i rf')
    then show ?thesis by (intro upd [OF calm(2,1) _ calm(4)] quiet_shape [OF peers])
  next
    case (append i command)
    then show ?thesis by (intro upd [OF append(2,1) _ append(3)] raft_Start_shape peers)
  next
    case (send i ch)
    have "call_shape args" if c: "(src, to, c, args) \<in> aes (cnet t)" for src to c args
    proof (cases "(src, to, c, args) \<in> aes (cnet s)")
      case True
      then show ?thesis using assms(1) by (auto simp: shape_def)
    next
      case False
      then obtain ms where "raft_replicate (cpeers s ! i) = Inr ms" "(to, args) \<in> set ms" using send(4) c by auto
      then show ?thesis by (rule raft_replicate_shape [OF peers [OF send(1)]])
    qed
    then show ?thesis using assms(1) send(2) by (auto simp: shape_def)
  next
    case (handle src to ch args rf' reply sp ms)
    have "call_shape args" using assms(1) handle(2) by (auto simp: shape_def)
    then show ?thesis by (intro upd [OF handle(4,1) _ handle(5)] AppendEntries_shape [OF peers [OF handle(1)] _ handle(3)])
  qed
qed

lemma creach_shape: "creach n zero s W \<Longrightarrow> shape n zero s"
  by (induction rule: creach.induct) (auto intro: shape_init shape_step)

text \<open>
  C14: In every run and at every moment, the log of every peer starts with the entry of
  \<^verbatim>\<open>Make\<close>, the \<^verbatim>\<open>Index\<close> of an entry is its position, and the terms of the entries do not decrease
  along the log and are between 0 and the current term.
\<close>

theorem raft_log_shape:
  assumes "creach n zero s W" "i < n" "lg = rlog (cpeers s ! i)"
  shows "lg \<noteq> [] \<and> hd lg = \<lparr>Command = zero, eTerm = 0, eIndex = 0\<rparr> \<and> sorted (map eTerm lg) \<and>
    (\<forall>k < length lg. eIndex (lg ! k) = int k \<and> 0 \<le> eTerm (lg ! k) \<and> eTerm (lg ! k) \<le> currentTerm (cpeers s ! i))"
proof -
  have lg: "log_shape zero lg (currentTerm (cpeers s ! i))"
    using creach_shape [OF assms(1)] assms(2,3) by (simp add: shape_def peer_shape_def)
  show ?thesis
    using lg log_ok_nth [OF log_shape_ok [OF lg]] log_shape_terms_ok [OF lg]
    by (auto simp: log_shape_def log_ok_def terms_ok_def)
qed

text \<open>The current term of a peer never decreases, whatever step the group takes.\<close>

lemma raft_terms_never_decrease:
  assumes "creach n zero s W" "cstep s a = Some t" "i < n"
  shows "currentTerm (cpeers s ! i) \<le> currentTerm (cpeers t ! i)"
proof -
  have sh: "shape n zero s" by (rule creach_shape [OF assms(1)])
  show ?thesis
    using assms(2)
  proof (cases rule: cstep_kinds)
    case (calm j rf')
    then show ?thesis by (cases "j = i") (auto simp: quiet_def)
  next
    case (append j command)
    then show ?thesis by (cases "j = i") (auto simp: raft_Start_def)
  next
    case (handle src to ch args rf' reply sp ms)
    have "log_ok (rlog (cpeers s ! to))" "ae_args_ok args"
      using sh handle(1,2) by (auto simp: shape_def peer_shape_def call_shape_def log_shape_def)
    from AppendEntries_returns(2) [OF this handle(3)] show ?thesis using handle(1,4) by (cases "to = i") auto
  qed auto
qed

subsection \<open>Log matching\<close>

definition one_writer :: "(int \<times> nat) set \<Rightarrow> bool" where
  "one_writer W \<longleftrightarrow> (\<forall>t p q. (t, p) \<in> W \<longrightarrow> (t, q) \<in> W \<longrightarrow> p = q)"

text \<open>
  The invariant behind log matching: \<open>hist t\<close> is the log of the peer that writes in term \<open>t\<close>, as it was when that
  peer left the term, or as it is now. Up to any of its entries, a log is the log of the
  writer of the entry's term.
\<close>

definition anchored :: "(int \<times> nat) set \<Rightarrow> (int \<Rightarrow> 'c LogEntry list) \<Rightarrow> 'c LogEntry list \<Rightarrow> bool" where
  "anchored W hist lg \<longleftrightarrow> (\<forall>k. 0 < k \<longrightarrow> k < length lg \<longrightarrow>
     eTerm (lg ! k) \<in> fst ` W \<and> take (Suc k) lg = take (Suc k) (hist (eTerm (lg ! k))))"

definition sent_from :: "'c AppendEntriesArgs \<Rightarrow> 'c LogEntry list \<Rightarrow> bool" where
  "sent_from args lg \<longleftrightarrow> 0 \<le> PrevLogIndex args \<and> nat (PrevLogIndex args) < length lg \<and>
     PrevLogTerm args = eTerm (lg ! nat (PrevLogIndex args)) \<and> Entries args = drop (Suc (nat (PrevLogIndex args))) lg"

definition call_anchored :: "'c \<Rightarrow> (int \<times> nat) set \<Rightarrow> (int \<Rightarrow> 'c LogEntry list) \<Rightarrow> nat \<Rightarrow> nat \<Rightarrow> 'c AppendEntriesArgs \<Rightarrow> bool" where
  "call_anchored zero W hist src to args \<longleftrightarrow> src \<noteq> to \<and> (aeTerm args, src) \<in> W \<and>
     (\<exists>lg. sent_from args lg \<and> anchored W hist lg \<and> hd lg = \<lparr>Command = zero, eTerm = 0, eIndex = 0\<rparr>)"

definition matching :: "'c \<Rightarrow> 'c cluster \<Rightarrow> (int \<times> nat) set \<Rightarrow> (int \<Rightarrow> 'c LogEntry list) \<Rightarrow> bool" where
  "matching zero s W hist \<longleftrightarrow>
     (\<forall>i < length (cpeers s). anchored W hist (rlog (cpeers s ! i))) \<and>
     (\<forall>(src, to, ch, args) \<in> aes (cnet s). call_anchored zero W hist src to args) \<and>
     (\<forall>(t, p) \<in> W. p < length (cpeers s) \<and> t \<le> currentTerm (cpeers s ! p) \<and>
        (currentTerm (cpeers s ! p) = t \<longrightarrow> rlog (cpeers s ! p) = hist t))"

lemma matchingI:
  assumes "\<And>i. i < length (cpeers s) \<Longrightarrow> anchored W hist (rlog (cpeers s ! i))"
    "\<And>src to ch args. (src, to, ch, args) \<in> aes (cnet s) \<Longrightarrow> call_anchored zero W hist src to args"
    "\<And>t p. (t, p) \<in> W \<Longrightarrow> p < length (cpeers s) \<and> t \<le> currentTerm (cpeers s ! p) \<and>
        (currentTerm (cpeers s ! p) = t \<longrightarrow> rlog (cpeers s ! p) = hist t)"
  shows "matching zero s W hist"
  unfolding matching_def using assms by blast

lemma matchingD:
  assumes "matching zero s W hist"
  shows "i < length (cpeers s) \<Longrightarrow> anchored W hist (rlog (cpeers s ! i))"
    "(src, to, ch, args) \<in> aes (cnet s) \<Longrightarrow> call_anchored zero W hist src to args"
    "(t, p) \<in> W \<Longrightarrow> p < length (cpeers s) \<and> t \<le> currentTerm (cpeers s ! p) \<and>
        (currentTerm (cpeers s ! p) = t \<longrightarrow> rlog (cpeers s ! p) = hist t)"
  using assms unfolding matching_def by blast+

lemma anchored_common:
  assumes "anchored W hist xs" "anchored W hist ys" "hd xs = hd ys" "k < length xs" "k < length ys"
    "eTerm (xs ! k) = eTerm (ys ! k)"
  shows "take (Suc k) xs = take (Suc k) ys"
proof (cases "k = 0")
  case True
  then show ?thesis using assms(3,4,5) by (cases xs; cases ys) auto
next
  case False
  then show ?thesis using assms(1,2,4,5,6) by (auto simp: anchored_def)
qed

text \<open>A follower that accepts a call ends with its own log or with the log the sender had.\<close>

lemma merge_anchored:
  assumes "anchored W hist xs" "anchored W hist ys" "hd xs = hd ys" "p < length xs" "p < length ys"
    "eTerm (xs ! p) = eTerm (ys ! p)"
  shows "merge_log xs (Suc p) (drop (Suc p) ys) \<in> {xs, ys}"
proof -
  let ?k = "agree_len (drop (Suc p) xs) (drop (Suc p) ys)"
  have k: "p + ?k < length xs" "p + ?k < length ys"
    using agree_len_le [of "drop (Suc p) xs" "drop (Suc p) ys"] assms(4,5) by simp_all
  have "eTerm (xs ! (p + ?k)) = eTerm (ys ! (p + ?k))"
  proof (cases "?k = 0")
    case False
    then show ?thesis
      using agree_len_nth [of "?k - 1" "drop (Suc p) xs" "drop (Suc p) ys"] k by (simp add: nth_drop)
  qed (simp add: assms(6))
  then have "take (Suc (p + ?k)) xs = take (Suc (p + ?k)) ys"
    by (rule anchored_common [OF assms(1,2,3) k])
  moreover have "drop ?k (drop (Suc p) ys) = drop (Suc (p + ?k)) ys" by (simp add: add.commute)
  ultimately show ?thesis by (simp add: merge_log_def Let_def)
qed

text \<open>The writer of a term extends its log, or is the first to write in the term.\<close>

lemma anchored_write:
  assumes "anchored W hist xs" "one_writer (insert (t, i) W)" "(t, i) \<in> W \<longrightarrow> hist t = lg" "lg' = lg @ es"
  shows "anchored (insert (t, i) W) (hist(t := lg')) xs"
  unfolding anchored_def
proof (intro allI impI conjI)
  fix k assume k: "0 < k" "k < length xs"
  let ?u = "eTerm (xs ! k)"
  have a: "?u \<in> fst ` W" "take (Suc k) xs = take (Suc k) (hist ?u)" using assms(1) k by (simp_all add: anchored_def)
  then show "?u \<in> fst ` insert (t, i) W" by simp
  show "take (Suc k) xs = take (Suc k) ((hist(t := lg')) ?u)"
  proof (cases "?u = t")
    case True
    obtain p where "(t, p) \<in> W" using a(1) True by auto
    then have "(t, i) \<in> W" using assms(2) unfolding one_writer_def by blast
    then have e: "take (Suc k) xs = take (Suc k) lg" using a(2) True assms(3) by simp
    have "k < length lg" using arg_cong [OF e, of length] k(2) by simp
    then show ?thesis using e True assms(4) by simp
  qed (use a in simp)
qed

lemma anchored_snoc:
  assumes "anchored W hist xs" "hist (eTerm e) = xs @ [e]" "eTerm e \<in> fst ` W"
  shows "anchored W hist (xs @ [e])"
  unfolding anchored_def
proof (intro allI impI)
  fix k assume k: "0 < k" "k < length (xs @ [e])"
  show "eTerm ((xs @ [e]) ! k) \<in> fst ` W \<and> take (Suc k) (xs @ [e]) = take (Suc k) (hist (eTerm ((xs @ [e]) ! k)))"
  proof (cases "k < length xs")
    case True
    then show ?thesis using assms(1) k(1) by (simp add: anchored_def nth_append)
  next
    case False
    then have "k = length xs" using k(2) by simp
    then show ?thesis using assms(2,3) by simp
  qed
qed

lemma call_anchored_write:
  assumes "call_anchored zero W hist src to args" "one_writer (insert (t, i) W)" "(t, i) \<in> W \<longrightarrow> hist t = lg" "lg' = lg @ es"
  shows "call_anchored zero (insert (t, i) W) (hist(t := lg')) src to args"
proof -
  obtain ys where "sent_from args ys" "anchored W hist ys" "hd ys = \<lparr>Command = zero, eTerm = 0, eIndex = 0\<rparr>"
    using assms(1) by (auto simp: call_anchored_def)
  then show ?thesis
    using assms(1) anchored_write [OF \<open>anchored W hist ys\<close> assms(2-4)] by (auto simp: call_anchored_def)
qed

lemma matching_write:
  assumes m: "matching zero s W hist" and one: "one_writer (insert (t, i) W)" and i: "i < length (cpeers s)" "t = currentTerm (cpeers s ! i)"
    and peers: "cpeers u = (cpeers s)[i := rf']" "currentTerm rf' = t" "rlog rf' = rlog (cpeers s ! i) @ es"
    and new: "anchored (insert (t, i) W) (hist(t := rlog rf')) (rlog rf')"
    and calls: "\<And>src to ch args. (src, to, ch, args) \<in> aes (cnet u) \<Longrightarrow>
        (src, to, ch, args) \<in> aes (cnet s) \<or> call_anchored zero (insert (t, i) W) (hist(t := rlog rf')) src to args"
  shows "matching zero u (insert (t, i) W) (hist(t := rlog rf'))"
proof -
  have h: "(t, i) \<in> W \<longrightarrow> hist t = rlog (cpeers s ! i)" using matchingD(3) [OF m, of t i] i(2) by simp
  show ?thesis
  proof (rule matchingI)
    fix j assume "j < length (cpeers u)"
    then show "anchored (insert (t, i) W) (hist(t := rlog rf')) (rlog (cpeers u ! j))"
      using new anchored_write [OF matchingD(1) [OF m, of j] one h peers(3)] i(1) peers(1) by (cases "j = i") auto
  next
    fix src to ch args assume "(src, to, ch, args) \<in> aes (cnet u)"
    then show "call_anchored zero (insert (t, i) W) (hist(t := rlog rf')) src to args"
      using calls [of src to ch args] call_anchored_write [OF matchingD(2) [OF m] one h peers(3)] by blast
  next
    fix v p assume v: "(v, p) \<in> insert (t, i) W"
    show "p < length (cpeers u) \<and> v \<le> currentTerm (cpeers u ! p) \<and>
      (currentTerm (cpeers u ! p) = v \<longrightarrow> rlog (cpeers u ! p) = (hist(t := rlog rf')) v)"
    proof (cases "p = i")
      case True
      have "v \<le> t" using v True matchingD(3) [OF m, of v i] i(2) by auto
      then show ?thesis using True i(1) peers by auto
    next
      case False
      then have "v \<noteq> t" "(v, p) \<in> W" using v one unfolding one_writer_def by blast+
      then show ?thesis using False matchingD(3) [OF m, of v p] peers(1) by auto
    qed
  qed
qed

lemma matching_calm:
  assumes "matching zero s W hist" "i < length (cpeers s)" "cpeers u = (cpeers s)[i := rf']" "aes (cnet u) \<subseteq> aes (cnet s)"
    "anchored W hist (rlog rf')" "currentTerm (cpeers s ! i) \<le> currentTerm rf'"
    "(currentTerm rf', i) \<in> W \<Longrightarrow> currentTerm (cpeers s ! i) = currentTerm rf' \<Longrightarrow> rlog rf' = rlog (cpeers s ! i)"
  shows "matching zero u W hist"
proof (rule matchingI)
  fix j assume "j < length (cpeers u)"
  then show "anchored W hist (rlog (cpeers u ! j))"
    using matchingD(1) [OF assms(1), of j] assms(2,3,5) by (cases "j = i") auto
next
  fix src to ch args assume "(src, to, ch, args) \<in> aes (cnet u)"
  then show "call_anchored zero W hist src to args" using assms(4) by (blast intro: matchingD(2) [OF assms(1)])
next
  fix v p assume v: "(v, p) \<in> W"
  show "p < length (cpeers u) \<and> v \<le> currentTerm (cpeers u ! p) \<and> (currentTerm (cpeers u ! p) = v \<longrightarrow> rlog (cpeers u ! p) = hist v)"
    using matchingD(3) [OF assms(1) v] assms(2,3,6,7) v by (cases "p = i") auto
qed

text \<open>The logs of the writers after a step.\<close>

definition histories :: "'c cluster \<Rightarrow> 'c act \<Rightarrow> 'c cluster \<Rightarrow> (int \<Rightarrow> 'c LogEntry list) \<Rightarrow> int \<Rightarrow> 'c LogEntry list" where
  "histories s a t hist = (\<lambda>u. if u \<in> fst ` writers s a then rlog (cpeers t ! the_elem (snd ` writers s a)) else hist u)"

lemma histories_simps [simp]:
  "writers s a = {} \<Longrightarrow> histories s a t hist = hist"
  "writers s a = {(u, i)} \<Longrightarrow> histories s a t hist = hist(u := rlog (cpeers t ! i))"
  by (auto simp: histories_def)

lemma matching_step:
  assumes m: "matching zero s W hist" and sh: "shape n zero s" and st: "cstep s a = Some t" and one: "one_writer (W \<union> writers s a)"
  shows "matching zero t (W \<union> writers s a) (histories s a t hist)"
  using st
proof (cases rule: cstep_kinds)
  case same
  have "matching zero t W hist"
    by (rule matchingI) (use same(1,2) matchingD [OF m] in \<open>auto simp del: split_paired_All\<close>)
  then show ?thesis using same(3) by simp
next
  case (calm i rf')
  have "matching zero t W hist"
    by (rule matching_calm [OF m calm(1,2,4)]) (use matchingD(1) [OF m calm(1)] calm(3) in \<open>simp_all add: quiet_def\<close>)
  then show ?thesis using calm(5) by simp
next
  case (append i command)
  let ?rf = "cpeers s ! i" let ?T = "currentTerm ?rf" let ?rf' = "fst (raft_Start ?rf command)"
  let ?W = "insert (?T, i) W" let ?h = "hist(?T := rlog ?rf')"
  define e where "e = \<lparr>Command = command, eTerm = ?T, eIndex = int (length (rlog ?rf))\<rparr>"
  have e: "rlog ?rf' = rlog ?rf @ [e]" "eTerm e = ?T" "currentTerm ?rf' = ?T" by (simp_all add: raft_Start_def e_def)
  have one': "one_writer ?W" using one append(4) by simp
  have "(?T, i) \<in> W \<longrightarrow> hist ?T = rlog ?rf" using matchingD(3) [OF m, of ?T i] by simp
  then have "anchored ?W ?h (rlog ?rf)" by (rule anchored_write [OF matchingD(1) [OF m append(1)] one' _ e(1)])
  then have "anchored ?W ?h (rlog ?rf')" unfolding e(1) by (rule anchored_snoc) (simp_all add: e(2))
  from matching_write [OF m one' append(1) refl append(2) e(3,1) this] append(3) have "matching zero t ?W ?h" by blast
  then show ?thesis using append(1,2,4) by simp
next
  case (send i ch)
  let ?rf = "cpeers s ! i" let ?T = "currentTerm ?rf"
  let ?W = "insert (?T, i) W" let ?h = "hist(?T := rlog ?rf)"
  have one': "one_writer ?W" using one send(5) by simp
  have p: "me ?rf = i" "log_shape zero (rlog ?rf) ?T" using sh send(1) by (simp_all add: shape_def peer_shape_def)
  have "(?T, i) \<in> W \<longrightarrow> hist ?T = rlog ?rf" using matchingD(3) [OF m, of ?T i] by simp
  then have lg: "anchored ?W ?h (rlog ?rf)" by (rule anchored_write [OF matchingD(1) [OF m send(1)] one', of _ _ "[]"]) simp
  have "call_anchored zero ?W ?h src to args" if c: "(src, to, ch', args) \<in> aes (cnet t)" "(src, to, ch', args) \<notin> aes (cnet s)" for src to ch' args
  proof -
    obtain ms where ms: "raft_replicate ?rf = Inr ms" "(to, args) \<in> set ms" "src = i" using send(4) c p(1) by auto
    have r: "replicate_one ?rf to = Inr args" "to \<noteq> i" using raft_replicate_mem [OF ms(1,2)] p(1) by auto
    have "sent_from args (rlog ?rf)" using replicate_one_args [OF r(1)] by (simp add: sent_from_def)
    then show ?thesis using r(2) ms(3) replicate_one_args(5) [OF r(1)] lg p(2) by (auto simp: call_anchored_def log_shape_def)
  qed
  then have "matching zero t ?W ?h"
    using matching_write [OF m one' send(1) refl, of t ?rf "[]"] send(2) lg by (auto simp: list_update_id)
  then show ?thesis using send(2,5) by simp
next
  case (handle src to ch args rf' reply sp ms)
  let ?rf = "cpeers s ! to"
  have c: "call_anchored zero W hist src to args" by (rule matchingD(2) [OF m handle(2)])
  then obtain ys where ys: "sent_from args ys" "anchored W hist ys" "hd ys = \<lparr>Command = zero, eTerm = 0, eIndex = 0\<rparr>"
    by (auto simp: call_anchored_def)
  have shp: "log_shape zero (rlog ?rf) (currentTerm ?rf)" "ae_args_ok args"
    using sh handle(1,2) by (auto simp: shape_def peer_shape_def call_shape_def)
  note r = AppendEntries_returns [OF log_shape_ok [OF shp(1)] shp(2) handle(3)]
  have xs: "anchored W hist (rlog ?rf)" by (rule matchingD(1) [OF m handle(1)])
  have lg: "anchored W hist (rlog rf')"
  proof (cases "ae_accepts ?rf args")
    case True
    have "rlog rf' \<in> {rlog ?rf, ys}"
      using r(1) True merge_anchored [OF xs ys(2), of "nat (PrevLogIndex args)"] ys(1,3) shp(1)
      by (auto simp: ae_accepts_def sent_from_def log_shape_def)
    then show ?thesis using xs ys(2) by auto
  qed (use r(1) xs in simp)
  have keep: "rlog rf' = rlog ?rf" if "(currentTerm rf', to) \<in> W" "currentTerm ?rf = currentTerm rf'"
  proof (rule ccontr)
    assume "rlog rf' \<noteq> rlog ?rf"
    then have "ae_accepts ?rf args" using r(1) by (auto split: if_splits)
    then have "currentTerm rf' = aeTerm args" using r(2) by (simp add: ae_accepts_def)
    then show False using that(1) c one handle(6) by (auto simp: call_anchored_def one_writer_def)
  qed
  have "currentTerm ?rf \<le> currentTerm rf'" using r(2) by simp
  then have "matching zero t W hist" by (rule matching_calm [OF m handle(1,4,5) lg _ keep])
  then show ?thesis using handle(6) by simp
qed

lemma one_writer_mono: "one_writer W \<Longrightarrow> V \<subseteq> W \<Longrightarrow> one_writer V"
  unfolding one_writer_def by blast

lemma creach_matching: "creach n zero s W \<Longrightarrow> one_writer W \<Longrightarrow> \<exists>hist. matching zero s W hist"
proof (induction rule: creach.induct)
  case start
  have "matching zero (cluster_init n zero) {} (\<lambda>_. [])"
    by (auto simp: matching_def cluster_init_def raft_Make_def anchored_def)
  then show ?case by (rule exI [of _ "\<lambda>_. []"])
next
  case (step s W a t)
  have "one_writer W" by (rule one_writer_mono [OF step.prems]) simp
  from step.IH [OF this] obtain hist where "matching zero s W hist" ..
  from matching_step [OF this creach_shape [OF step.hyps(1)] step.hyps(2) step.prems] show ?case by blast
qed

lemma logs_match:
  assumes "creach n zero s W" "one_writer W" "i < n" "j < n"
    "k < length (rlog (cpeers s ! i))" "k < length (rlog (cpeers s ! j))"
    "eTerm (rlog (cpeers s ! i) ! k) = eTerm (rlog (cpeers s ! j) ! k)"
  shows "take (Suc k) (rlog (cpeers s ! i)) = take (Suc k) (rlog (cpeers s ! j))"
proof -
  obtain hist where "matching zero s W hist" using creach_matching [OF assms(1,2)] by blast
  moreover have "shape n zero s" by (rule creach_shape [OF assms(1)])
  ultimately show ?thesis
    using assms(3-7) by (intro anchored_common [of W hist]) (auto simp: matching_def shape_def peer_shape_def log_shape_def)
qed

text \<open>
  C5: Log matching. In a run in which no two peers write in the same term, two logs that have
  entries of the same term at the same position are equal up to there: same commands, same
  terms.
\<close>

theorem raft_log_matching:
  assumes "creach n zero s W" "one_writer W" "i < n" "j < n"
    "k < length (rlog (cpeers s ! i))" "k < length (rlog (cpeers s ! j))"
    "eTerm (rlog (cpeers s ! i) ! k) = eTerm (rlog (cpeers s ! j) ! k)"
  shows "take (Suc k) (rlog (cpeers s ! i)) = take (Suc k) (rlog (cpeers s ! j))"
  by (rule logs_match [OF assms])

end
