(* ===== verification/Raft_Runs.thy ===== *)
theory Raft_Runs
  imports Raft_Safety
begin

section \<open>Raft: concrete runs of three peers\<close>

text \<open>
  Runs of a group of three peers with numbers as commands, evaluated with the definitions of the
  code. A script names the goroutine that steps next, or the call or reply that arrives next, by
  the first one that matches; \<open>play\<close> turns it into a run of \<open>Raft_Cluster\<close>.
\<close>

subsection \<open>Scripts\<close>

datatype script =
    T nat "nat routine"        \<comment> \<open>a goroutine goes on\<close>
  | Out nat                    \<comment> \<open>the timeout of a follower\<close>
  | Call nat nat               \<comment> \<open>the first call under way between two peers is handled\<close>
  | Miss nat nat               \<comment> \<open>it is lost\<close>
  | Vote nat                   \<comment> \<open>a candidate sees the first vote\<close>
  | Ack nat                    \<comment> \<open>a leader sees the first reply\<close>
  | Upd nat                    \<comment> \<open>and uses it\<close>
  | Again nat nat              \<comment> \<open>the timeout of an election\<close>
  | Cmd nat nat                \<comment> \<open>a client starts a command\<close>

fun is_call :: "nat \<Rightarrow> nat \<Rightarrow> nat packet \<Rightarrow> bool" where
  "is_call i j (RVCall a b _ _) \<longleftrightarrow> a = i \<and> b = j"
| "is_call i j (AECall a b _ _) \<longleftrightarrow> a = i \<and> b = j"
| "is_call i j _ \<longleftrightarrow> False"

fun vote_act :: "nat \<Rightarrow> nat packet \<Rightarrow> nat act option" where
  "vote_act i (RVReply j c reply) = (if i = j then Some (Input i (ElectSelect c) (VoteIn reply)) else None)"
| "vote_act i _ = None"

fun ack_act :: "nat \<Rightarrow> nat packet \<Rightarrow> nat act option" where
  "ack_act i (AEReply j c reply) = (if i = j then Some (Input i (HandleRecv c) (AppendIn reply)) else None)"
| "ack_act i _ = None"

fun upd_act :: "nat \<Rightarrow> nat \<times> nat routine \<Rightarrow> nat act option" where
  "upd_act i (j, HandleUpd c reply) = (if i = j then Some (Tick i (HandleUpd c reply)) else None)"
| "upd_act i _ = None"

fun first_act :: "('p \<Rightarrow> 'a option) \<Rightarrow> 'p list \<Rightarrow> 'a option" where
  "first_act f [] = None"
| "first_act f (p # ps) = (case f p of None \<Rightarrow> first_act f ps | Some a \<Rightarrow> Some a)"

fun script_act :: "nat cluster \<Rightarrow> script \<Rightarrow> nat act option" where
  "script_act s (T i rt) = Some (Tick i rt)"
| "script_act s (Out i) = Some (Input i FolSelect Timeout)"
| "script_act s (Call i j) = first_act (\<lambda>p. if is_call i j p then Some (DeliverCall p) else None) (cnet s)"
| "script_act s (Miss i j) = first_act (\<lambda>p. if is_call i j p then Some (Lose p) else None) (cnet s)"
| "script_act s (Vote i) = first_act (vote_act i) (cnet s)"
| "script_act s (Ack i) = first_act (ack_act i) (cnet s)"
| "script_act s (Upd i) = first_act (upd_act i) (croutines s)"
| "script_act s (Again i c) = Some (Input i (ElectSelect c) Timeout)"
| "script_act s (Cmd i c) = Some (ClientStart i c)"

fun play :: "nat cluster \<Rightarrow> script list \<Rightarrow> (nat cluster \<times> nat act list) option" where
  "play s [] = Some (s, [])"
| "play s (x # xs) =
     (case script_act s x of
        None \<Rightarrow> None
      | Some a \<Rightarrow>
          (case cstep s a of
             None \<Rightarrow> None
           | Some t \<Rightarrow> map_option (\<lambda>(u, as). (u, a # as)) (play t xs)))"

lemma play_csteps: "play s xs = Some (t, as) \<Longrightarrow> csteps s as = Some t"
  by (induction xs arbitrary: s as) (auto split: option.splits)

text \<open>All peers become followers; a peer stands for election; a candidate that has won leads.\<close>

definition boot :: "script list" where
  "boot = concat (map (\<lambda>i. [T i FolEnter, T i FolCheck]) [0, 1, 2])"

definition round_of :: "nat \<Rightarrow> script list" where
  "round_of i = [Out i, T i CandCheck, T i CandRound]"

definition campaign :: "nat \<Rightarrow> nat \<Rightarrow> script list" where
  "campaign i c = [T i ElectStart, T i (ElectCheck c)]"

definition lead :: "nat \<Rightarrow> nat \<Rightarrow> script list" where
  "lead i c = [T i LeadEnter, T i (LeadCheck c), T i (HandleCheck c)]"

definition beat :: "nat \<Rightarrow> nat \<Rightarrow> script list" where
  "beat i c = [T i (LeadSelect c), T i (LeadCheck c), T i (Repl c)]"

definition elected0 :: "script list" where
  "elected0 = boot @ round_of 0 @ campaign 0 9"

text \<open>The runs.\<close>

definition run_two_leaders :: "script list" where
  "run_two_leaders = elected0 @ round_of 2 @ [Call 0 2, Vote 0] @ campaign 2 16 @ [Call 2 1, Vote 2]"

definition run_stale_vote :: "script list" where
  "run_stale_vote = elected0 @ [Call 0 1] @ round_of 2 @ campaign 2 15 @
     [Again 2 15, T 2 CandCheck, T 2 CandRound, T 2 ElectStart, Call 2 0, Call 2 0, Vote 0]"

definition run_two_beats :: "script list" where
  "run_two_beats = elected0 @ [Call 0 1, Vote 0, Cmd 0 7, T 0 (StartAppend 7)] @ lead 0 14 @ beat 0 14 @ beat 0 14 @
     [Call 0 2, Call 0 2, Call 0 2, Ack 0, Upd 0, T 0 (HandleCheck 14), Ack 0, Upd 0] @ beat 0 14"

definition run_replicated :: "script list" where
  "run_replicated = elected0 @ [Call 0 1, Vote 0] @ lead 0 13 @ [Cmd 0 7, T 0 (StartAppend 7)] @ beat 0 13 @
     [Call 0 1, Ack 0, Upd 0, T 0 (CommitAt 1), T 0 (HandleCheck 13)] @ beat 0 13 @ [Call 0 1]"

definition run_reapplied :: "script list" where
  "run_reapplied = run_replicated @ round_of 1 @ campaign 1 32 @ [Call 1 2, Vote 1] @ lead 1 36 @ [Cmd 1 8, T 1 (StartAppend 8)] @
     beat 1 36 @ [Call 1 0, Call 1 0, Ack 1, Upd 1, T 1 (CommitAt 2)]"

definition roles :: "nat cluster \<Rightarrow> (int \<times> RaftState) list" where
  "roles s = map (\<lambda>rf. (currentTerm rf, rstate rf)) (cpeers s)"

definition applied_at :: "nat cluster \<Rightarrow> nat \<Rightarrow> (int \<times> nat) list" where
  "applied_at s i = map (\<lambda>(j, m). (CommandIndex m, aCommand m)) (filter (\<lambda>(j, m). j = i) (capplied s))"

definition outcome :: "(nat cluster \<Rightarrow> 'r) \<Rightarrow> script list \<Rightarrow> 'r option" where
  "outcome f xs = map_option (\<lambda>(s, as). f s) (play (cluster_init 3 0) xs)"

lemma outcome_reach:
  assumes "outcome f xs = Some r"
  obtains s W where "creach 3 0 s W" "f s = r"
proof -
  obtain s as where s: "play (cluster_init 3 0) xs = Some (s, as)" "f s = r"
    using assms by (auto simp: outcome_def)
  show thesis using that [OF csteps_reach [OF play_csteps [OF s(1)] creach.start] s(2)] .
qed

subsection \<open>What goes wrong\<close>

text \<open>
  Two leaders in one term. Peer 2 has raised its term to 1 but its election has not begun, so its \<^verbatim>\<open>votedFor\<close> is
  still free; it grants the vote peer 0 asks for in term 1, then begins its election, overwrites \<^verbatim>\<open>votedFor\<close> with
  itself and gets the vote of peer 1. Both have a majority.
\<close>

theorem raft_two_leaders_in_a_term:
  "\<exists>s W. creach 3 (0 :: nat) s W \<and> GetState (cpeers s ! 0) = (1, True) \<and> GetState (cpeers s ! 2) = (1, True)"
proof -
  have "outcome (\<lambda>s. (GetState (cpeers s ! 0), GetState (cpeers s ! 2))) run_two_leaders = Some ((1, True), (1, True))" by code_simp
  then show ?thesis by (rule outcome_reach) auto
qed

text \<open>
  A vote of an old term elects. Peer 0 has been told of term 2 and is a follower when a vote that peer 1 granted in
  term 1 arrives; the vote is counted, and peer 0 is leader of term 2, although peer 1 has not
  seen term 2 and peer 2 has voted for itself in it.
\<close>

theorem raft_stale_vote_elects:
  "\<exists>s W. creach 3 (0 :: nat) s W \<and> GetState (cpeers s ! 0) = (2, True) \<and> currentTerm (cpeers s ! 1) = 1 \<and>
     currentTerm (cpeers s ! 2) = 2 \<and> votedFor (cpeers s ! 2) = 2"
proof -
  have "outcome (\<lambda>s. (GetState (cpeers s ! 0), currentTerm (cpeers s ! 1), currentTerm (cpeers s ! 2), votedFor (cpeers s ! 2)))
      run_stale_vote = Some ((2, True), 1, 2, 2)" by code_simp
  then show ?thesis by (rule outcome_reach) auto
qed

text \<open>
  A leader can crash. Two heartbeats reach a follower that lacks the last entry; each refusal moves \<^verbatim>\<open>nextIndex\<close> back
  by one, to 0, and the next \<^verbatim>\<open>replicate\<close> reads the log at index -1.
\<close>

theorem raft_two_refusals_crash_leader: "\<exists>s W. creach 3 (0 :: nat) s W \<and> cpanic s"
proof -
  have "outcome cpanic run_two_beats = Some True" by code_simp
  then show ?thesis by (rule outcome_reach) auto
qed

text \<open>
  Commands are applied twice. A follower applies entries without moving \<^verbatim>\<open>lastApplied\<close>; when peer 1 has become leader
  and commits its first entry, it applies everything from the start of the log again.
\<close>

theorem raft_leader_applies_again:
  "\<exists>s W. creach 3 (0 :: nat) s W \<and> applied_at s 1 = [(1, 7), (1, 7), (2, 8)]"
proof -
  have "outcome (\<lambda>s. applied_at s 1) run_reapplied = Some [(1, 7), (1, 7), (2, 8)]" by code_simp
  then show ?thesis by (rule outcome_reach) auto
qed

subsection \<open>The invariants on these runs\<close>

definition writers_of :: "nat act list \<Rightarrow> (int \<times> nat) set" where
  "writers_of as = all_writers (cluster_init 3 0) as"

lemma reapplied_state:
  obtains s W where "creach 3 (0 :: nat) s W" "one_writer W" "map (map eTerm \<circ> rlog) (cpeers s) = [[0, 1, 2], [0, 1, 2], [0]]"
proof -
  have "map_option (\<lambda>(s, as). (map (map eTerm \<circ> rlog) (cpeers s), writers_of as = {(1, 0), (2, 1)}))
      (play (cluster_init 3 0) run_reapplied) = Some ([[0, 1, 2], [0, 1, 2], [0]], True)" by code_simp
  then obtain s as where s: "play (cluster_init 3 0) run_reapplied = Some (s, as)"
    "map (map eTerm \<circ> rlog) (cpeers s) = [[0, 1, 2], [0, 1, 2], [0]]" "writers_of as = {(1, 0), (2, 1)}" by auto
  have r: "creach 3 0 s ({} \<union> writers_of as)"
    unfolding writers_of_def by (rule csteps_reach [OF play_csteps [OF s(1)] creach.start])
  have "one_writer ({} \<union> writers_of as)" by (auto simp: s(3) one_writer_def)
  then show thesis by (rule that [OF r _ s(2)])
qed

theorem raft_log_matching_witness:
  "\<exists>s W. creach 3 (0 :: nat) s W \<and> one_writer W \<and> length (rlog (cpeers s ! 0)) = 3 \<and>
     take 3 (rlog (cpeers s ! 0)) = take 3 (rlog (cpeers s ! 1))"
proof -
  obtain s W where s: "creach 3 (0 :: nat) s W" "one_writer W" "map (map eTerm \<circ> rlog) (cpeers s) = [[0, 1, 2], [0, 1, 2], [0]]"
    by (rule reapplied_state)
  then obtain a b c where p: "cpeers s = [a, b, c]" "map eTerm (rlog a) = [0, 1, 2]" "map eTerm (rlog b) = [0, 1, 2]"
    by (auto simp: map_eq_Cons_conv)
  then have l: "length (rlog a) = 3" "length (rlog b) = 3" "eTerm (rlog a ! 2) = 2" "eTerm (rlog b ! 2) = 2"
    using arg_cong [OF p(2), of length] arg_cong [OF p(3), of length] by (auto simp: map_eq_Cons_conv)
  have "take (Suc 2) (rlog (cpeers s ! 0)) = take (Suc 2) (rlog (cpeers s ! 1))"
    by (rule raft_log_matching [OF s(1,2)]) (simp_all add: p(1) l)
  then show ?thesis using s(1,2) l(1) p(1) by (intro exI [of _ s] exI [of _ W]) simp
qed

theorem raft_log_shape_witness:
  "\<exists>s W. creach 3 (0 :: nat) s W \<and> length (rlog (cpeers s ! 0)) = 3 \<and> sorted (map eTerm (rlog (cpeers s ! 0))) \<and>
     eIndex (rlog (cpeers s ! 0) ! 2) = 2"
proof -
  obtain s W where s: "creach 3 (0 :: nat) s W" "map (map eTerm \<circ> rlog) (cpeers s) = [[0, 1, 2], [0, 1, 2], [0]]"
    by (rule reapplied_state)
  then have l: "length (rlog (cpeers s ! 0)) = 3" by (auto simp: map_eq_Cons_conv)
  have "0 < (3 :: nat)" by simp
  from raft_log_shape [OF s(1) this refl] show ?thesis using s(1) l by (intro exI [of _ s] exI [of _ W]) simp
qed

end
