(* ===== verification/Raft_Leader.thy ===== *)
theory Raft_Leader
  imports Raft_Runs
begin

section \<open>Raft: the logs of leaders\<close>

text \<open>
  What log matching (\<open>Raft_Safety\<close>) means for the peer that writes in a term: as long as it stays in the term its log only
  grows, and every entry of the term in any log of the group is one of its own, with everything before it. As
  there, this holds in runs in which no two peers write in the same term. The last part shows
  one more way in which the code comes to two such peers.
\<close>

subsection \<open>Append only\<close>

lemma writer_appends:
  assumes r: "creach n zero s W" and st: "cstep s a = Some t" and one: "one_writer (W \<union> writers s a)" and i: "i < n"
    and w: "(currentTerm (cpeers s ! i), i) \<in> W" and same: "currentTerm (cpeers t ! i) = currentTerm (cpeers s ! i)"
  shows "\<exists>es. rlog (cpeers t ! i) = rlog (cpeers s ! i) @ es"
proof -
  have sh: "shape n zero s" by (rule creach_shape [OF r])
  then have len: "length (cpeers s) = n" by (simp add: shape_def)
  obtain hist where m: "matching zero s W hist"
    using creach_matching [OF r one_writer_mono [OF one]] by blast
  show ?thesis
    using st
  proof (cases rule: cstep_kinds)
    case (calm j rf')
    then show ?thesis by (cases "j = i") (auto simp: quiet_def)
  next
    case (append j command)
    then show ?thesis by (cases "j = i") (auto simp: raft_Start_def)
  next
    case (handle src to ch args rf' reply sp ms)
    show ?thesis
    proof (cases "to = i")
      case True
      have c: "call_anchored zero W hist src to args" by (rule matchingD(2) [OF m handle(2)])
      have ok: "log_ok (rlog (cpeers s ! to))" "ae_args_ok args"
        using sh handle(1,2) by (auto simp: shape_def peer_shape_def call_shape_def log_shape_def)
      note ret = AppendEntries_returns [OF ok handle(3)]
      have "\<not> ae_accepts (cpeers s ! to) args"
      proof
        assume acc: "ae_accepts (cpeers s ! to) args"
        then have "currentTerm rf' = aeTerm args" using ret(2) by (simp add: ae_accepts_def)
        then have "(currentTerm (cpeers s ! i), src) \<in> W" using same handle(1,4) True c by (simp add: call_anchored_def)
        then have "src = i" using w one unfolding one_writer_def by blast
        then show False using c True by (simp add: call_anchored_def)
      qed
      then show ?thesis using ret(1) handle(1,4) True by simp
    qed (use handle(4) in simp)
  qed simp_all
qed

text \<open>
  C17: Leaders only append. In a run in which no two peers write in the same term, from the moment a peer has written in
  its current term and for as long as it stays in that term, whatever happens in between, its log only gets longer.
\<close>

theorem raft_leader_append_only:
  assumes "creach n zero s W" "csteps s as = Some t" "one_writer (W \<union> all_writers s as)" "i < n"
    and "(currentTerm (cpeers s ! i), i) \<in> W" "currentTerm (cpeers t ! i) = currentTerm (cpeers s ! i)"
  shows "\<exists>es. rlog (cpeers t ! i) = rlog (cpeers s ! i) @ es"
  using assms
proof (induction as arbitrary: s W)
  case (Cons a as)
  obtain u where u: "cstep s a = Some u" "csteps u as = Some t" using Cons.prems(2) by (auto split: option.splits)
  have r: "creach n zero u (W \<union> writers s a)" by (rule creach.step [OF Cons.prems(1) u(1)])
  have one: "one_writer (W \<union> writers s a \<union> all_writers u as)" using Cons.prems(3) u(1) by (simp add: Un_assoc)
  have le: "currentTerm (cpeers v ! i) \<le> currentTerm (cpeers v' ! i)" if "creach n zero v V" "csteps v bs = Some v'" for v v' V bs
    using that
  proof (induction bs arbitrary: v V)
    case (Cons b bs)
    obtain x where x: "cstep v b = Some x" "csteps x bs = Some v'" using Cons.prems(2) by (auto split: option.splits)
    show ?case using raft_terms_never_decrease [OF Cons.prems(1) x(1) \<open>i < n\<close>] Cons.IH [OF creach.step [OF Cons.prems(1) x(1)] x(2)] by simp
  qed simp
  have "currentTerm (cpeers s ! i) \<le> currentTerm (cpeers u ! i)" by (rule raft_terms_never_decrease [OF Cons.prems(1) u(1) Cons.prems(4)])
  then have eq: "currentTerm (cpeers u ! i) = currentTerm (cpeers s ! i)" using le [OF r u(2)] Cons.prems(6) by simp
  obtain es where "rlog (cpeers u ! i) = rlog (cpeers s ! i) @ es"
    using writer_appends [OF Cons.prems(1) u(1) one_writer_mono [OF one] Cons.prems(4,5) eq] by blast
  moreover obtain fs where "rlog (cpeers t ! i) = rlog (cpeers u ! i) @ fs"
    using Cons.IH [OF r u(2) one Cons.prems(4)] Cons.prems(5,6) eq by auto
  ultimately show ?case by simp
next
  case Nil
  have "s = t" using Nil(2) by simp
  then show ?case by (intro exI [of _ "[]"]) simp
qed

text \<open>
  C20: A term has one log. In a run in which no two peers write in the same term, any entry of a term in any log is found in the
  log of the peer that writes in that term, at the same place and after the same entries, while that peer is in the term.
\<close>

theorem raft_entries_of_the_writer:
  assumes "creach n zero s W" "one_writer W" "(currentTerm (cpeers s ! p), p) \<in> W" "j < n"
    and "0 < k" "k < length (rlog (cpeers s ! j))" "eTerm (rlog (cpeers s ! j) ! k) = currentTerm (cpeers s ! p)"
  shows "take (Suc k) (rlog (cpeers s ! j)) = take (Suc k) (rlog (cpeers s ! p)) \<and> k < length (rlog (cpeers s ! p))"
proof -
  obtain hist where m: "matching zero s W hist" using creach_matching [OF assms(1,2)] by blast
  have "length (cpeers s) = n" using creach_shape [OF assms(1)] by (simp add: shape_def)
  then have "anchored W hist (rlog (cpeers s ! j))" using matchingD(1) [OF m, of j] assms(4) by simp
  then have t: "take (Suc k) (rlog (cpeers s ! j)) = take (Suc k) (rlog (cpeers s ! p))"
    using matchingD(3) [OF m assms(3)] assms(5-7) by (simp add: anchored_def)
  have "length (take (Suc k) (rlog (cpeers s ! p))) = Suc k" using assms(6) t by (metis Suc_leI length_take min.absorb2)
  then show ?thesis using t by simp
qed

subsection \<open>Runs\<close>

text \<open>
  Two leaders in one term without a vote for oneself in between. Peer 1 is about to stand for election when peer 0 asks for its
  vote: it grants it and starts \<^verbatim>\<open>toFollower\<close>, which clears \<^verbatim>\<open>votedFor\<close> a moment later; then it grants the vote of
  the same term to peer 2.
\<close>

definition run_double_vote :: "script list" where
  "run_double_vote = elected0 @ [Out 1, Call 0 1, Vote 0, T 1 FolEnter] @ round_of 2 @ campaign 2 18 @ [Call 2 1, Vote 2]"

lemma raft_votes_twice:
  "\<exists>s W. creach 3 (0 :: nat) s W \<and> GetState (cpeers s ! 0) = (1, True) \<and> GetState (cpeers s ! 2) = (1, True) \<and>
     votedFor (cpeers s ! 1) = 2"
proof -
  have "outcome (\<lambda>s. (GetState (cpeers s ! 0), GetState (cpeers s ! 2), votedFor (cpeers s ! 1))) run_double_vote =
      Some ((1, True), (1, True), 2)" by code_simp
  then show ?thesis by (rule outcome_reach) auto
qed

definition run_growing :: "script list" where
  "run_growing = [Cmd 0 9, T 0 (StartAppend 9), Call 0 2, Call 0 2]"

lemma growing_states:
  obtains s W as t where "creach 3 (0 :: nat) s W" "csteps s as = Some t" "one_writer (W \<union> all_writers s as)"
    "(currentTerm (cpeers s ! 0), 0) \<in> W" "currentTerm (cpeers t ! 0) = currentTerm (cpeers s ! 0)"
    "map (length \<circ> rlog) (cpeers s) = [2, 2, 1]" "map (length \<circ> rlog) (cpeers t) = [3, 2, 2]"
    "map eTerm (rlog (cpeers t ! 2)) = [0, 1]" "currentTerm (cpeers t ! 0) = 1"
proof -
  have "(case play (cluster_init 3 0) run_replicated of None \<Rightarrow> None
    | Some (s, as) \<Rightarrow> (case play s run_growing of None \<Rightarrow> None
      | Some (t, bs) \<Rightarrow> Some (writers_of as = {(1, 0)}, all_writers s bs = {(1, 0)}, currentTerm (cpeers s ! 0), currentTerm (cpeers t ! 0),
          map (length \<circ> rlog) (cpeers s), map (length \<circ> rlog) (cpeers t), map eTerm (rlog (cpeers t ! 2))))) =
    Some (True, True, 1, 1, [2, 2, 1], [3, 2, 2], [0, 1])" by code_simp
  then obtain s as t bs where p: "play (cluster_init 3 0) run_replicated = Some (s, as)" "play s run_growing = Some (t, bs)"
    "writers_of as = {(1, 0)}" "all_writers s bs = {(1, 0)}" "currentTerm (cpeers s ! 0) = 1" "currentTerm (cpeers t ! 0) = 1"
    "map (length \<circ> rlog) (cpeers s) = [2, 2, 1]" "map (length \<circ> rlog) (cpeers t) = [3, 2, 2]" "map eTerm (rlog (cpeers t ! 2)) = [0, 1]"
    by (auto split: option.splits)
  have r: "creach 3 0 s ({} \<union> writers_of as)"
    unfolding writers_of_def by (rule csteps_reach [OF play_csteps [OF p(1)] creach.start])
  show thesis
    by (rule that [OF r play_csteps [OF p(2)]]) (simp_all add: p one_writer_def)
qed

theorem raft_leader_append_only_witness:
  "\<exists>s W as t es. creach 3 (0 :: nat) s W \<and> csteps s as = Some t \<and> length (rlog (cpeers s ! 0)) = 2 \<and> length (rlog (cpeers t ! 0)) = 3 \<and>
     rlog (cpeers t ! 0) = rlog (cpeers s ! 0) @ es"
proof -
  obtain s W as t where s: "creach 3 (0 :: nat) s W" "csteps s as = Some t" "one_writer (W \<union> all_writers s as)"
    "(currentTerm (cpeers s ! 0), 0) \<in> W" "currentTerm (cpeers t ! 0) = currentTerm (cpeers s ! 0)"
    "map (length \<circ> rlog) (cpeers s) = [2, 2, 1]" "map (length \<circ> rlog) (cpeers t) = [3, 2, 2]" by (rule growing_states)
  have l: "length (rlog (cpeers s ! 0)) = 2" "length (rlog (cpeers t ! 0)) = 3" using s(6,7) by (auto simp: map_eq_Cons_conv)
  have "\<exists>es. rlog (cpeers t ! 0) = rlog (cpeers s ! 0) @ es" by (rule raft_leader_append_only [OF s(1-3) _ s(4,5)]) simp
  then show ?thesis using s(1,2) l by blast
qed

theorem raft_entries_of_the_writer_witness:
  "\<exists>s W. creach 3 (0 :: nat) s W \<and> one_writer W \<and> length (rlog (cpeers s ! 2)) = 2 \<and>
     take (Suc 1) (rlog (cpeers s ! 2)) = take (Suc 1) (rlog (cpeers s ! 0))"
proof -
  obtain s W as t where s: "creach 3 (0 :: nat) s W" "csteps s as = Some t" "one_writer (W \<union> all_writers s as)"
    "(currentTerm (cpeers s ! 0), 0) \<in> W" "currentTerm (cpeers t ! 0) = currentTerm (cpeers s ! 0)"
    "map (length \<circ> rlog) (cpeers t) = [3, 2, 2]" "map eTerm (rlog (cpeers t ! 2)) = [0, 1]" "currentTerm (cpeers t ! 0) = 1"
    by (rule growing_states)
  have r: "creach 3 0 t (W \<union> all_writers s as)" by (rule csteps_reach [OF s(2,1)])
  have l: "length (rlog (cpeers t ! 2)) = 2" using arg_cong [OF s(7), of length] by simp
  have e: "eTerm (rlog (cpeers t ! 2) ! 1) = currentTerm (cpeers t ! 0)" using arg_cong [OF s(7), of "\<lambda>xs. xs ! 1"] l s(8) by simp
  have w: "(currentTerm (cpeers t ! 0), 0) \<in> W \<union> all_writers s as" using s(4,5) by simp
  have "take (Suc 1) (rlog (cpeers t ! 2)) = take (Suc 1) (rlog (cpeers t ! 0)) \<and> 1 < length (rlog (cpeers t ! 0))"
    by (rule raft_entries_of_the_writer [OF r s(3) w _ _ _ e]) (simp_all add: l)
  then show ?thesis using r s(3) l by blast
qed

end
