(* ===== verification/Raft_Election.thy ===== *)
theory Raft_Election
  imports Raft_Leader
begin

section \<open>Raft: elections\<close>

text \<open>
  What a run must avoid so that no term has two leaders. A run is written down as a set of memos: the elections that
  were begun, the votes that were given, the votes that were counted, who won, and who appended a command without being leader.
  They add nothing to a state and restrict no step (\<open>creach_noted\<close>). Election safety and, from it, log matching are proved for all runs
  whose memos show none of four things, each of which the code allows: a peer votes for two candidates in a term, a peer
  holds two elections in one term, a vote is counted in another term than it was given for, and \<^verbatim>\<open>Start\<close> appends after
  the peer has lost its lead. \<open>raft_conditions_needed\<close> has runs with one of these faults each, and what they lead to.
\<close>

subsection \<open>What a run is remembered by\<close>

datatype memo =
    Asked nat nat RequestVoteArgs    \<comment> \<open>reply channel and candidate of an election\<close>
  | Voted int nat int                \<comment> \<open>term, voter, candidate\<close>
  | Counted int nat int              \<comment> \<open>term of the candidate, candidate, term of the vote\<close>
  | Won int nat
  | Strayed int nat

fun memos :: "'c cluster \<Rightarrow> 'c act \<Rightarrow> memo set" where
  "memos s (Tick i ElectStart) =
     (if killed (cpeers s ! i) then {}
      else case startElection_begin (cpeers s ! i) of
          Inl e \<Rightarrow> {}
        | Inr (rf, args) \<Rightarrow> {Asked (cfresh s) i args, Voted (currentTerm rf) i (int i)})"
| "memos s (Tick i (StartAppend _)) =
     (if rstate (cpeers s ! i) = LEADER then {} else {Strayed (currentTerm (cpeers s ! i)) i})"
| "memos s (Input i (ElectSelect _) (VoteIn reply)) =
     (if VoteGranted reply \<and> rvrTerm reply \<le> currentTerm (cpeers s ! i)
      then insert (Counted (currentTerm (cpeers s ! i)) i (rvrTerm reply))
        (if snd (startElection_reply (cpeers s ! i) reply) = KeepWaiting then {} else {Won (currentTerm (cpeers s ! i)) i})
      else {})"
| "memos s (DeliverCall (RVCall _ to _ args)) =
     (case RequestVote (cpeers s ! to) args of (_, reply, _) \<Rightarrow>
        if VoteGranted reply then {Voted (rvrTerm reply) to (CandidateId args)} else {})"
| "memos s _ = {}"

inductive ereach :: "nat \<Rightarrow> 'c \<Rightarrow> 'c cluster \<Rightarrow> (int \<times> nat) set \<Rightarrow> memo set \<Rightarrow> bool" for n zero where
  start: "ereach n zero (cluster_init n zero) {} {}"
| step: "ereach n zero s W N \<Longrightarrow> cstep s a = Some t \<Longrightarrow> ereach n zero t (W \<union> writers s a) (N \<union> memos s a)"

lemma ereach_creach: "ereach n zero s W N \<Longrightarrow> creach n zero s W"
  by (induction rule: ereach.induct) (auto intro: creach.intros)

lemma creach_noted: "creach n zero s W \<Longrightarrow> \<exists>N. ereach n zero s W N"
  by (induction rule: creach.induct) (auto intro: ereach.intros)

definition one_vote :: "memo set \<Rightarrow> bool" where
  "one_vote N \<longleftrightarrow> (\<forall>t v c d. Voted t v c \<in> N \<longrightarrow> Voted t v d \<in> N \<longrightarrow> c = d)"

definition one_election :: "memo set \<Rightarrow> bool" where
  "one_election N \<longleftrightarrow> (\<forall>i ch a dh b. Asked ch i a \<in> N \<longrightarrow> Asked dh i b \<in> N \<longrightarrow> rvTerm a = rvTerm b \<longrightarrow> ch = dh)"

definition fresh_votes :: "memo set \<Rightarrow> bool" where
  "fresh_votes N \<longleftrightarrow> (\<forall>t i u. Counted t i u \<in> N \<longrightarrow> u = t)"

definition no_strays :: "memo set \<Rightarrow> bool" where
  "no_strays N \<longleftrightarrow> (\<forall>t i. Strayed t i \<notin> N)"

text \<open>The conditions on a finite set of memos can be evaluated.\<close>

fun vote_fits :: "memo \<Rightarrow> memo \<Rightarrow> bool" where
  "vote_fits (Voted t v c) (Voted u w d) \<longleftrightarrow> (t = u \<and> v = w \<longrightarrow> c = d)"
| "vote_fits _ _ \<longleftrightarrow> True"

fun election_fits :: "memo \<Rightarrow> memo \<Rightarrow> bool" where
  "election_fits (Asked ch i a) (Asked dh j b) \<longleftrightarrow> (i = j \<and> rvTerm a = rvTerm b \<longrightarrow> ch = dh)"
| "election_fits _ _ \<longleftrightarrow> True"

fun is_fresh :: "memo \<Rightarrow> bool" where
  "is_fresh (Counted t _ u) \<longleftrightarrow> u = t"
| "is_fresh _ \<longleftrightarrow> True"

fun is_stray :: "memo \<Rightarrow> bool" where
  "is_stray (Strayed _ _) \<longleftrightarrow> True"
| "is_stray _ \<longleftrightarrow> False"

lemma one_vote_code [code]: "one_vote N \<longleftrightarrow> (\<forall>x \<in> N. \<forall>y \<in> N. vote_fits x y)"
proof
  assume o: "one_vote N"
  show "\<forall>x \<in> N. \<forall>y \<in> N. vote_fits x y"
  proof (intro ballI)
    fix x y assume "x \<in> N" "y \<in> N"
    then show "vote_fits x y" using o by (cases "(x, y)" rule: vote_fits.cases) (auto simp: one_vote_def)
  qed
qed (fastforce simp: one_vote_def)

lemma one_election_code [code]: "one_election N \<longleftrightarrow> (\<forall>x \<in> N. \<forall>y \<in> N. election_fits x y)"
proof
  assume o: "one_election N"
  show "\<forall>x \<in> N. \<forall>y \<in> N. election_fits x y"
  proof (intro ballI)
    fix x y assume "x \<in> N" "y \<in> N"
    then show "election_fits x y" using o by (cases "(x, y)" rule: election_fits.cases) (auto simp: one_election_def)
  qed
qed (fastforce simp: one_election_def)

lemma fresh_votes_code [code]: "fresh_votes N \<longleftrightarrow> (\<forall>x \<in> N. is_fresh x)"
proof
  assume o: "fresh_votes N"
  show "\<forall>x \<in> N. is_fresh x"
  proof
    fix x assume "x \<in> N"
    then show "is_fresh x" using o by (cases x) (auto simp: fresh_votes_def)
  qed
qed (fastforce simp: fresh_votes_def)

lemma no_strays_code [code]: "no_strays N \<longleftrightarrow> (\<forall>x \<in> N. \<not> is_stray x)"
proof
  assume o: "no_strays N"
  show "\<forall>x \<in> N. \<not> is_stray x"
  proof
    fix x assume "x \<in> N"
    then show "\<not> is_stray x" using o by (cases x) (auto simp: no_strays_def)
  qed
qed (fastforce simp: no_strays_def)

subsection \<open>The kinds of steps of an election\<close>

text \<open>Of the network only the requests for votes and the votes granted matter.\<close>

fun ballot :: "'c packet \<Rightarrow> bool" where
  "ballot (RVCall _ _ _ _) = True"
| "ballot (RVReply _ _ reply) = VoteGranted reply"
| "ballot _ = False"

definition ballots :: "'c packet list \<Rightarrow> 'c packet list" where
  "ballots ps = filter ballot ps"

lemma ballots_simps [simp]:
  "ballots (ps @ qs) = ballots ps @ ballots qs" "ballots [] = []" "ballots (p # ps) = (if ballot p then p # ballots ps else ballots ps)"
  by (simp_all add: ballots_def)

lemma ballots_remove1: "ballots (remove1 p ps) = (if ballot p then remove1 p (ballots ps) else ballots ps)"
  by (simp add: ballots_def filter_remove1)

lemma ballots_fewer: "\<exists>q. ballots (remove1 p ps) = remove1 q (ballots ps) \<or> ballots (remove1 p ps) = ballots ps"
  by (auto simp: ballots_remove1)

lemma in_ballots: "p \<in> set (ballots ps) \<longleftrightarrow> p \<in> set ps \<and> ballot p"
  by (auto simp: ballots_def)

text \<open>A step that counts no vote, and after which a peer leads only if it led the same term before.\<close>

definition settled :: "'c Raft \<Rightarrow> 'c Raft \<Rightarrow> bool" where
  "settled rf rf' \<longleftrightarrow> me rf' = me rf \<and> votesGot rf' = votesGot rf \<and>
     (rstate rf' = LEADER \<longrightarrow> rstate rf = LEADER \<and> currentTerm rf' = currentTerm rf)"

lemma settled_refl [simp]: "settled rf rf"
  by (simp add: settled_def)

lemma follow_settled: "follow rf t c = (rf', sp) \<Longrightarrow> (c \<Longrightarrow> rstate rf \<noteq> LEADER) \<Longrightarrow> settled rf rf'"
  by (auto simp: follow_def settled_def Let_def split: if_splits)

lemma notify_settled: "settled (rpc_notify rf k) rf' \<Longrightarrow> settled rf rf'"
  by (auto simp: settled_def rpc_notify_def split: if_splits)

lemma RequestVote_settled: "RequestVote rf args = (rf', reply, sp) \<Longrightarrow> settled rf rf'"
  using follow_settled [of "rpc_notify rf 1" "rvTerm args" False]
  by (fastforce simp: RequestVote_def Let_def settled_def rpc_notify_def split: prod.splits if_splits)

lemma settled_log: "settled rf (rf'\<lparr>rlog := lg\<rparr>) = settled rf rf'" "settled rf (rf'\<lparr>commitIndex := c\<rparr>) = settled rf rf'"
  by (simp_all add: settled_def)

lemma ae_commit_settled: "ae_commit rf args = Inr (rf', ms) \<Longrightarrow> settled r rf' = settled r rf"
  by (auto simp: ae_commit_def bind_result_Inr_iff Let_def settled_log split: if_splits)

lemma AppendEntries_settled: "AppendEntries rf args = Inr (rf', reply, sp, ms) \<Longrightarrow> settled rf rf'"
proof -
  assume ae: "AppendEntries rf args = Inr (rf', reply, sp, ms)"
  let ?rf = "rpc_notify rf 2"
  obtain rf1 sp1 where f: "follow ?rf (aeTerm args) (rstate ?rf = CANDIDATE) = (rf1, sp1)" by fastforce
  then have s: "settled ?rf rf1" by (rule follow_settled) simp
  have "settled ?rf rf'"
    using ae f s by (auto simp: AppendEntries_def Let_def bind_result_Inr_iff settled_log dest!: ae_commit_settled split: if_splits prod.splits)
  then show ?thesis by (rule notify_settled)
qed

text \<open>A step that starts no election, grants no vote and counts none. It may take a ballot from the network.\<close>

definition calm_step :: "'c cluster \<Rightarrow> 'c act \<Rightarrow> 'c cluster \<Rightarrow> bool" where
  "calm_step s a t \<longleftrightarrow> length (cpeers t) = length (cpeers s) \<and> (\<forall>i < length (cpeers s). settled (cpeers s ! i) (cpeers t ! i)) \<and>
     cfresh s \<le> cfresh t \<and> (\<exists>p. ballots (cnet t) = remove1 p (ballots (cnet s)) \<or> ballots (cnet t) = ballots (cnet s)) \<and>
     memos s a \<subseteq> range (\<lambda>(u, i). Strayed u i)"

lemma calm_stepI:
  assumes "cpeers t = (cpeers s)[i := rf']" "settled (cpeers s ! i) rf'" "cfresh s \<le> cfresh t"
    "\<exists>p. ballots (cnet t) = remove1 p (ballots (cnet s)) \<or> ballots (cnet t) = ballots (cnet s)"
    "memos s a \<subseteq> range (\<lambda>(u, i). Strayed u i)"
  shows "calm_step s a t"
proof -
  have "settled (cpeers s ! j) (cpeers t ! j)" if "j < length (cpeers s)" for j
    using assms(1,2) that by (cases "i = j") auto
  then show ?thesis using assms by (auto simp: calm_step_def)
qed

lemma calm_same:
  assumes "cpeers t = cpeers s" "cfresh s \<le> cfresh t"
    "\<exists>p. ballots (cnet t) = remove1 p (ballots (cnet s)) \<or> ballots (cnet t) = ballots (cnet s)"
    "memos s a \<subseteq> range (\<lambda>(u, i). Strayed u i)"
  shows "calm_step s a t"
  using assms by (auto simp: calm_step_def)

lemma commitAt_settled: "commitAt rf i = Inr (rf', ms) \<Longrightarrow> settled rf rf'"
  by (auto simp: commitAt_def settled_def bind_result_Inr_iff Let_def split: if_splits)

lemma handleReply_update_settled: "handleReply_update rf reply = Inr (rf', out) \<Longrightarrow> settled rf rf'"
  unfolding handleReply_update_def settled_def bind_result_Inr_iff slice_get_Inr_iff Let_def
  by (cases "Success reply"; cases "IsHeartbeat reply") (clarsimp simp: bind_result_Inr_iff slice_get_Inr_iff)+

lemma run_tick_settled:
  assumes "run_tick rf ch rt = Some (Inr (rf', rts, pkts, ms))" "rt \<noteq> ElectStart \<or> killed rf"
  shows "settled rf rf'" "ballots pkts = []"
proof -
  have "settled rf rf' \<and> ballots pkts = []"
  proof (cases rt)
    case (HandleUpd c reply)
    then show ?thesis using assms(1) by (auto simp: raft_defs bind_result_Inr_iff intro: handleReply_update_settled)
  next
    case (CommitAt i)
    then show ?thesis using assms(1) by (auto simp: bind_result_Inr_iff intro: commitAt_settled)
  next
    case (Repl c)
    then show ?thesis
      using assms(1) by (auto simp: raft_defs bind_result_Inr_iff ballots_def filter_empty_conv)
  qed (use assms in \<open>auto simp: raft_defs settled_def raft_Start_def toFollower_enter_def toCandidate_round_def toLeader_enter_def\<close>)
  then show "settled rf rf'" "ballots pkts = []" by auto
qed

lemma run_input_settled:
  assumes "run_input rf rt inp = Some (rf', rts, pkts, ms)"
    "\<And>c reply. rt = ElectSelect c \<Longrightarrow> inp = VoteIn reply \<Longrightarrow> \<not> (VoteGranted reply \<and> rvrTerm reply \<le> currentTerm rf)"
  shows "settled rf rf'" "pkts = []"
proof -
  have "settled rf rf' \<and> pkts = []"
  proof (cases "(rf, rt, inp)" rule: run_input.cases)
    case (1 rf0 i)
    then show ?thesis
      using assms by (cases inp) (auto simp: settled_def toFollower_rpc_def toFollower_timeout_def split: if_splits)
  next
    case (2 rf0 c i)
    then show ?thesis
      using assms(1) assms(2) [of c] by (cases inp) (auto simp: startElection_reply_def settled_def split: if_splits)
  qed (use assms in \<open>auto simp: raft_defs settled_def handleReply_term_def split: if_splits\<close>)
  then show "settled rf rf'" "pkts = []" by auto
qed

lemma startElection_begin_eq:
  "startElection_begin rf = Inr (rf', args) \<Longrightarrow>
     rf' = rf\<lparr>votedFor := int (me rf), votesGot := 1\<rparr> \<and> CandidateId args = int (me rf) \<and> rvTerm args = currentTerm rf"
  by (auto simp: startElection_begin_def bind_result_Inr_iff Let_def)

definition requests :: "'c Raft \<Rightarrow> nat \<Rightarrow> RequestVoteArgs \<Rightarrow> 'c packet list" where
  "requests rf ch args = map (\<lambda>si. RVCall (me rf) si ch args) (filter (\<lambda>si. si \<noteq> me rf) [0..<numPeers rf])"

lemma ballots_requests [simp]: "ballots (requests rf ch args) = requests rf ch args"
  by (auto simp: ballots_def requests_def filter_id_conv)

lemma estep_kinds:
  assumes "cstep s a = Some t"
  obtains
    (calm) "calm_step s a t"
  | (ask) i rf' args where "i < length (cpeers s)" "rvTerm args = currentTerm (cpeers s ! i)" "CandidateId args = int (me (cpeers s ! i))"
      "cpeers t = (cpeers s)[i := (cpeers s ! i)\<lparr>votedFor := int (me (cpeers s ! i)), votesGot := 1\<rparr>]"
      "ballots (cnet t) = ballots (cnet s) @ requests (cpeers s ! i) (cfresh s) args" "cfresh t = Suc (cfresh s)"
      "memos s a = {Asked (cfresh s) i args, Voted (currentTerm (cpeers s ! i)) i (int i)}"
      "startElection_begin (cpeers s ! i) = Inr (rf', args)"
  | (grant) src to ch args rf' reply sp where "to < length (cpeers s)" "RVCall src to ch args \<in> set (ballots (cnet s))"
      "cpeers t = (cpeers s)[to := rf']" "settled (cpeers s ! to) rf'" "VoteGranted reply" "rvrTerm reply = rvTerm args"
      "ballots (cnet t) = remove1 (RVCall src to ch args) (ballots (cnet s)) @ [RVReply src ch reply]"
      "cfresh t = Suc (cfresh s)" "memos s a = {Voted (rvTerm args) to (CandidateId args)}"
      "RequestVote (cpeers s ! to) args = (rf', reply, sp)"
  | (count) i ch reply where "i < length (cpeers s)" "RVReply i ch reply \<in> set (ballots (cnet s))" "VoteGranted reply"
      "cpeers t = (cpeers s)[i := fst (startElection_reply (cpeers s ! i) reply)]" "rvrTerm reply \<le> currentTerm (cpeers s ! i)"
      "ballots (cnet t) = remove1 (RVReply i ch reply) (ballots (cnet s))" "cfresh t = Suc (cfresh s)"
      "memos s a = insert (Counted (currentTerm (cpeers s ! i)) i (rvrTerm reply))
        (if snd (startElection_reply (cpeers s ! i) reply) = KeepWaiting then {} else {Won (currentTerm (cpeers s ! i)) i})"
proof (cases a)
  case (Tick i rt)
  let ?u = "s\<lparr>croutines := remove1 (i, rt) (croutines s)\<rparr>" and ?rf = "cpeers s ! i"
  obtain r where r: "i < length (cpeers s)" "run_tick ?rf (cfresh s) rt = Some r" "t = put_result ?u i r"
    using assms Tick by (auto split: if_splits)
  show thesis
  proof (cases r)
    case (Inl e)
    have "memos s a \<subseteq> range (\<lambda>(u, i). Strayed u i)"
      using r(2) by (cases rt) (auto simp: Tick Inl raft_defs bind_result_def split: sum.splits if_splits)
    then show thesis using calm [OF calm_same] r(3) by (simp add: Inl put_result_def)
  next
    case (Inr eff)
    obtain rf' rts pkts ms where eff: "eff = (rf', rts, pkts, ms)" using prod_cases4 by blast
    have t: "cpeers t = (cpeers s)[i := rf']" "cnet t = cnet s @ pkts" "cfresh t = Suc (cfresh s)"
      using r(3) by (simp_all add: Inr eff put_result_def put_effect_def)
    show thesis
    proof (cases "rt = ElectStart \<and> \<not> killed ?rf")
      case True
      then obtain rf1 args where b: "startElection_begin ?rf = Inr (rf1, args)" "rf1 = rf'" "pkts = requests ?rf (cfresh s) args"
        using r(2) by (auto simp: Inr eff startElection_start_def bind_result_Inr_iff requests_def dest: startElection_begin_eq)
      show thesis
        using ask [OF r(1), of args rf1] startElection_begin_eq [OF b(1)] b t True by (simp add: Tick)
    next
      case False
      have "memos s a \<subseteq> range (\<lambda>(u, i). Strayed u i)" using False by (cases rt) (auto simp: Tick)
      then show thesis
        using calm [OF calm_stepI [OF t(1) run_tick_settled(1)]] run_tick_settled(2) [of ?rf] r(2) t(2,3) False
        by (auto simp: Inr eff)
    qed
  qed
next
  case (Input i rt inp)
  let ?ps = "case taken_packet i rt inp of None \<Rightarrow> cnet s | Some p \<Rightarrow> remove1 p (cnet s)" and ?rf = "cpeers s ! i"
  obtain rf' rts pkts ms where r: "i < length (cpeers s)" "run_input ?rf rt inp = Some (rf', rts, pkts, ms)"
    "t = put_effect (s\<lparr>croutines := remove1 (i, rt) (croutines s), cnet := ?ps\<rparr>) i (rf', rts, pkts, ms)"
    "case taken_packet i rt inp of None \<Rightarrow> True | Some p \<Rightarrow> p \<in> set (cnet s)"
    using assms Input by (auto split: if_splits)
  have t: "cpeers t = (cpeers s)[i := rf']" "cnet t = ?ps @ pkts" "cfresh t = Suc (cfresh s)"
    using r(3) by (simp_all add: put_effect_def)
  show thesis
  proof (cases "\<exists>c reply. rt = ElectSelect c \<and> inp = VoteIn reply \<and> VoteGranted reply \<and> rvrTerm reply \<le> currentTerm ?rf")
    case True
    then obtain c reply where e: "rt = ElectSelect c" "inp = VoteIn reply" "VoteGranted reply" "rvrTerm reply \<le> currentTerm ?rf" by blast
    have "rf' = fst (startElection_reply ?rf reply)" "pkts = []"
      using r(2) by (auto simp: e split: prod.splits election_outcome.splits)
    then show thesis
      using count [OF r(1), of c reply] t r(4) e by (simp add: Input in_ballots ballots_remove1)
  next
    case False
    have "memos s a \<subseteq> range (\<lambda>(u, i). Strayed u i)" using False by (cases rt; cases inp) (auto simp: Input)
    moreover have "settled ?rf rf'" "pkts = []" using run_input_settled [OF r(2)] False by blast+
    moreover have "\<exists>p. ballots ?ps = remove1 p (ballots (cnet s)) \<or> ballots ?ps = ballots (cnet s)"
      using ballots_fewer [of _ "cnet s"] by (cases "taken_packet i rt inp") auto
    ultimately show thesis using calm [OF calm_stepI [OF t(1)]] t(2,3) by simp
  qed
next
  case (DeliverCall p)
  let ?i = "packet_to p"
  obtain r where r: "p \<in> set (cnet s)" "?i < length (cpeers s)" "deliver_call (cpeers s ! ?i) p = Some r"
    "t = put_result (s\<lparr>cnet := remove1 p (cnet s)\<rparr>) ?i r"
    using assms DeliverCall by (auto split: if_splits)
  show thesis
  proof (cases p)
    case (RVCall src to ch args)
    obtain rf' reply sp where v: "RequestVote (cpeers s ! to) args = (rf', reply, sp)" using prod_cases3 by blast
    have t: "cpeers t = (cpeers s)[to := rf']" "cnet t = remove1 p (cnet s) @ [RVReply src ch reply]" "cfresh t = Suc (cfresh s)"
      using r(3,4) by (auto simp: RVCall v put_result_def put_effect_def split: if_splits)
    note V = RequestVote_returns [OF v]
    have to: "to < length (cpeers s)" using r(2) by (simp add: RVCall)
    show thesis
    proof (cases "VoteGranted reply")
      case True
      then have "rvrTerm reply = rvTerm args" using V(1,3,4) by simp
      then show thesis
        using grant [OF to _ t(1) RequestVote_settled [OF v] True] t r(1) True v
        by (simp add: DeliverCall RVCall in_ballots ballots_remove1)
    next
      case False
      then show thesis
        using calm [OF calm_stepI [OF t(1) RequestVote_settled [OF v]]] t v by (auto simp: DeliverCall RVCall ballots_remove1)
    qed
  next
    case (AECall src to ch args)
    have m: "memos s a = {}" by (simp add: DeliverCall AECall)
    show thesis
    proof (cases r)
      case (Inl e)
      then show thesis using calm [OF calm_same] r(4) m by (simp add: put_result_def AECall ballots_remove1)
    next
      case (Inr eff)
      obtain rf' rts pkts ms where eff: "eff = (rf', rts, pkts, ms)" using prod_cases4 by blast
      have "settled (cpeers s ! to) rf'" "ballots pkts = []"
        using r(3) by (auto simp: Inr eff AECall bind_result_Inr_iff split: if_splits dest: AppendEntries_settled)
      moreover have "cpeers t = (cpeers s)[to := rf']" "cnet t = remove1 p (cnet s) @ pkts" "cfresh t = Suc (cfresh s)"
        using r(4) by (simp_all add: Inr eff AECall put_result_def put_effect_def)
      ultimately show thesis using calm [OF calm_stepI] m by (simp add: AECall ballots_remove1)
    qed
  qed (use r(3) in auto)
next
  case (Lose p)
  then have "t = s\<lparr>cnet := remove1 p (cnet s)\<rparr>" using assms by (simp split: if_splits)
  then show thesis using calm [OF calm_same] ballots_fewer [of p "cnet s"] Lose by simp
next
  case (ClientStart i command)
  then show thesis using assms calm [OF calm_same] by (auto split: if_splits)
next
  case (KillPeer i)
  then show thesis
    using assms calm [OF calm_stepI [of t s i "raft_Kill (cpeers s ! i)"]] by (auto simp: raft_Kill_def settled_def split: if_splits)
qed

subsection \<open>The votes behind a candidate\<close>

text \<open>
  \<open>backers N ps i ch a\<close> are the peers whose vote the election on channel \<open>ch\<close> has, or had, under way: they voted, and the request
  to them is no longer in the network.
\<close>

definition backers :: "memo set \<Rightarrow> 'c packet list \<Rightarrow> nat \<Rightarrow> nat \<Rightarrow> RequestVoteArgs \<Rightarrow> nat set" where
  "backers N ps i ch args = {v. v \<noteq> i \<and> Voted (rvTerm args) v (int i) \<in> N \<and> RVCall i v ch args \<notin> set ps}"

fun vote_on :: "nat \<Rightarrow> nat \<Rightarrow> 'c packet \<Rightarrow> bool" where
  "vote_on i ch (RVReply j dh _) \<longleftrightarrow> j = i \<and> dh = ch"
| "vote_on i ch _ \<longleftrightarrow> False"

definition pending :: "'c packet list \<Rightarrow> nat \<Rightarrow> nat \<Rightarrow> nat" where
  "pending ps i ch = length (filter (vote_on i ch) ps)"

definition elections_ok :: "nat \<Rightarrow> 'c cluster \<Rightarrow> memo set \<Rightarrow> bool" where
  "elections_ok n s N \<longleftrightarrow>
     (\<forall>ch i a. Asked ch i a \<in> N \<longrightarrow> ch < cfresh s \<and> i < n \<and> CandidateId a = int i \<and> rvTerm a \<le> currentTerm (cpeers s ! i) \<and>
        Voted (rvTerm a) i (int i) \<in> N) \<and>
     (\<forall>ch i a j b. Asked ch i a \<in> N \<longrightarrow> Asked ch j b \<in> N \<longrightarrow> i = j \<and> a = b) \<and>
     (\<forall>u v c. Voted u v c \<in> N \<longrightarrow> v < n)"

definition network_ok :: "'c packet list \<Rightarrow> memo set \<Rightarrow> bool" where
  "network_ok ps N \<longleftrightarrow> distinct (filter (\<lambda>p. \<exists>i v ch a. p = RVCall i v ch a) ps) \<and>
     (\<forall>i v ch a. RVCall i v ch a \<in> set ps \<longrightarrow> Asked ch i a \<in> N \<and> v \<noteq> i) \<and>
     (\<forall>i ch r. RVReply i ch r \<in> set ps \<longrightarrow> (\<exists>a. Asked ch i a \<in> N \<and> rvrTerm r = rvTerm a))"

definition counts_ok :: "'c cluster \<Rightarrow> memo set \<Rightarrow> bool" where
  "counts_ok s N \<longleftrightarrow> (\<forall>ch i a. Asked ch i a \<in> N \<longrightarrow> rvTerm a = currentTerm (cpeers s ! i) \<longrightarrow>
     votesGot (cpeers s ! i) + int (pending (ballots (cnet s)) i ch) \<le> 1 + int (card (backers N (ballots (cnet s)) i ch a)))"

definition leaders_ok :: "nat \<Rightarrow> 'c cluster \<Rightarrow> memo set \<Rightarrow> bool" where
  "leaders_ok n s N \<longleftrightarrow>
     (\<forall>u i. Won u i \<in> N \<longrightarrow> (\<exists>Q. majority n Q \<and> (\<forall>v \<in> Q. Voted u v (int i) \<in> N))) \<and>
     (\<forall>i < n. rstate (cpeers s ! i) = LEADER \<longrightarrow> Won (currentTerm (cpeers s ! i)) i \<in> N)"

lemma elections_okD:
  assumes "elections_ok n s N"
  shows "Asked ch i a \<in> N \<Longrightarrow> ch < cfresh s \<and> i < n \<and> CandidateId a = int i \<and> rvTerm a \<le> currentTerm (cpeers s ! i) \<and>
        Voted (rvTerm a) i (int i) \<in> N"
    "Asked ch i a \<in> N \<Longrightarrow> Asked ch j b \<in> N \<Longrightarrow> i = j \<and> a = b" "Voted u v c \<in> N \<Longrightarrow> v < n"
  using assms unfolding elections_ok_def by blast+

lemma network_okD:
  assumes "network_ok ps N"
  shows "RVCall i v ch a \<in> set ps \<Longrightarrow> Asked ch i a \<in> N \<and> v \<noteq> i"
    "RVReply i ch r \<in> set ps \<Longrightarrow> \<exists>a. Asked ch i a \<in> N \<and> rvrTerm r = rvTerm a"
  using assms unfolding network_ok_def by blast+

lemma remove1_once: "distinct (filter P xs) \<Longrightarrow> P x \<Longrightarrow> x \<notin> set (remove1 x xs)"
  by (induction xs) (auto split: if_splits)

lemma pending_simps [simp]:
  "pending (ps @ qs) i ch = pending ps i ch + pending qs i ch" "pending [] i ch = 0"
  "pending (p # ps) i ch = (if vote_on i ch p then Suc (pending ps i ch) else pending ps i ch)"
  by (simp_all add: pending_def)

lemma pending_remove1: "pending (remove1 p ps) i ch = (if p \<in> set ps \<and> vote_on i ch p then pending ps i ch - 1 else pending ps i ch)"
  by (auto simp: pending_def filter_remove1 length_remove1)

lemma pending_pos: "RVReply i ch r \<in> set ps \<Longrightarrow> 0 < pending ps i ch"
  by (induction ps) auto

lemma pending_remove1_le: "pending (remove1 p ps) i ch \<le> pending ps i ch"
  by (simp add: pending_remove1)

lemma pending_requests [simp]: "pending (requests rf dh args) i ch = 0"
  by (auto simp: pending_def requests_def filter_empty_conv)

lemma backers_finite: "elections_ok n s N \<Longrightarrow> finite (backers N ps i ch a)"
  by (rule finite_subset [of _ "{..<n}"]) (unfold backers_def elections_ok_def, blast, simp)

lemma backers_mono:
  "N \<subseteq> N' \<Longrightarrow> (\<And>v. RVCall i v ch a \<in> set ps' \<Longrightarrow> RVCall i v ch a \<in> set ps) \<Longrightarrow> backers N ps i ch a \<subseteq> backers N' ps' i ch a"
  by (auto simp: backers_def)

lemma calm_memos:
  assumes "calm_step s a t"
  shows "Asked ch i b \<in> N \<union> memos s a \<longleftrightarrow> Asked ch i b \<in> N" "Voted u v c \<in> N \<union> memos s a \<longleftrightarrow> Voted u v c \<in> N"
    "Won u i \<in> N \<union> memos s a \<longleftrightarrow> Won u i \<in> N"
  using assms by (auto simp: calm_step_def)

lemma elections_ok_step:
  assumes inv: "elections_ok n s N" and st: "cstep s a = Some t" and sh: "shape n zero s" and net: "network_ok (ballots (cnet s)) N"
    and tm: "\<And>i. i < n \<Longrightarrow> currentTerm (cpeers s ! i) \<le> currentTerm (cpeers t ! i)"
  shows "elections_ok n t (N \<union> memos s a)"
proof -
  have len: "length (cpeers s) = n" and me: "\<And>i. i < n \<Longrightarrow> me (cpeers s ! i) = i"
    using sh by (auto simp: shape_def peer_shape_def)
  have old: "ch < cfresh s \<and> i < n \<and> CandidateId b = int i \<and> rvTerm b \<le> currentTerm (cpeers t ! i) \<and> Voted (rvTerm b) i (int i) \<in> N"
    if "Asked ch i b \<in> N" for ch i b
    using inv tm [of i] that by (force simp: elections_ok_def)
  have one: "i = j \<and> b = c" if "Asked ch i b \<in> N" "Asked ch j c \<in> N" for ch i j b c
    using inv that unfolding elections_ok_def by blast
  have voter: "v < n" if "Voted u v c \<in> N" for u v c using inv that unfolding elections_ok_def by blast
  show ?thesis
    using st
  proof (cases rule: estep_kinds)
    case calm
    then have "cfresh s \<le> cfresh t" by (simp add: calm_step_def)
    then show ?thesis
      unfolding elections_ok_def calm_memos [OF calm] using old one voter by (meson order_less_le_trans)
  next
    case (ask i rf0 args)
    have t: "currentTerm (cpeers t ! i) = currentTerm (cpeers s ! i)" "i < n" using ask(1,4) len by simp_all
    have "dh \<noteq> cfresh s" if "Asked dh j b \<in> N" for dh j b using old [OF that] by simp
    then show ?thesis
      unfolding elections_ok_def ask(6,7) using old one voter t ask(2,3) me [of i] by (auto simp: less_Suc_eq)
  next
    case (grant src to ch args rf' reply sp)
    show ?thesis
      unfolding elections_ok_def grant(8,9) using old one voter grant(1) len by (auto simp: less_Suc_eq)
  next
    case (count i ch reply)
    show ?thesis
      unfolding elections_ok_def count(7,8) using old one voter by (auto simp: less_Suc_eq)
  qed
qed

lemma network_ok_subset:
  assumes "network_ok ps N" "N \<subseteq> N'"
  shows "network_ok (remove1 p ps) N'" "network_ok ps N'"
proof -
  let ?c = "\<lambda>p. \<exists>i v ch a. p = RVCall i v ch a"
  have "distinct (filter ?c (remove1 p ps))"
    using assms(1) by (cases "?c p") (auto simp: network_ok_def filter_remove1 distinct_remove1)
  then show "network_ok (remove1 p ps) N'" "network_ok ps N'"
    using assms set_remove1_subset [of p ps] unfolding network_ok_def by (blast+)
qed

lemma network_ok_reply:
  "network_ok ps N \<Longrightarrow> Asked ch i a \<in> N \<Longrightarrow> rvrTerm r = rvTerm a \<Longrightarrow> network_ok (ps @ [RVReply i ch r]) N"
  by (auto simp: network_ok_def)

lemma network_ok_step:
  assumes inv: "network_ok (ballots (cnet s)) N" and st: "cstep s a = Some t" and sh: "shape n zero s" and el: "elections_ok n s N"
  shows "network_ok (ballots (cnet t)) (N \<union> memos s a)"
  using st
proof (cases rule: estep_kinds)
  case calm
  then show ?thesis using network_ok_subset [OF inv, of "N \<union> memos s a"] by (auto simp: calm_step_def)
next
  case (ask i rf0 args)
  let ?rs = "requests (cpeers s ! i) (cfresh s) args" and ?c = "\<lambda>p. \<exists>i v ch a. p = RVCall i v ch a"
  have me: "me (cpeers s ! i) = i" using sh ask(1) by (auto simp: shape_def peer_shape_def)
  have fresh: "RVCall j v (cfresh s) b \<notin> set (ballots (cnet s))" for j v b
    using inv el by (fastforce simp: network_ok_def elections_ok_def)
  have "distinct ?rs" by (auto simp: requests_def distinct_map inj_on_def)
  moreover have "set ?rs \<inter> set (ballots (cnet s)) = {}" using fresh by (auto simp: requests_def)
  moreover have "filter ?c ?rs = ?rs" by (auto simp: requests_def filter_id_conv)
  ultimately have 1: "distinct (filter ?c (ballots (cnet s) @ ?rs))" using inv by (auto simp: network_ok_def)
  have 2: "Asked dh j b \<in> N \<union> memos s a \<and> v \<noteq> j" if "RVCall j v dh b \<in> set (ballots (cnet s) @ ?rs)" for j v dh b
  proof (cases "RVCall j v dh b \<in> set ?rs")
    case True
    then show ?thesis using me ask(7) by (auto simp: requests_def)
  next
    case False
    then have "RVCall j v dh b \<in> set (ballots (cnet s))" using that by simp
    then show ?thesis using inv unfolding network_ok_def by blast
  qed
  have 3: "\<exists>b. Asked dh j b \<in> N \<union> memos s a \<and> rvrTerm r = rvTerm b" if "RVReply j dh r \<in> set (ballots (cnet s) @ ?rs)" for j dh r
  proof -
    have "RVReply j dh r \<in> set (ballots (cnet s))" using that by (auto simp: requests_def)
    then show ?thesis using inv unfolding network_ok_def by blast
  qed
  show ?thesis unfolding network_ok_def ask(5) using 1 2 3 by blast
next
  case (grant src to ch args rf' reply sp)
  have a: "Asked ch src args \<in> N" using inv grant(2) unfolding network_ok_def by blast
  have "network_ok (remove1 (RVCall src to ch args) (ballots (cnet s))) (N \<union> memos s a)"
    by (rule network_ok_subset [OF inv]) simp
  from network_ok_reply [OF this _ grant(6)] a show ?thesis by (simp add: grant(7))
next
  case (count i ch reply)
  show ?thesis unfolding count(6) by (rule network_ok_subset(1) [OF inv]) simp
qed

lemma counts_ok_step:
  assumes inv: "counts_ok s N" and st: "cstep s a = Some t" and sh: "shape n zero s"
    and el: "elections_ok n s N" and net: "network_ok (ballots (cnet s)) N" and el': "elections_ok n t (N \<union> memos s a)"
    and tm: "\<And>i. i < n \<Longrightarrow> currentTerm (cpeers s ! i) \<le> currentTerm (cpeers t ! i)"
    and one: "one_election (N \<union> memos s a)" and fresh: "fresh_votes (N \<union> memos s a)"
  shows "counts_ok t (N \<union> memos s a)"
  unfolding counts_ok_def
proof (intro allI impI)
  fix dh j b
  assume asked: "Asked dh j b \<in> N \<union> memos s a" and now: "rvTerm b = currentTerm (cpeers t ! j)"
  let ?N = "N \<union> memos s a"
  have len: "length (cpeers s) = n" using sh by (simp add: shape_def)
  have me: "me (cpeers s ! i) = i" if "i < n" for i using sh that by (simp add: shape_def peer_shape_def)
  have old: "dh < cfresh s" "j < n" "rvTerm b = currentTerm (cpeers s ! j)"
    "votesGot (cpeers s ! j) + int (pending (ballots (cnet s)) j dh) \<le> 1 + int (card (backers N (ballots (cnet s)) j dh b))"
    if "Asked dh j b \<in> N"
  proof -
    have d: "dh < cfresh s" "j < n" "rvTerm b \<le> currentTerm (cpeers s ! j)" using el that by (auto simp: elections_ok_def)
    then show "dh < cfresh s" "j < n" "rvTerm b = currentTerm (cpeers s ! j)" using tm [of j] now by auto
    then show "votesGot (cpeers s ! j) + int (pending (ballots (cnet s)) j dh) \<le> 1 + int (card (backers N (ballots (cnet s)) j dh b))"
      using inv that by (simp add: counts_ok_def)
  qed
  have more: "card (backers N (ballots (cnet s)) j dh b) \<le> card (backers ?N ps j dh b)"
    if "\<And>v. RVCall j v dh b \<in> set ps \<Longrightarrow> RVCall j v dh b \<in> set (ballots (cnet s))" for ps :: "'a packet list"
    by (rule card_mono [OF backers_finite [OF el'] backers_mono]) (use that in auto)
  show "votesGot (cpeers t ! j) + int (pending (ballots (cnet t)) j dh) \<le> 1 + int (card (backers ?N (ballots (cnet t)) j dh b))"
    using st
  proof (cases rule: estep_kinds)
    case calm
    have o: "Asked dh j b \<in> N" using asked calm_memos(1) [OF calm] by blast
    obtain p where p: "ballots (cnet t) = remove1 p (ballots (cnet s)) \<or> ballots (cnet t) = ballots (cnet s)"
      using calm by (auto simp: calm_step_def)
    then have "pending (ballots (cnet t)) j dh \<le> pending (ballots (cnet s)) j dh" by (auto simp: pending_remove1)
    moreover have "votesGot (cpeers t ! j) = votesGot (cpeers s ! j)"
      using calm old(2) [OF o] len by (simp add: calm_step_def settled_def)
    moreover have "card (backers N (ballots (cnet s)) j dh b) \<le> card (backers ?N (ballots (cnet t)) j dh b)"
      by (rule more) (use p in \<open>auto dest: subsetD [OF set_remove1_subset]\<close>)
    ultimately show ?thesis using old(4) [OF o] by linarith
  next
    case (ask i rf0 args)
    show ?thesis
    proof (cases "Asked dh j b \<in> N")
      case True
      have "j \<noteq> i"
      proof
        assume "j = i"
        then have "rvTerm b = rvTerm args" using old(3) [OF True] ask(2) by simp
        then have "dh = cfresh s" using one True \<open>j = i\<close> unfolding one_election_def ask(7) by blast
        then show False using old(1) [OF True] by simp
      qed
      moreover have "card (backers N (ballots (cnet s)) j dh b) \<le> card (backers ?N (ballots (cnet t)) j dh b)"
        by (rule more) (use ask(5) old(1) [OF True] in \<open>auto simp: requests_def\<close>)
      ultimately show ?thesis using old(4) [OF True] by (simp add: ask(4,5))
    next
      case False
      then have b: "dh = cfresh s" "j = i" using asked ask(7) by auto
      have "\<not> vote_on i (cfresh s) p" if p: "p \<in> set (ballots (cnet s))" for p
      proof
        assume "vote_on i (cfresh s) p"
        then obtain r where "RVReply i (cfresh s) r \<in> set (ballots (cnet s))" using p by (cases p) auto
        then show False using network_okD(2) [OF net] elections_okD(1) [OF el] by blast
      qed
      then have "pending (ballots (cnet s)) i (cfresh s) = 0" by (auto simp: pending_def filter_empty_conv)
      then show ?thesis using ask(1) by (simp add: b ask(4,5))
    qed
  next
    case (grant src to ch args rf' reply sp)
    have o: "Asked dh j b \<in> N" using asked grant(9) by simp
    have v: "votesGot (cpeers t ! j) = votesGot (cpeers s ! j)"
      using grant(1,3,4) by (cases "j = to") (auto simp: settled_def)
    have call: "Asked ch src args \<in> N" "to \<noteq> src" using network_okD(1) [OF net grant(2)] by blast+
    show ?thesis
    proof (cases "j = src \<and> dh = ch")
      case True
      then have b: "b = args" using elections_okD(2) [OF el] call o by blast
      have "distinct (filter (\<lambda>p. \<exists>i v ch a. p = RVCall i v ch a) (ballots (cnet s)))" using net by (simp add: network_ok_def)
      then have gone: "RVCall src to ch args \<notin> set (remove1 (RVCall src to ch args) (ballots (cnet s)))"
        by (rule remove1_once) blast
      have "CandidateId args = int src" using elections_okD(1) [OF el] call by blast
      then have "insert to (backers N (ballots (cnet s)) src ch args) \<subseteq> backers ?N (ballots (cnet t)) src ch args"
        using gone call(2) by (auto simp: backers_def grant(7,9) dest: subsetD [OF set_remove1_subset])
      moreover have "to \<notin> backers N (ballots (cnet s)) src ch args" using grant(2) by (simp add: backers_def)
      ultimately have "Suc (card (backers N (ballots (cnet s)) src ch args)) \<le> card (backers ?N (ballots (cnet t)) src ch args)"
        using card_mono [OF backers_finite [OF el'], of "insert to (backers N (ballots (cnet s)) src ch args)"
            "ballots (cnet t)" src ch args] backers_finite [OF el, of "ballots (cnet s)"] by simp
      then show ?thesis using old(4) [OF o] v True b by (simp add: grant(7) pending_remove1)
    next
      case False
      have "card (backers N (ballots (cnet s)) j dh b) \<le> card (backers ?N (ballots (cnet t)) j dh b)"
        by (rule more) (use grant(7) in \<open>auto dest: subsetD [OF set_remove1_subset]\<close>)
      then show ?thesis using old(4) [OF o] v False by (auto simp: grant(7) pending_remove1)
    qed
  next
    case (count i ch reply)
    have o: "Asked dh j b \<in> N" using asked count(8) by (auto split: if_splits)
    have c: "card (backers N (ballots (cnet s)) j dh b) \<le> card (backers ?N (ballots (cnet t)) j dh b)"
      by (rule more) (use count(6) in \<open>auto dest: subsetD [OF set_remove1_subset]\<close>)
    show ?thesis
    proof (cases "j = i")
      case True
      obtain a0 where a0: "Asked ch i a0 \<in> N" "rvrTerm reply = rvTerm a0" using network_okD(2) [OF net count(2)] by blast
      have "rvrTerm reply = currentTerm (cpeers s ! i)" using fresh unfolding fresh_votes_def count(8) by blast
      then have "dh = ch" using one o a0 old(3) [OF o] True unfolding one_election_def by (metis UnI1)
      moreover have "0 < pending (ballots (cnet s)) i ch" by (rule pending_pos [OF count(2)])
      moreover have "votesGot (cpeers t ! i) = votesGot (cpeers s ! i) + 1"
        using count(1,3,5) by (simp add: count(4) startElection_reply_def Let_def)
      ultimately show ?thesis using old(4) [OF o] c count(2) True by (simp add: count(6) pending_remove1)
    next
      case False
      then show ?thesis using old(4) [OF o] c by (simp add: count(4,6) pending_remove1)
    qed
  qed
qed

lemma startElection_reply_lead:
  assumes "startElection_reply rf reply = (rf', out)" "VoteGranted reply" "rvrTerm reply \<le> currentTerm rf"
  shows "currentTerm rf' = currentTerm rf" "out = KeepWaiting \<Longrightarrow> rstate rf' = rstate rf"
    "out \<noteq> KeepWaiting \<Longrightarrow> int (numPeers rf div 2) < votesGot rf + 1"
  using assms by (auto simp: startElection_reply_def isElected_def Let_def split: if_splits)

lemma leaders_ok_step:
  assumes inv: "leaders_ok n s N" and st: "cstep s a = Some t" and sh: "shape n zero s"
    and el: "elections_ok n s N" and net: "network_ok (ballots (cnet s)) N" and counts: "counts_ok s N"
    and fresh: "fresh_votes (N \<union> memos s a)"
  shows "leaders_ok n t (N \<union> memos s a)"
proof -
  let ?N = "N \<union> memos s a"
  have len: "length (cpeers s) = n" using sh by (simp add: shape_def)
  have num: "numPeers (cpeers s ! i) = n" if "i < n" for i using sh that by (simp add: shape_def peer_shape_def)
  have behind: "\<exists>Q. majority n Q \<and> (\<forall>v \<in> Q. Voted u v (int i) \<in> ?N)" if "Won u i \<in> N" for u i
    using inv that unfolding leaders_ok_def by (meson UnI1)
  have leads: "Won (currentTerm (cpeers s ! i)) i \<in> N" if "i < n" "rstate (cpeers s ! i) = LEADER" for i
    using inv that by (simp add: leaders_ok_def)
  show ?thesis
    using st
  proof (cases rule: estep_kinds)
    case calm
    have "Won (currentTerm (cpeers t ! i)) i \<in> N" if "i < n" "rstate (cpeers t ! i) = LEADER" for i
      using calm that leads [of i] len by (auto simp: calm_step_def settled_def)
    then show ?thesis unfolding leaders_ok_def calm_memos(3) [OF calm] using behind by blast
  next
    case (ask i rf0 args)
    have "Won (currentTerm (cpeers t ! j)) j \<in> N" if "j < n" "rstate (cpeers t ! j) = LEADER" for j
      using that leads [of j] ask(1) by (cases "j = i") (simp_all add: ask(4))
    then show ?thesis unfolding leaders_ok_def using behind ask(7) by auto
  next
    case (grant src to ch args rf' reply sp)
    have "Won (currentTerm (cpeers t ! j)) j \<in> N" if "j < n" "rstate (cpeers t ! j) = LEADER" for j
      using that leads [of j] grant(1,4) by (cases "j = to") (auto simp: grant(3) settled_def)
    then show ?thesis unfolding leaders_ok_def using behind grant(9) by auto
  next
    case (count i ch reply)
    let ?rf = "cpeers s ! i"
    obtain rf' out where e: "startElection_reply ?rf reply = (rf', out)" by fastforce
    note lead = startElection_reply_lead [OF e count(3,5)]
    have i: "i < n" "rvrTerm reply = currentTerm ?rf"
      using count(1) len fresh unfolding fresh_votes_def count(8) by (simp, blast)
    have won: "\<exists>Q. majority n Q \<and> (\<forall>v \<in> Q. Voted (currentTerm ?rf) v (int i) \<in> ?N)" if o: "out \<noteq> KeepWaiting"
    proof -
      obtain b where b: "Asked ch i b \<in> N" "rvTerm b = currentTerm ?rf" using network_okD(2) [OF net count(2)] i(2) by auto
      let ?B = "backers N (ballots (cnet s)) i ch b"
      have "0 < pending (ballots (cnet s)) i ch" by (rule pending_pos [OF count(2)])
      moreover have "votesGot ?rf + int (pending (ballots (cnet s)) i ch) \<le> 1 + int (card ?B)"
        using counts b by (simp add: counts_ok_def)
      ultimately have "int (n div 2) < 1 + int (card ?B)" using lead(3) [OF o] num [OF i(1)] by simp
      moreover have "card (insert i ?B) = Suc (card ?B)" using backers_finite [OF el, of "ballots (cnet s)" i ch b] by (simp add: backers_def)
      moreover have B: "Voted (currentTerm ?rf) v (int i) \<in> N" if "v \<in> insert i ?B" for v
        using that b elections_okD(1) [OF el b(1)] by (auto simp: backers_def)
      moreover have "insert i ?B \<subseteq> {..<n}" using B elections_okD(3) [OF el] by auto
      ultimately have "majority n (insert i ?B)" by (simp add: majority_def)
      then show ?thesis using B by blast
    qed
    have "Won (currentTerm (cpeers t ! j)) j \<in> ?N" if "j < n" "rstate (cpeers t ! j) = LEADER" for j
    proof (cases "j = i")
      case True
      then show ?thesis
        using that leads [of i] lead(1,2) count(1,8) e by (cases "out = KeepWaiting") (simp_all add: count(4))
    next
      case False
      then show ?thesis using that leads [of j] by (simp add: count(4))
    qed
    moreover have "Won u j \<in> ?N \<Longrightarrow> Won u j \<in> N \<or> (out \<noteq> KeepWaiting \<and> u = currentTerm ?rf \<and> j = i)" for u j
      using count(8) e by (auto split: if_splits)
    ultimately show ?thesis unfolding leaders_ok_def using behind won by blast
  qed
qed

lemma ereach_elections:
  assumes "ereach n zero s W N" "one_election N" "fresh_votes N"
  shows "elections_ok n s N \<and> network_ok (ballots (cnet s)) N \<and> counts_ok s N \<and> leaders_ok n s N"
  using assms
proof (induction rule: ereach.induct)
  case start
  show ?case
    by (simp add: elections_ok_def network_ok_def counts_ok_def leaders_ok_def cluster_init_def raft_Make_def)
next
  case (step s W N a t)
  have before: "one_election N" "fresh_votes N" using step.prems unfolding one_election_def fresh_votes_def by blast+
  have c: "creach n zero s W" by (rule ereach_creach [OF step.hyps(1)])
  have sh: "shape n zero s" by (rule creach_shape [OF c])
  have tm: "currentTerm (cpeers s ! i) \<le> currentTerm (cpeers t ! i)" if "i < n" for i
    by (rule raft_terms_never_decrease [OF c step.hyps(2) that])
  have ih: "elections_ok n s N" "network_ok (ballots (cnet s)) N" "counts_ok s N" "leaders_ok n s N"
    using step.IH [OF before] by blast+
  have el: "elections_ok n t (N \<union> memos s a)" by (rule elections_ok_step [OF ih(1) step.hyps(2) sh ih(2) tm])
  have "network_ok (ballots (cnet t)) (N \<union> memos s a)" by (rule network_ok_step [OF ih(2) step.hyps(2) sh ih(1)])
  moreover have "counts_ok t (N \<union> memos s a)" by (rule counts_ok_step [OF ih(3) step.hyps(2) sh ih(1,2) el tm step.prems])
  moreover have "leaders_ok n t (N \<union> memos s a)" by (rule leaders_ok_step [OF ih(4) step.hyps(2) sh ih(1-3) step.prems(2)])
  ultimately show ?case using el by blast
qed

subsection \<open>At most one leader in a term\<close>

lemma winners_agree:
  assumes "leaders_ok n s N" "one_vote N" "Won u i \<in> N" "Won u j \<in> N"
  shows "i = j"
proof -
  obtain Q where Q: "majority n Q" "\<forall>v \<in> Q. Voted u v (int i) \<in> N" using assms(1,3) unfolding leaders_ok_def by blast
  obtain R where R: "majority n R" "\<forall>v \<in> R. Voted u v (int j) \<in> N" using assms(1,4) unfolding leaders_ok_def by blast
  obtain v where "v \<in> Q" "v \<in> R" by (rule maj.common_member [OF Q(1) R(1)])
  then have "int i = int j" using Q(2) R(2) assms(2) unfolding one_vote_def by blast
  then show ?thesis by simp
qed

lemma writers_won:
  assumes "ereach n zero s W N" "one_election N" "fresh_votes N" "no_strays N"
  shows "(u, p) \<in> W \<Longrightarrow> Won u p \<in> N"
  using assms
proof (induction arbitrary: u p rule: ereach.induct)
  case (step s W N a t)
  have before: "one_election N" "fresh_votes N" "no_strays N"
    using step.prems unfolding one_election_def fresh_votes_def no_strays_def by blast+
  show ?case
  proof (cases "(u, p) \<in> W")
    case True
    then show ?thesis using step.IH before by blast
  next
    case False
    then have w: "(u, p) \<in> writers s a" using step.prems(1) by blast
    then obtain rt where a: "a = Tick p rt" by (cases "(s, a)" rule: writers.cases) (auto split: if_splits)
    have "p < length (cpeers s)" using step.hyps(2) a by (auto split: if_splits)
    then have p: "p < n" using creach_shape [OF ereach_creach [OF step.hyps(1)]] by (simp add: shape_def)
    have "rstate (cpeers s ! p) = LEADER \<and> u = currentTerm (cpeers s ! p)"
      using w a step.prems(4) by (cases rt) (auto simp: no_strays_def split: if_splits)
    moreover have "leaders_ok n s N" using ereach_elections [OF step.hyps(1) before(1,2)] by blast
    ultimately show ?thesis using p by (simp add: leaders_ok_def)
  qed
qed simp

text \<open>
  C2: Election safety. In a run in which no peer votes for two candidates in a term or holds two elections in a term, and votes
  are counted in the term they were given for, no two peers win an election of the same term, and no two peers are leaders of the
  same term.
\<close>

theorem raft_one_leader_per_term:
  assumes "ereach n zero s W N" "one_vote N" "one_election N" "fresh_votes N"
  shows "(Won u i \<in> N \<and> Won u j \<in> N \<longrightarrow> i = j) \<and>
    (i < n \<and> j < n \<and> GetState (cpeers s ! i) = (u, True) \<and> GetState (cpeers s ! j) = (u, True) \<longrightarrow> i = j)"
proof -
  have lead: "leaders_ok n s N" using ereach_elections [OF assms(1,3,4)] by blast
  have same: "i = j" if w: "Won u i \<in> N" "Won u j \<in> N" for i j u
    using winners_agree [OF lead assms(2) w] .
  have "i = j" if "i < n" "j < n" "GetState (cpeers s ! i) = (u, True)" "GetState (cpeers s ! j) = (u, True)"
  proof -
    have "Won u i \<in> N" "Won u j \<in> N" using lead that by (auto simp: leaders_ok_def GetState_def)
    then show ?thesis by (rule same)
  qed
  then show ?thesis using same by blast
qed

text \<open>
  C8: Log matching from elections. If moreover \<^verbatim>\<open>Start\<close> never appends after the lead is lost, no two peers write in the same
  term, and two logs that have entries of the same term at the same position are equal up to there.
\<close>

theorem raft_elections_give_log_matching:
  assumes "ereach n zero s W N" "one_vote N" "one_election N" "fresh_votes N" "no_strays N" "i < n" "j < n"
    "k < length (rlog (cpeers s ! i))" "k < length (rlog (cpeers s ! j))"
    "eTerm (rlog (cpeers s ! i) ! k) = eTerm (rlog (cpeers s ! j) ! k)"
  shows "one_writer W \<and> take (Suc k) (rlog (cpeers s ! i)) = take (Suc k) (rlog (cpeers s ! j))"
proof -
  have lead: "leaders_ok n s N" using ereach_elections [OF assms(1,3,4)] by blast
  have "Won u p \<in> N" if "(u, p) \<in> W" for u p using writers_won [OF assms(1,3-5)] that by blast
  then have one: "one_writer W" using winners_agree [OF lead assms(2)] unfolding one_writer_def by blast
  then show ?thesis using logs_match [OF ereach_creach [OF assms(1)] one assms(6-10)] by blast
qed

subsection \<open>Runs\<close>

fun all_memos :: "'c cluster \<Rightarrow> 'c act list \<Rightarrow> memo set" where
  "all_memos s [] = {}"
| "all_memos s (a # as) = memos s a \<union> (case cstep s a of None \<Rightarrow> {} | Some t \<Rightarrow> all_memos t as)"

lemma csteps_ereach:
  "csteps s as = Some t \<Longrightarrow> ereach n zero s W N \<Longrightarrow> ereach n zero t (W \<union> all_writers s as) (N \<union> all_memos s as)"
proof (induction as arbitrary: s W N)
  case (Cons a as)
  then obtain u where u: "cstep s a = Some u" "csteps u as = Some t" by (auto split: option.splits)
  show ?case using Cons.IH [OF u(2) ereach.step [OF Cons.prems(2) u(1)]] u(1) by (simp add: Un_assoc)
qed simp

definition noted_outcome :: "nat \<Rightarrow> (nat cluster \<Rightarrow> memo set \<Rightarrow> 'r) \<Rightarrow> script list \<Rightarrow> 'r option" where
  "noted_outcome n f xs =
     map_option (\<lambda>(s, as). f s (all_memos (cluster_init n 0) as)) (play (cluster_init n 0) xs)"

lemma noted_outcome_reach:
  assumes "noted_outcome n f xs = Some r"
  obtains s W N where "ereach n 0 s W N" "f s N = r"
proof -
  obtain s as where s: "play (cluster_init n 0) xs = Some (s, as)" "f s (all_memos (cluster_init n 0) as) = r"
    using assms by (auto simp: noted_outcome_def)
  show thesis using that [OF csteps_ereach [OF play_csteps [OF s(1)] ereach.start]] s(2) by simp
qed

definition ask_of :: "int \<Rightarrow> int \<Rightarrow> int \<Rightarrow> int \<Rightarrow> RequestVoteArgs" where
  "ask_of t c i l = \<lparr>rvTerm = t, CandidateId = c, rvLastLogIndex = i, rvLastLogTerm = l\<rparr>"

text \<open>
  \<open>run_reapplied\<close> has leaders of two terms and meets all conditions. In \<open>run_old_vote\<close> peer 0, told of term 3 by peer 2 and
  with its vote given to it, counts a vote of term 1. In \<open>run_two_elections\<close> a peer has two
  \<^verbatim>\<open>toCandidate\<close> goroutines, since one of its two followers' loops still waited when it became a candidate again; both hold an election in term
  3, and peer 1 answers both. In \<open>run_stray\<close> peer 0 has passed the check of \<^verbatim>\<open>Start\<close> before it loses its lead.
\<close>

definition boot_of :: "nat \<Rightarrow> script list" where
  "boot_of n = concat (map (\<lambda>i. [T i FolEnter, T i FolCheck]) [0..<n])"

definition retry :: "nat \<Rightarrow> nat \<Rightarrow> script list" where
  "retry i c = [Again i c, T i CandCheck, T i CandRound]"

definition run_old_vote :: "script list" where
  "run_old_vote = elected0 @ [Call 0 1] @ round_of 2 @ campaign 2 15 @ [Call 2 0, Vote 2, T 2 (ElectCheck 15)] @ retry 2 15 @
     campaign 2 23 @ [Call 2 0, T 0 FolEnter, Vote 2, T 2 (ElectCheck 23)] @ retry 2 23 @ campaign 2 32 @ [Call 2 0, Vote 2, Vote 0]"

definition run_two_elections :: "script list" where
  "run_two_elections = boot_of 5 @ [Out 0] @ round_of 4 @ campaign 4 14 @
     [Call 4 0, T 0 FolEnter, T 0 FolCheck, Out 0, T 0 CandCheck, T 0 CandCheck, T 0 CandRound, T 0 CandRound,
      T 0 ElectStart, T 0 ElectStart, T 0 (ElectCheck 24), T 0 (ElectCheck 25), Call 0 1, Call 0 1, Vote 0, Vote 0,
      Vote 4, T 4 (ElectCheck 14)] @ retry 4 14 @ campaign 4 37 @ retry 4 37 @ campaign 4 42 @
     [Miss 4 2, Miss 4 2, Miss 4 3, Miss 4 3, Call 4 2, Call 4 3, Vote 4, T 4 (ElectCheck 42), Vote 4]"

definition run_stray :: "script list" where
  "run_stray = elected0 @ [Call 0 1, Vote 0, Cmd 0 7, Call 0 2] @ round_of 2 @ campaign 2 17 @
     [Call 2 0, T 0 FolEnter, Vote 2, T 2 (ElectCheck 17)] @ retry 2 17 @ campaign 2 26 @
     [Call 2 0, Vote 2, Cmd 2 8, T 2 (StartAppend 8), T 0 (StartAppend 7)]"

text \<open>
  C40: None of the four conditions can be left out. There are runs with two leaders of one term in which only a peer votes twice, only
  an old vote is counted, or only a peer holds two elections in a term; and a run in which the only fault is a late append of
  \<^verbatim>\<open>Start\<close>, after which two logs have different entries of the same term at the same position.
\<close>

theorem raft_conditions_needed:
  "(\<exists>s W N. ereach 3 (0 :: nat) s W N \<and> one_election N \<and> fresh_votes N \<and> no_strays N \<and>
      GetState (cpeers s ! 0) = (1, True) \<and> GetState (cpeers s ! 2) = (1, True)) \<and>
   (\<exists>s W N. ereach 3 (0 :: nat) s W N \<and> one_vote N \<and> one_election N \<and> no_strays N \<and>
      GetState (cpeers s ! 0) = (3, True) \<and> GetState (cpeers s ! 2) = (3, True)) \<and>
   (\<exists>s W N. ereach 5 (0 :: nat) s W N \<and> one_vote N \<and> fresh_votes N \<and> no_strays N \<and>
      GetState (cpeers s ! 0) = (3, True) \<and> GetState (cpeers s ! 4) = (3, True)) \<and>
   (\<exists>s W N. ereach 3 (0 :: nat) s W N \<and> one_vote N \<and> one_election N \<and> fresh_votes N \<and>
      rlog (cpeers s ! 0) ! 1 = \<lparr>Command = 7, eTerm = 3, eIndex = 1\<rparr> \<and> rlog (cpeers s ! 2) ! 1 = \<lparr>Command = 8, eTerm = 3, eIndex = 1\<rparr>)"
proof (intro conjI)
  have "noted_outcome 3 (\<lambda>s N. (one_election N, fresh_votes N, no_strays N, GetState (cpeers s ! 0), GetState (cpeers s ! 2)))
      run_two_leaders = Some (True, True, True, (1, True), (1, True))" by code_simp
  then show "\<exists>s W N. ereach 3 (0 :: nat) s W N \<and> one_election N \<and> fresh_votes N \<and> no_strays N \<and>
      GetState (cpeers s ! 0) = (1, True) \<and> GetState (cpeers s ! 2) = (1, True)"
    by (rule noted_outcome_reach) blast
  have "noted_outcome 3 (\<lambda>s N. (one_vote N, one_election N, no_strays N, GetState (cpeers s ! 0), GetState (cpeers s ! 2)))
      run_old_vote = Some (True, True, True, (3, True), (3, True))" by code_simp
  then show "\<exists>s W N. ereach 3 (0 :: nat) s W N \<and> one_vote N \<and> one_election N \<and> no_strays N \<and>
      GetState (cpeers s ! 0) = (3, True) \<and> GetState (cpeers s ! 2) = (3, True)"
    by (rule noted_outcome_reach) blast
  have "noted_outcome 5 (\<lambda>s N. (one_vote N, fresh_votes N, no_strays N, GetState (cpeers s ! 0), GetState (cpeers s ! 4)))
      run_two_elections = Some (True, True, True, (3, True), (3, True))" by code_simp
  then show "\<exists>s W N. ereach 5 (0 :: nat) s W N \<and> one_vote N \<and> fresh_votes N \<and> no_strays N \<and>
      GetState (cpeers s ! 0) = (3, True) \<and> GetState (cpeers s ! 4) = (3, True)"
    by (rule noted_outcome_reach) blast
  have "noted_outcome 3 (\<lambda>s N. (one_vote N, one_election N, fresh_votes N, rlog (cpeers s ! 0) ! 1, rlog (cpeers s ! 2) ! 1))
      run_stray = Some (True, True, True, \<lparr>Command = 7, eTerm = 3, eIndex = 1\<rparr>, \<lparr>Command = 8, eTerm = 3, eIndex = 1\<rparr>)" by code_simp
  then show "\<exists>s W N. ereach 3 (0 :: nat) s W N \<and> one_vote N \<and> one_election N \<and> fresh_votes N \<and>
      rlog (cpeers s ! 0) ! 1 = \<lparr>Command = 7, eTerm = 3, eIndex = 1\<rparr> \<and> rlog (cpeers s ! 2) ! 1 = \<lparr>Command = 8, eTerm = 3, eIndex = 1\<rparr>"
    by (rule noted_outcome_reach) blast
qed

lemma noted_run:
  obtains s W N where "ereach 3 (0 :: nat) s W N" "one_vote N" "one_election N" "fresh_votes N" "no_strays N"
    "Won 1 0 \<in> N" "Won 2 1 \<in> N" "GetState (cpeers s ! 1) = (2, True)"
    "map (map eTerm \<circ> rlog) (cpeers s) = [[0, 1, 2], [0, 1, 2], [0]]"
proof -
  have "noted_outcome 3 (\<lambda>s N. (one_vote N, one_election N, fresh_votes N, no_strays N, Won 1 0 \<in> N, Won 2 1 \<in> N,
      GetState (cpeers s ! 1), map (map eTerm \<circ> rlog) (cpeers s))) run_reapplied =
    Some (True, True, True, True, True, True, (2, True), [[0, 1, 2], [0, 1, 2], [0]])" by code_simp
  then obtain s W N where "ereach 3 (0 :: nat) s W N"
    "(one_vote N, one_election N, fresh_votes N, no_strays N, Won 1 0 \<in> N, Won 2 1 \<in> N,
      GetState (cpeers s ! 1), map (map eTerm \<circ> rlog) (cpeers s)) =
     (True, True, True, True, True, True, (2, True), [[0, 1, 2], [0, 1, 2], [0]])" by (rule noted_outcome_reach)
  then show thesis by (intro that [of s W N]) simp_all
qed

theorem raft_one_leader_per_term_witness:
  "\<exists>s W N. ereach 3 (0 :: nat) s W N \<and> one_vote N \<and> Won 2 1 \<in> N \<and> GetState (cpeers s ! 1) = (2, True) \<and>
     GetState (cpeers s ! 0) \<noteq> (2, True)"
proof -
  obtain s W N where s: "ereach 3 (0 :: nat) s W N" "one_vote N" "one_election N" "fresh_votes N" "Won 2 1 \<in> N"
    "GetState (cpeers s ! 1) = (2, True)" by (rule noted_run)
  have "GetState (cpeers s ! 0) \<noteq> (2, True)"
    using raft_one_leader_per_term [OF s(1-4), of 2 0 1] s(6) by auto
  then show ?thesis using s by blast
qed

theorem raft_elections_give_log_matching_witness:
  "\<exists>s W N. ereach 3 (0 :: nat) s W N \<and> no_strays N \<and> one_writer W \<and> length (rlog (cpeers s ! 0)) = 3 \<and>
     take 3 (rlog (cpeers s ! 0)) = take 3 (rlog (cpeers s ! 1))"
proof -
  obtain s W N where s: "ereach 3 (0 :: nat) s W N" "one_vote N" "one_election N" "fresh_votes N" "no_strays N"
    "map (map eTerm \<circ> rlog) (cpeers s) = [[0, 1, 2], [0, 1, 2], [0]]" by (rule noted_run)
  then obtain a b c where p: "cpeers s = [a, b, c]" "map eTerm (rlog a) = [0, 1, 2]" "map eTerm (rlog b) = [0, 1, 2]"
    by (auto simp: map_eq_Cons_conv)
  then have l: "length (rlog a) = 3" "length (rlog b) = 3" "eTerm (rlog a ! 2) = 2" "eTerm (rlog b ! 2) = 2"
    using arg_cong [OF p(2), of length] arg_cong [OF p(3), of length] by (auto simp: map_eq_Cons_conv)
  have "one_writer W \<and> take (Suc 2) (rlog (cpeers s ! 0)) = take (Suc 2) (rlog (cpeers s ! 1))"
    by (rule raft_elections_give_log_matching [OF s(1-5)]) (simp_all add: p(1) l)
  then show ?thesis using s(1,5) l(1) p(1) by (intro exI [of _ s] exI [of _ W] exI [of _ N]) simp
qed

end
