(* ===== verification/Raft_Histories.thy ===== *)
theory Raft_Histories
  imports Raft_Election
begin

section \<open>Raft: what peers have stored\<close>

text \<open>
  Beside a run of the group this theory keeps facts: which peer accepted entries of a term up to which index, and which leader moved its
  commit index where. As the memos of \<open>Raft_Election\<close>, they are read off the steps and change nothing (\<open>kreach\<close>). For the proofs a run also carries
  the logs of the writers (\<open>hreach\<close>). In runs with sound elections each such log has the shape of a log, and every call carries a piece of the log of the
  writer of its term.
\<close>

subsection \<open>Merging keeps and has\<close>

lemma agree_len_stop:
  "agree_len xs es < length xs \<Longrightarrow> agree_len xs es < length es \<Longrightarrow> eTerm (xs ! agree_len xs es) \<noteq> eTerm (es ! agree_len xs es)"
  by (induction xs es rule: agree_len.induct) (auto split: if_splits)

lemma merge_keeps:
  assumes "p \<le> length xs" "p \<le> length ys" "m \<le> length xs" "take (min m (length ys)) ys = take (min m (length ys)) xs"
  shows "take m (merge_log xs p (drop p ys)) = take m xs"
proof -
  let ?es = "drop p ys" let ?k = "agree_len (drop p xs) ?es"
  have k: "p + ?k \<le> length xs" "?k \<le> length ?es" using agree_len_le [of "drop p xs" ?es] assms(1) by simp_all
  show ?thesis
  proof (cases "?k = length ?es \<or> m \<le> p + ?k")
    case True
    then show ?thesis using k by (auto simp: merge_log_def Let_def)
  next
    case False
    then have j: "p + ?k < length ys" "p + ?k < m" using k(2) by auto
    then have "ys ! (p + ?k) = xs ! (p + ?k)"
      using arg_cong [OF assms(4), of "\<lambda>zs. zs ! (p + ?k)"] by simp
    moreover have "eTerm (drop p xs ! ?k) \<noteq> eTerm (?es ! ?k)"
      using agree_len_stop [of "drop p xs" ?es] j assms(3) by simp
    ultimately show ?thesis using assms(1,2) j by (simp add: nth_drop)
  qed
qed

lemma merge_has:
  assumes "anchored W hist xs" "anchored W hist ys" "hd xs = hd ys" "p < length xs" "p < length ys" "eTerm (xs ! p) = eTerm (ys ! p)"
  shows "take (length ys) (merge_log xs (Suc p) (drop (Suc p) ys)) = ys"
proof -
  let ?zs = "merge_log xs (Suc p) (drop (Suc p) ys)" and ?j = "length ys - 1"
  have z: "?zs \<in> {xs, ys}" by (rule merge_anchored [OF assms])
  then have an: "anchored W hist ?zs" "hd ?zs = hd ys" using assms(1-3) by auto
  have "?j < length ?zs \<and> eTerm (?zs ! ?j) = eTerm (ys ! ?j)"
  proof (cases "?j = p")
    case True
    then show ?thesis using z assms(4-6) by auto
  next
    case False
    then have i: "?j = Suc p + (?j - Suc p)" "?j - Suc p < length (drop (Suc p) ys)" using assms(5) by auto
    show ?thesis
      using merge_log_has_terms [of "Suc p" xs "?j - Suc p" "drop (Suc p) ys"] i assms(4,5) by (simp add: nth_drop)
  qed
  then have "take (Suc ?j) ?zs = take (Suc ?j) ys" using anchored_common [OF an(1) assms(2) an(2)] assms(5) by simp
  moreover have "Suc ?j = length ys" using assms(5) by simp
  ultimately show ?thesis by simp
qed

subsection \<open>Facts of a run\<close>

text \<open>
  \<open>Stored t v k\<close>: peer \<open>v\<close> accepted a call of term \<open>t\<close> and has the log of its sender up to index \<open>k\<close>. \<open>Committed t i k\<close>: peer \<open>i\<close> moved its
  commit index to \<open>k\<close> in term \<open>t\<close>, and every peer it counted had stored that much in the term; if one had not, the fact is \<open>Overcounted\<close>.
  What commits also counts as stored.
\<close>

datatype fact = Stored int nat nat | Committed int nat nat | Overcounted int nat nat

fun stores :: "int \<Rightarrow> nat \<Rightarrow> nat \<Rightarrow> fact \<Rightarrow> bool" where
  "stores t v k (Stored u w l) \<longleftrightarrow> u = t \<and> w = v \<and> k \<le> l"
| "stores t v k _ \<longleftrightarrow> False"

definition stored :: "fact set \<Rightarrow> int \<Rightarrow> nat \<Rightarrow> nat \<Rightarrow> bool" where
  "stored K t v k \<longleftrightarrow> (\<exists>f \<in> K. stores t v k f)"

definition counts_true :: "fact set \<Rightarrow> 'c Raft \<Rightarrow> int \<Rightarrow> bool" where
  "counts_true K rf k \<longleftrightarrow> (\<forall>v \<in> set [0..<numPeers rf]. v \<noteq> me rf \<longrightarrow> k \<le> matchIndex rf ! v \<longrightarrow> stored K (currentTerm rf) v (nat k))"

fun facts :: "'c cluster \<Rightarrow> fact set \<Rightarrow> 'c act \<Rightarrow> fact set" where
  "facts s K (DeliverCall (AECall _ to _ args)) =
     (case AppendEntries (cpeers s ! to) args of
        Inl e \<Rightarrow> {}
      | Inr (_, reply, _, _) \<Rightarrow>
          if Success reply then {Stored (aeTerm args) to (nat (PrevLogIndex args) + length (Entries args))} else {})"
| "facts s K (Tick i (CommitAt k)) =
     (case commitAt (cpeers s ! i) k of
        Inl e \<Rightarrow> {}
      | Inr (rf, _) \<Rightarrow>
          if commitIndex rf = commitIndex (cpeers s ! i) then {}
          else if counts_true K (cpeers s ! i) k
            then {Committed (currentTerm rf) i (nat k), Stored (currentTerm rf) i (nat k)}
            else {Overcounted (currentTerm rf) i (nat k)})"
| "facts s K _ = {}"

inductive kreach :: "nat \<Rightarrow> 'c \<Rightarrow> 'c cluster \<Rightarrow> (int \<times> nat) set \<Rightarrow> memo set \<Rightarrow> fact set \<Rightarrow> bool" for n zero where
  start: "kreach n zero (cluster_init n zero) {} {} {}"
| step: "kreach n zero s W N K \<Longrightarrow> cstep s a = Some t \<Longrightarrow>
    kreach n zero t (W \<union> writers s a) (N \<union> memos s a) (K \<union> facts s K a)"

lemma kreach_ereach: "kreach n zero s W N K \<Longrightarrow> ereach n zero s W N"
  by (induction rule: kreach.induct) (auto intro: ereach.intros)

definition no_overcount :: "fact set \<Rightarrow> bool" where
  "no_overcount K \<longleftrightarrow> (\<forall>t i k. Overcounted t i k \<notin> K)"

text \<open>
  For the proofs a run also carries the logs of the writers and the votes that were given in a term before anybody
  wrote in it.
\<close>

inductive hreach :: "nat \<Rightarrow> 'c \<Rightarrow> 'c cluster \<Rightarrow> (int \<times> nat) set \<Rightarrow> memo set \<Rightarrow> fact set \<Rightarrow>
    (int \<Rightarrow> 'c LogEntry list) \<Rightarrow> (int \<times> nat \<times> int) set \<Rightarrow> bool" for n zero where
  start: "hreach n zero (cluster_init n zero) {} {} {} (\<lambda>_. []) {}"
| step: "hreach n zero s W N K H E \<Longrightarrow> cstep s a = Some t \<Longrightarrow>
    hreach n zero t (W \<union> writers s a) (N \<union> memos s a) (K \<union> facts s K a) (histories s a t H)
      (E \<union> {(u, v, c). Voted u v c \<in> memos s a \<and> u \<notin> fst ` W})"

lemma kreach_hreach: "kreach n zero s W N K \<Longrightarrow> \<exists>H E. hreach n zero s W N K H E"
  by (induction rule: kreach.induct) (blast intro: hreach.intros)+

lemma hreach_kreach: "hreach n zero s W N K H E \<Longrightarrow> kreach n zero s W N K"
  by (induction rule: hreach.induct) (auto intro: kreach.intros)

lemmas hreach_ereach = hreach_kreach [THEN kreach_ereach]
lemmas hreach_creach = hreach_ereach [THEN ereach_creach]

definition sound :: "memo set \<Rightarrow> bool" where
  "sound N \<longleftrightarrow> one_vote N \<and> one_election N \<and> fresh_votes N \<and> no_strays N"

lemma sound_mono: "sound (N \<union> M) \<Longrightarrow> sound N"
  unfolding sound_def one_vote_def one_election_def fresh_votes_def no_strays_def by blast

lemma soundD: "sound N \<Longrightarrow> one_vote N" "sound N \<Longrightarrow> one_election N" "sound N \<Longrightarrow> fresh_votes N" "sound N \<Longrightarrow> no_strays N"
  by (simp_all add: sound_def)

text \<open>What is known of a run whose elections are sound.\<close>

lemma hreach_elections:
  assumes "hreach n zero s W N K H E" "sound N"
  shows "elections_ok n s N" "network_ok (ballots (cnet s)) N" "leaders_ok n s N"
  using ereach_elections [OF hreach_ereach [OF assms(1)] soundD(2,3) [OF assms(2)]] by blast+

lemma hreach_shape: "hreach n zero s W N K H E \<Longrightarrow> shape n zero s"
  by (rule creach_shape [OF hreach_creach])

lemma hreach_won:
  assumes "hreach n zero s W N K H E" "sound N" "(u, p) \<in> W"
  shows "Won u p \<in> N"
  by (rule writers_won [OF hreach_ereach [OF assms(1)] soundD(2,3,4) [OF assms(2)] assms(3)])

lemma hreach_one_writer: "hreach n zero s W N K H E \<Longrightarrow> sound N \<Longrightarrow> one_writer W"
  unfolding one_writer_def using winners_agree [OF hreach_elections(3) soundD(1)] hreach_won by metis

lemma hreach_matching:
  "hreach n zero s W N K H E \<Longrightarrow> sound N \<Longrightarrow> matching zero s W H"
proof (induction rule: hreach.induct)
  case start
  show ?case by (auto simp: matching_def cluster_init_def raft_Make_def anchored_def)
next
  case (step s W N K H E a t)
  have s: "matching zero s W H" by (rule step.IH [OF sound_mono [OF step.prems]])
  have "one_writer (W \<union> writers s a)" by (rule hreach_one_writer [OF hreach.step [OF step.hyps] step.prems])
  from matching_step [OF s hreach_shape [OF step.hyps(1)] step.hyps(2) this] show ?case .
qed

subsection \<open>The logs of the writers\<close>

lemma writers_cases:
  obtains "writers s a = {}" | i where "writers s a = {(currentTerm (cpeers s ! i), i)}"
proof -
  have "writers s a = {} \<or> (\<exists>i. writers s a = {(currentTerm (cpeers s ! i), i)})"
    by (cases "(s, a)" rule: writers.cases) auto
  then show thesis using that by blast
qed

lemma histories_grow:
  assumes m: "matching zero s W H" and one: "one_writer (W \<union> writers s a)" and st: "cstep s a = Some t" and u: "u \<in> fst ` W"
  shows "\<exists>es. histories s a t H u = H u @ es \<and> (\<forall>e \<in> set es. eTerm e = u)"
proof (cases "u \<in> fst ` writers s a")
  case False
  then show ?thesis by (simp add: histories_def)
next
  case True
  have same: "H u = rlog (cpeers s ! i)" if "writers s a = {(currentTerm (cpeers s ! i), i)}" for i
  proof -
    obtain p where "(u, p) \<in> W" using u by auto
    moreover have "u = currentTerm (cpeers s ! i)" using True that by simp
    ultimately have "(u, i) \<in> W" using one that unfolding one_writer_def by blast
    then show ?thesis using matchingD(3) [OF m] \<open>u = currentTerm (cpeers s ! i)\<close> by metis
  qed
  show ?thesis
    using st
  proof (cases rule: cstep_kinds)
    case (append i command)
    then show ?thesis using same [OF append(4)] True by (auto simp: raft_Start_def)
  next
    case (send i ch)
    then show ?thesis using same [OF send(5)] True by auto
  qed (use True in simp_all)
qed

lemma anchored_grows:
  assumes "anchored W H xs" "W \<subseteq> W'" "\<And>u. u \<in> fst ` W \<Longrightarrow> \<exists>es. H' u = H u @ es"
  shows "anchored W' H' xs"
  unfolding anchored_def
proof (intro allI impI)
  fix k assume k: "0 < k" "k < length xs"
  let ?u = "eTerm (xs ! k)"
  have a: "?u \<in> fst ` W" "take (Suc k) xs = take (Suc k) (H ?u)" using assms(1) k by (simp_all add: anchored_def)
  obtain es where es: "H' ?u = H ?u @ es" using assms(3) [OF a(1)] by blast
  have "Suc k \<le> length (H ?u)" using arg_cong [OF a(2), of length] k(2) by simp
  then have "take (Suc k) xs = take (Suc k) (H' ?u)" using a(2) by (simp add: es)
  then show "?u \<in> fst ` W' \<and> take (Suc k) xs = take (Suc k) (H' ?u)" using a(1) assms(2) by auto
qed

text \<open>A call carries a segment of the log of the writer of its term.\<close>

definition sent_upto :: "(int \<Rightarrow> 'c LogEntry list) \<Rightarrow> 'c AppendEntriesArgs \<Rightarrow> nat \<Rightarrow> bool" where
  "sent_upto H args l \<longleftrightarrow> l \<le> length (H (aeTerm args)) \<and> sent_from args (take l (H (aeTerm args)))"

definition writers_ok :: "'c \<Rightarrow> 'c cluster \<Rightarrow> (int \<times> nat) set \<Rightarrow> (int \<Rightarrow> 'c LogEntry list) \<Rightarrow> bool" where
  "writers_ok zero s W H \<longleftrightarrow>
     (\<forall>u \<in> fst ` W. anchored W H (H u) \<and> log_shape zero (H u) u) \<and>
     (\<forall>(src, to, ch, args) \<in> aes (cnet s). aeTerm args \<in> fst ` W \<and> (\<exists>l. sent_upto H args l))"

lemma writers_okD:
  assumes "writers_ok zero s W H"
  shows "u \<in> fst ` W \<Longrightarrow> anchored W H (H u)" "u \<in> fst ` W \<Longrightarrow> log_shape zero (H u) u"
    "(src, to, ch, args) \<in> aes (cnet s) \<Longrightarrow> aeTerm args \<in> fst ` W \<and> (\<exists>l. sent_upto H args l)"
  using assms unfolding writers_ok_def by (blast, blast, fast)

lemma sent_upto_grows:
  "sent_upto H args l \<Longrightarrow> H' (aeTerm args) = H (aeTerm args) @ es \<Longrightarrow> sent_upto H' args l"
  by (simp add: sent_upto_def)

lemma replicate_one_sent: "replicate_one rf si = Inr args \<Longrightarrow> H (currentTerm rf) = rlog rf \<Longrightarrow> sent_upto H args (length (rlog rf))"
  using replicate_one_args [of rf si args] by (simp add: sent_upto_def sent_from_def)

lemma hreach_logs:
  "hreach n zero s W N K H E \<Longrightarrow> sound N \<Longrightarrow> writers_ok zero s W H"
proof (induction rule: hreach.induct)
  case start
  show ?case by (simp add: writers_ok_def cluster_init_def aes_def)
next
  case (step s W N K H E a t)
  note s = step.hyps(1) sound_mono [OF step.prems]
  note t = hreach.step [OF step.hyps] step.prems
  let ?W = "W \<union> writers s a" and ?H = "histories s a t H"
  have ih: "writers_ok zero s W H" by (rule step.IH [OF s(2)])
  have m: "matching zero s W H" "matching zero t ?W ?H" using hreach_matching [OF s] hreach_matching [OF t] by blast+
  have sh: "shape n zero s" "shape n zero t" by (rule hreach_shape [OF s(1)], rule hreach_shape [OF t(1)])
  have one: "one_writer ?W" by (rule hreach_one_writer [OF t])
  note grow = histories_grow [OF m(1) one step.hyps(2)]
  have "anchored ?W ?H (?H u) \<and> log_shape zero (?H u) u" if u: "u \<in> fst ` ?W" for u
  proof (cases "u \<in> fst ` writers s a")
    case True
    then obtain i where w: "writers s a = {(u, i)}" by (cases s a rule: writers_cases) auto
    have i: "i < length (cpeers t)" "u \<le> currentTerm (cpeers t ! i)"
      using matchingD(3) [OF m(2), of u i] w by auto
    have "currentTerm (cpeers t ! i) = u"
      using step.hyps(2) by (cases rule: cstep_kinds) (use w in \<open>auto simp: raft_Start_def\<close>)
    then show ?thesis
      using matchingD(1) [OF m(2) i(1)] sh(2) i(1) w by (auto simp: shape_def peer_shape_def)
  next
    case False
    then have "u \<in> fst ` W" "?H u = H u" using u by (auto simp: histories_def)
    then have "anchored W H (H u)" "log_shape zero (H u) u" using writers_okD(1,2) [OF ih] by blast+
    then show ?thesis using anchored_grows [of W H "H u" ?W ?H] grow \<open>?H u = H u\<close> by auto
  qed
  moreover have "aeTerm args \<in> fst ` ?W \<and> (\<exists>l. sent_upto ?H args l)" if c: "(src, to, ch, args) \<in> aes (cnet t)" for src to ch args
  proof (cases "(src, to, ch, args) \<in> aes (cnet s)")
    case True
    then obtain l where "aeTerm args \<in> fst ` W" "sent_upto H args l" using writers_okD(3) [OF ih] by blast
    then show ?thesis using grow [of "aeTerm args"] sent_upto_grows [of H args l ?H] by auto
  next
    case False
    show ?thesis
      using step.hyps(2)
    proof (cases rule: cstep_kinds)
      case (send i ch')
      obtain ms where ms: "raft_replicate (cpeers s ! i) = Inr ms" "(to, args) \<in> set ms" using send(4) c False by auto
      have r: "replicate_one (cpeers s ! i) to = Inr args" using raft_replicate_mem [OF ms] by simp
      then have "sent_upto ?H args (length (rlog (cpeers s ! i)))" by (rule replicate_one_sent) (simp add: send(2,5))
      then show ?thesis using replicate_one_args(5) [OF r] send(5) by auto
    qed (use c False in auto)
  qed
  ultimately show ?case unfolding writers_ok_def by blast
qed

end
