(* ===== verification/Raft_Bases.thy ===== *)
theory Raft_Bases
  imports Raft_Histories
begin

section \<open>Raft: where the log of a leader comes from\<close>

text \<open>
  A peer that writes in a term has won an election it held in the term, and its log is the one it had when it asked for votes,
  followed by entries of the term (\<open>hreach_based\<close>). The index and term it asked with are therefore those of an entry of its log.
\<close>

lemma log_changes:
  assumes ok: "writers_ok zero s W H" and sh: "shape n zero s" and st: "cstep s a = Some t" and i: "i < n"
  shows "rlog (cpeers t ! i) = rlog (cpeers s ! i) \<or> currentTerm (cpeers t ! i) \<in> fst ` (W \<union> writers s a)"
proof -
  have len: "length (cpeers s) = n" using sh by (simp add: shape_def)
  show ?thesis
    using st
  proof (cases rule: cstep_kinds)
    case (calm j rf')
    then show ?thesis by (cases "j = i") (auto simp: quiet_def)
  next
    case (append j command)
    then show ?thesis by (cases "j = i") (auto simp: raft_Start_def)
  next
    case (handle src to ch args rf' reply sp ms)
    have "log_ok (rlog (cpeers s ! to))" "ae_args_ok args"
      using sh handle(1,2) by (auto simp: shape_def peer_shape_def call_shape_def log_shape_def)
    note r = AppendEntries_returns [OF this handle(3)]
    have "aeTerm args \<in> fst ` W" using writers_okD(3) [OF ok handle(2)] by blast
    then have "rlog rf' = rlog (cpeers s ! to) \<or> currentTerm rf' \<in> fst ` W" using r(1,2) by (auto simp: ae_accepts_def)
    then show ?thesis using handle(1,4) by (cases "to = i") auto
  qed auto
qed

text \<open>A vote is given in a term the voter has reached.\<close>

lemma ereach_voted:
  "ereach n zero s W N \<Longrightarrow> Voted u v c \<in> N \<Longrightarrow> v < n \<and> u \<le> currentTerm (cpeers s ! v)"
proof (induction rule: ereach.induct)
  case (step s W N a t)
  have c: "creach n zero s W" by (rule ereach_creach [OF step.hyps(1)])
  have len: "length (cpeers s) = n" using creach_shape [OF c] by (simp add: shape_def)
  have old: "v < n \<and> u \<le> currentTerm (cpeers t ! v)" if "Voted u v c \<in> N"
  proof -
    have v: "v < n" "u \<le> currentTerm (cpeers s ! v)" using step.IH [OF that] by blast+
    then show ?thesis using raft_terms_never_decrease [OF c step.hyps(2) v(1)] by simp
  qed
  show ?case
  proof (cases "Voted u v c \<in> N")
    case False
    then have new: "Voted u v c \<in> memos s a" using step.prems by blast
    from step.hyps(2) show ?thesis
    proof (cases rule: estep_kinds)
      case calm
      then show ?thesis using new by (auto simp: calm_step_def)
    next
      case (ask i rf0 args)
      then have "u = currentTerm (cpeers s ! i)" "v = i" using new by simp_all
      then show ?thesis using ask(1,4) len by simp
    next
      case (grant src to ch args rf' reply sp)
      then have "u = rvTerm args" "v = to" using new by simp_all
      then show ?thesis using grant(1,3) len RequestVote_returns(3) [OF grant(10)] by simp
    next
      case (count i ch reply)
      then show ?thesis using new by (simp split: if_splits)
    qed
  qed (rule old)
qed simp

lemma ereach_won_asked:
  "ereach n zero s W N \<Longrightarrow> one_election N \<Longrightarrow> fresh_votes N \<Longrightarrow> Won u p \<in> N \<Longrightarrow> p < n \<and> (\<exists>ch a. Asked ch p a \<in> N \<and> rvTerm a = u)"
proof (induction rule: ereach.induct)
  case (step s W N a t)
  have before: "one_election N" "fresh_votes N" using step.prems(1,2) unfolding one_election_def fresh_votes_def by blast+
  have len: "length (cpeers s) = n" using creach_shape [OF ereach_creach [OF step.hyps(1)]] by (simp add: shape_def)
  have old: "p < n \<and> (\<exists>ch b. Asked ch p b \<in> N \<union> memos s a \<and> rvTerm b = u)" if "Won u p \<in> N"
    using step.IH [OF before that] by blast
  show ?case
  proof (cases "Won u p \<in> N")
    case False
    then have new: "Won u p \<in> memos s a" using step.prems(3) by blast
    from step.hyps(2) show ?thesis
    proof (cases rule: estep_kinds)
      case (count i ch reply)
      have net: "network_ok (ballots (cnet s)) N" using ereach_elections [OF step.hyps(1) before] by blast
      have w: "p = i" "u = currentTerm (cpeers s ! i)" using new by (simp_all add: count(8) split: if_splits)
      obtain b where b: "Asked ch i b \<in> N" "rvrTerm reply = rvTerm b" using network_okD(2) [OF net count(2)] by blast
      have "rvrTerm reply = currentTerm (cpeers s ! i)" using step.prems(2) unfolding fresh_votes_def count(8) by blast
      then show ?thesis using b w count(1) len by auto
    qed (use new in \<open>auto simp: calm_step_def\<close>)
  qed (rule old)
qed simp

text \<open>
  While nobody has written in its term, the log of a candidate ends as it did when it asked for votes.
\<close>

definition ends_as :: "'c LogEntry list \<Rightarrow> RequestVoteArgs \<Rightarrow> bool" where
  "ends_as lg a \<longleftrightarrow> rvLastLogIndex a = int (length lg) - 1 \<and> rvLastLogTerm a = eTerm (lg ! (length lg - 1)) \<and>
     (1 < length lg \<longrightarrow> rvLastLogTerm a < rvTerm a)"

lemma hreach_candidate_log:
  "hreach n zero s W N K H E \<Longrightarrow> sound N \<Longrightarrow> Asked ch i b \<in> N \<Longrightarrow> rvTerm b = currentTerm (cpeers s ! i) \<Longrightarrow>
     rvTerm b \<in> fst ` W \<or> ends_as (rlog (cpeers s ! i)) b"
proof (induction arbitrary: ch i b rule: hreach.induct)
  case (step s W N K H E a t)
  note s = step.hyps(1) sound_mono [OF step.prems(1)]
  note t = hreach.step [OF step.hyps] step.prems(1)
  have sh: "shape n zero s" by (rule hreach_shape [OF s(1)])
  then have len: "length (cpeers s) = n" by (simp add: shape_def)
  have el: "elections_ok n s N" by (rule hreach_elections(1) [OF s])
  have m: "matching zero s W H" by (rule hreach_matching [OF s])
  show ?case
  proof (cases "Asked ch i b \<in> N")
    case True
    have i: "i < n" "rvTerm b \<le> currentTerm (cpeers s ! i)" using elections_okD(1) [OF el True] by blast+
    then have now: "rvTerm b = currentTerm (cpeers s ! i)"
      using raft_terms_never_decrease [OF hreach_creach [OF s(1)] step.hyps(2) i(1)] step.prems(3) by simp
    have "rvTerm b \<in> fst ` W \<or> ends_as (rlog (cpeers s ! i)) b" by (rule step.IH [OF s(2) True now])
    then show ?thesis using log_changes [OF hreach_logs [OF s] sh step.hyps(2) i(1)] step.prems(3) by auto
  next
    case False
    then have new: "Asked ch i b \<in> memos s a" using step.prems(2) by blast
    from step.hyps(2) show ?thesis
    proof (cases rule: estep_kinds)
      case calm
      then show ?thesis using new by (auto simp: calm_step_def)
    next
      case (ask j rf0 args)
      then have j: "j = i" "b = args" using new by auto
      let ?rf = "cpeers s ! i" let ?lg = "rlog (cpeers s ! i)"
      have lg: "log_shape zero ?lg (currentTerm ?rf)" using sh ask(1) j(1) len by (auto simp: shape_def peer_shape_def)
      have ne: "0 < length ?lg" using log_ok_length [OF log_shape_ok [OF lg]] .
      have last: "rvLastLogTerm b = eTerm (?lg ! (length ?lg - 1))" "rvLastLogIndex b = eIndex (?lg ! (length ?lg - 1))"
        using ask(8) ne j by (auto simp: startElection_begin_def Let_def bind_result_Inr_iff slice_get_Inr_iff nat_diff_distrib)
      have ix: "rvLastLogIndex b = int (length ?lg) - 1"
        using last(2) log_ok_nth [OF log_shape_ok [OF lg], of "length ?lg - 1"] ne by simp
      have "rvTerm b \<in> fst ` W \<or> (1 < length ?lg \<longrightarrow> rvLastLogTerm b < rvTerm b)"
      proof (cases "1 < length ?lg")
        case True
        have "?lg ! (length ?lg - 1) \<in> set ?lg" using ne by simp
        then have "rvLastLogTerm b \<le> rvTerm b" using lg last(1) ask(2) j by (auto simp: log_shape_def)
        moreover have "rvLastLogTerm b \<in> fst ` W"
          using matchingD(1) [OF m, of i] ask(1) j True last(1) by (simp add: anchored_def)
        ultimately show ?thesis by (cases "rvLastLogTerm b = rvTerm b") auto
      qed simp
      moreover have "rlog (cpeers t ! i) = ?lg" using ask(1,4) j by simp
      ultimately show ?thesis using ix last(1) by (auto simp: ends_as_def)
    next
      case (grant src to ch args rf' reply sp)
      then show ?thesis using new by simp
    next
      case (count j ch reply)
      then show ?thesis using new by (auto split: if_splits)
    qed
  qed
qed simp

text \<open>The log of a writer begins with the log it had as a candidate, and goes on with entries of its term.\<close>

definition based :: "'c LogEntry list \<Rightarrow> int \<Rightarrow> RequestVoteArgs \<Rightarrow> bool" where
  "based lg u a \<longleftrightarrow> rvTerm a = u \<and> 0 \<le> rvLastLogIndex a \<and> nat (rvLastLogIndex a) < length lg \<and>
     rvLastLogTerm a = eTerm (lg ! nat (rvLastLogIndex a)) \<and> (0 < rvLastLogIndex a \<longrightarrow> rvLastLogTerm a < u) \<and>
     (\<forall>j. nat (rvLastLogIndex a) < j \<longrightarrow> j < length lg \<longrightarrow> eTerm (lg ! j) = u)"

lemma based_append: "based lg u a \<Longrightarrow> \<forall>e \<in> set es. eTerm e = u \<Longrightarrow> based (lg @ es) u a"
  by (auto simp: based_def nth_append)

lemma ends_as_based: "ends_as lg a \<Longrightarrow> lg \<noteq> [] \<Longrightarrow> \<forall>e \<in> set es. eTerm e = rvTerm a \<Longrightarrow> based (lg @ es) (rvTerm a) a"
proof (rule based_append)
  assume a: "ends_as lg a" "lg \<noteq> []"
  have "nat (int (length lg) - 1) = length lg - 1" by simp
  then show "based lg (rvTerm a) a" using a unfolding based_def ends_as_def by (cases lg) auto
qed

lemma hreach_based:
  "hreach n zero s W N K H E \<Longrightarrow> sound N \<Longrightarrow> (u, p) \<in> W \<Longrightarrow> \<exists>ch b. Asked ch p b \<in> N \<and> based (H u) u b"
proof (induction arbitrary: u p rule: hreach.induct)
  case (step s W N K H E a t)
  note s = step.hyps(1) sound_mono [OF step.prems(1)]
  note t = hreach.step [OF step.hyps] step.prems(1)
  let ?H = "histories s a t H"
  have one: "one_writer (W \<union> writers s a)" by (rule hreach_one_writer [OF t])
  show ?case
  proof (cases "(u, p) \<in> W")
    case True
    obtain ch b where b: "Asked ch p b \<in> N" "based (H u) u b" using step.IH [OF s(2) True] by blast
    moreover have "u \<in> fst ` W" using True by force
    from histories_grow [OF hreach_matching [OF s] one step.hyps(2) this]
    have "based (?H u) u b" using based_append [OF b(2)] by auto
    ultimately show ?thesis by blast
  next
    case False
    then have w: "(u, p) \<in> writers s a" using step.prems(2) by blast
    then have ws: "writers s a = {(u, p)}" "u = currentTerm (cpeers s ! p)" by (cases s a rule: writers_cases; auto)+
    have new: "u \<notin> fst ` W"
    proof
      assume "u \<in> fst ` W"
      then obtain q where "(u, q) \<in> W" by auto
      then show False using one w False unfolding one_writer_def by blast
    qed
    have "Won u p \<in> N \<union> memos s a" by (rule hreach_won [OF t step.prems(2)])
    then obtain ch b where b: "Asked ch p b \<in> N \<union> memos s a" "rvTerm b = u" "p < n"
      using ereach_won_asked [OF hreach_ereach [OF t(1)] soundD(2,3) [OF t(2)]] by blast
    have "Asked ch p b \<notin> memos s a"
      using ws(1) by (cases "(s, a)" rule: writers.cases) auto
    then have old: "Asked ch p b \<in> N" using b(1) by blast
    have lg: "ends_as (rlog (cpeers s ! p)) b"
      using hreach_candidate_log [OF s old] b(2) ws(2) new by simp
    have ne: "rlog (cpeers s ! p) \<noteq> []"
      using hreach_shape [OF s(1)] b(3) log_ok_length [OF log_shape_ok] by (fastforce simp: shape_def peer_shape_def)
    have "\<exists>es. rlog (cpeers t ! p) = rlog (cpeers s ! p) @ es \<and> (\<forall>e \<in> set es. eTerm e = u)"
      using step.hyps(2) by (cases rule: cstep_kinds) (use ws in \<open>auto simp: raft_Start_def\<close>)
    then have "based (?H u) u b" using ends_as_based [OF lg ne] b(2) ws(1) by auto
    then show ?thesis using old by blast
  qed
qed simp

end
