(* ===== verification/Raft_Completeness.thy ===== *)
theory Raft_Completeness
  imports Raft_Bases
begin

section \<open>Raft: later leaders have what is committed\<close>

text \<open>
  Leader completeness. What a peer has stored it keeps as long as the writers of later terms have it too (\<open>keeps_entry\<close>); a peer that votes
  finds the log of the candidate at least as new as its own; the majority that stored an entry and the majority that voted meet. So the
  log of every writer of a later term has what was committed (\<open>hreach_complete\<close>), by induction on the term.
\<close>

subsection \<open>Keeping an entry\<close>

text \<open>All writers of the terms after \<open>t\<close> up to \<open>u\<close> have the log of the writer of \<open>t\<close> up to index \<open>k\<close>.\<close>

definition unbroken :: "(int \<times> nat) set \<Rightarrow> (int \<Rightarrow> 'c LogEntry list) \<Rightarrow> int \<Rightarrow> nat \<Rightarrow> int \<Rightarrow> bool" where
  "unbroken W H t k u \<longleftrightarrow> (\<forall>w \<in> fst ` W. t < w \<longrightarrow> w \<le> u \<longrightarrow> take (Suc k) (H w) = take (Suc k) (H t))"

lemma take_Suc_nth: "take (Suc k) xs = take (Suc k) ys \<Longrightarrow> k < length ys \<Longrightarrow> j \<le> k \<Longrightarrow> j < length xs \<and> xs ! j = ys ! j"
  by (metis length_take less_Suc_eq_le min_less_iff_conj nth_take order_le_less_trans)

lemma anchoredD:
  "anchored W H lg \<Longrightarrow> 0 < k \<Longrightarrow> k < length lg \<Longrightarrow> eTerm (lg ! k) \<in> fst ` W"
  "anchored W H lg \<Longrightarrow> 0 < k \<Longrightarrow> k < length lg \<Longrightarrow> take (Suc k) lg = take (Suc k) (H (eTerm (lg ! k)))"
  by (simp_all add: anchored_def)

lemma take_Suc_le: "take (Suc k) xs = take (Suc k) ys \<Longrightarrow> j \<le> k \<Longrightarrow> take (Suc j) xs = take (Suc j) ys"
  by (metis Suc_le_mono min.absorb1 take_take)

lemma unbroken_back:
  assumes "unbroken W' H' t k u'" "u \<le> u'" "W \<subseteq> W'" "t \<in> fst ` W" "k < length (H t)" "eTerm (H t ! k) = t"
    "\<And>w. w \<in> fst ` W \<Longrightarrow> \<exists>es. H' w = H w @ es \<and> (\<forall>e \<in> set es. eTerm e = w)"
  shows "unbroken W H t k u"
  unfolding unbroken_def
proof (intro ballI impI)
  fix w assume w: "w \<in> fst ` W" "t < w" "w \<le> u"
  obtain es fs where es: "H' w = H w @ es" "\<forall>e \<in> set es. eTerm e = w" and fs: "H' t = H t @ fs"
    using assms(7) [OF w(1)] assms(7) [OF assms(4)] by blast
  have "take (Suc k) (H' w) = take (Suc k) (H' t)" using assms(1-3) w unfolding unbroken_def by (meson image_mono order_trans subsetD)
  then have eq: "take (Suc k) (H' w) = take (Suc k) (H t)" using assms(5) by (simp add: fs)
  have "k < length (H w)"
  proof (rule ccontr)
    assume "\<not> k < length (H w)"
    moreover have "k < length (H' w) \<and> H' w ! k = H t ! k" using take_Suc_nth [OF eq assms(5)] by simp
    ultimately have "H t ! k \<in> set es" using nth_mem [of "k - length (H w)" es] by (auto simp: es(1) nth_append)
    then show False using es(2) assms(6) w(2) by auto
  qed
  then show "take (Suc k) (H w) = take (Suc k) (H t)" using eq by (simp add: es(1))
qed

lemma keeps_entry:
  assumes m: "matching zero s W H" and ok: "writers_ok zero s W H" and sh: "shape n zero s" and st: "cstep s a = Some t" and v: "v < n"
    and u: "u \<in> fst ` W" "u \<le> currentTerm (cpeers s ! v)" "k < length (H u)"
    and has: "take (Suc k) (rlog (cpeers s ! v)) = take (Suc k) (H u)" and un: "unbroken W H u k (currentTerm (cpeers t ! v))"
  shows "take (Suc k) (rlog (cpeers t ! v)) = take (Suc k) (H u)"
proof -
  have len: "length (cpeers s) = n" using sh by (simp add: shape_def)
  have k: "Suc k \<le> length (rlog (cpeers s ! v))" using take_Suc_nth [OF has u(3)] by (simp add: Suc_leI)
  show ?thesis
    using st
  proof (cases rule: cstep_kinds)
    case (calm i rf')
    then show ?thesis using has by (cases "i = v") (auto simp: quiet_def)
  next
    case (append i command)
    then show ?thesis using has k by (cases "i = v") (auto simp: raft_Start_def)
  next
    case (handle src to ch args rf' reply sp ms)
    show ?thesis
    proof (cases "to = v")
      case True
      let ?xs = "rlog (cpeers s ! v)" and ?w = "aeTerm args"
      obtain l where l: "?w \<in> fst ` W" "sent_upto H args l" using writers_okD(3) [OF ok handle(2)] by blast
      define ys where "ys = take l (H ?w)"
      have sent: "sent_from args ys" "l \<le> length (H ?w)" using l(2) by (simp_all add: sent_upto_def ys_def)
      have shp: "log_ok ?xs" "ae_args_ok args"
        using sh handle(1,2) True by (auto simp: shape_def peer_shape_def call_shape_def log_shape_def)
      note r = AppendEntries_returns [OF shp [folded True] handle(3)]
      have t: "cpeers t ! v = rf'" using handle(1,4) True by simp
      show ?thesis
      proof (cases "ae_accepts (cpeers s ! to) args")
        case acc: True
        have w: "u \<le> ?w" "currentTerm rf' = ?w" using acc u(2) r(2) True by (auto simp: ae_accepts_def)
        have agree: "take (Suc k) (H ?w) = take (Suc k) (H u)"
          using un l(1) w t by (cases "u = ?w") (auto simp: unbroken_def)
        let ?p = "nat (PrevLogIndex args)"
        have p: "Suc ?p \<le> length ?xs" "Suc ?p \<le> length ys" "Entries args = drop (Suc ?p) ys"
          using acc sent(1) shp(2) True by (auto simp: ae_accepts_def sent_from_def ae_args_ok_def)
        have "take (min (Suc k) (length ys)) ys = take (min (Suc k) (length ys)) (take (Suc k) (H ?w))"
          by (simp add: ys_def min.commute)
        also have "\<dots> = take (min (Suc k) (length ys)) (take (Suc k) ?xs)" using agree has by simp
        also have "\<dots> = take (min (Suc k) (length ys)) ?xs" by simp
        finally have "take (Suc k) (merge_log ?xs (Suc ?p) (drop (Suc ?p) ys)) = take (Suc k) ?xs"
          by (rule merge_keeps [OF p(1,2) k])
        then show ?thesis using r(1) acc has t p(3) True by simp
      qed (use r(1) has t True in simp)
    qed (use handle(4) has in simp)
  qed (use has in auto)
qed

subsection \<open>The steps that establish facts\<close>

lemma min_f64_nonneg: "0 \<le> a \<Longrightarrow> 0 \<le> b \<Longrightarrow> 0 \<le> min_f64 a b"
  by (simp add: min_f64_def f64_def)


lemma facts_cases:
  assumes "f \<in> facts s K a" "cstep s a = Some t"
  obtains (call) src to ch args rf' reply sp ms where "a = DeliverCall (AECall src to ch args)" "(src, to, ch, args) \<in> aes (cnet s)"
      "to < length (cpeers s)" "AppendEntries (cpeers s ! to) args = Inr (rf', reply, sp, ms)" "Success reply"
      "cpeers t = (cpeers s)[to := rf']" "f = Stored (aeTerm args) to (nat (PrevLogIndex args) + length (Entries args))"
  | (commit) i k rf' ms where "a = Tick i (CommitAt k)" "i < length (cpeers s)" "commitAt (cpeers s ! i) k = Inr (rf', ms)"
      "commitIndex rf' \<noteq> commitIndex (cpeers s ! i)" "cpeers t = (cpeers s)[i := rf']"
      "f \<in> (if counts_true K (cpeers s ! i) k
        then {Committed (currentTerm rf') i (nat k), Stored (currentTerm rf') i (nat k)} else {Overcounted (currentTerm rf') i (nat k)})"
proof (cases "(s, K, a)" rule: facts.cases)
  case (1 s0 K0 src to ch args)
  then obtain rf' reply sp ms where r: "AppendEntries (cpeers s ! to) args = Inr (rf', reply, sp, ms)" "Success reply"
    "f = Stored (aeTerm args) to (nat (PrevLogIndex args) + length (Entries args))"
    using assms(1) by (auto split: sum.splits if_splits)
  have d: "AECall src to ch args \<in> set (cnet s)" "to < length (cpeers s)"
    "Some t = map_option (put_result (s\<lparr>cnet := remove1 (AECall src to ch args) (cnet s)\<rparr>) to) (deliver_call (cpeers s ! to) (AECall src to ch args))"
    using assms(2) 1 by (auto split: if_splits)
  then have "cpeers t = (cpeers s)[to := rf']" using r(1) by (auto simp: put_result_def put_effect_def split: if_splits)
  then show thesis using call [of src to ch args rf' reply sp ms] 1 d(1,2) r by (simp add: aes_def)
next
  case (2 s0 K0 i k)
  then obtain rf' ms where r: "commitAt (cpeers s ! i) k = Inr (rf', ms)" "commitIndex rf' \<noteq> commitIndex (cpeers s ! i)"
    "f \<in> (if counts_true K (cpeers s ! i) k
        then {Committed (currentTerm rf') i (nat k), Stored (currentTerm rf') i (nat k)} else {Overcounted (currentTerm rf') i (nat k)})"
    using assms(1) by (auto split: sum.splits if_splits)
  have "i < length (cpeers s)" "cpeers t = (cpeers s)[i := rf']"
    using assms(2) 2 r(1) by (auto simp: put_result_def put_effect_def split: if_splits)
  then show thesis using commit [of i k rf' ms] 2 r by simp
qed (use assms(1) in auto)

subsection \<open>The steps that commit\<close>

definition steady :: "'c Raft \<Rightarrow> 'c Raft \<Rightarrow> bool" where
  "steady rf rf' \<longleftrightarrow> commitIndex rf' = commitIndex rf \<and> lastApplied rf' = lastApplied rf"

lemma run_tick_steady:
  assumes "run_tick rf ch rt = Some (Inr (rf', rts, pkts, ms))" "\<And>k. rt \<noteq> CommitAt k"
  shows "steady rf rf' \<and> ms = []"
proof (cases rt)
  case ElectStart
  then show ?thesis
    using assms(1) by (auto simp: raft_defs bind_result_Inr_iff steady_def split: if_splits dest!: startElection_begin_eq)
next
  case (HandleUpd c reply)
  then obtain out where "handleReply_update rf reply = Inr (rf', out)" and u: "ms = []"
    using assms(1) by (auto simp: raft_defs bind_result_Inr_iff)
  then have "steady rf rf'"
    unfolding handleReply_update_def steady_def bind_result_Inr_iff slice_get_Inr_iff Let_def
    by (cases "Success reply"; cases "IsHeartbeat reply") (clarsimp simp: bind_result_Inr_iff slice_get_Inr_iff)+
  then show ?thesis using u by simp
qed (use assms in \<open>auto simp: raft_defs bind_result_Inr_iff steady_def raft_Start_def toFollower_enter_def toCandidate_round_def toLeader_enter_def\<close>)

lemma run_input_steady: "run_input rf rt inp = Some (rf', rts, pkts, ms) \<Longrightarrow> steady rf rf' \<and> ms = []"
  by (cases "(rf, rt, inp)" rule: run_input.cases; cases inp)
    (auto simp: steady_def toFollower_rpc_def toFollower_timeout_def startElection_reply_def raft_defs handleReply_term_def Let_def
      split: if_splits)

lemma AppendEntries_commits:
  assumes "log_ok (rlog rf)" "ae_args_ok args" "AppendEntries rf args = Inr (rf', reply, sp, ms)"
  shows "lastApplied rf' = lastApplied rf \<and>
    (commitIndex rf' = commitIndex rf \<and> ms = [] \<or>
     ae_accepts rf args \<and> commitIndex rf < LeaderCommit args \<and> commitIndex rf' = min_f64 (LeaderCommit args) (int (length (rlog rf')) - 1) \<and>
     apply_loop (rlog rf') (commitIndex rf) (commitIndex rf') = Inr ms)"
proof -
  obtain rf1 sp1 where f: "follow (rpc_notify rf 2) (aeTerm args) (rstate rf = CANDIDATE) = (rf1, sp1)" by fastforce
  have rf1: "commitIndex rf1 = commitIndex rf" "lastApplied rf1 = lastApplied rf"
    using follow_frame [of "rpc_notify rf 2" "aeTerm args" "rstate rf = CANDIDATE"] f by auto
  consider (stale) "aeTerm args < currentTerm rf" | (reject) "currentTerm rf \<le> aeTerm args" "\<not> ae_accepts rf args"
    | (accept) "ae_accepts rf args" by (meson ae_accepts_def leI)
  then show ?thesis
  proof cases
    case stale
    then show ?thesis using AppendEntries_stale [OF stale] assms(3) by auto
  next
    case reject
    then show ?thesis using AppendEntries_reject [OF reject(1) assms(2) reject(2) f] assms(3) rf1 by auto
  next
    case accept
    let ?lg = "merge_log (rlog rf) (Suc (nat (PrevLogIndex args))) (Entries args)"
    have p: "Suc (nat (PrevLogIndex args)) \<le> length (rlog rf)" using accept assms(2) by (auto simp: ae_accepts_def ae_args_ok_def)
    have lg: "log_ok ?lg" using merge_log_ok [OF assms(1) _ _ p] assms(2) by (simp add: ae_args_ok_def)
    obtain rf2 where c: "ae_commit (rf1\<lparr>rlog := ?lg\<rparr>) args = Inr (rf2, ms)" "rf' = rf2"
      using assms(3) [unfolded AppendEntries_accept [OF accept assms(2,1) f]] by (auto simp: bind_result_Inr_iff)
    have e: "eIndex (?lg ! (length ?lg - 1)) = int (length ?lg) - 1"
      using log_ok_length [OF lg] log_ok_nth [OF lg, of "length ?lg - 1"] by linarith
    show ?thesis
    proof (cases "commitIndex rf < LeaderCommit args")
      case True
      then show ?thesis
        using c accept rf1 unfolding ae_commit_def
        by (auto simp: log_ok_last [OF lg] e [simplified] bind_result_Inr_iff Let_def)
    next
      case False
      then show ?thesis using c rf1 by (auto simp: ae_commit_def)
    qed
  qed
qed

lemma commit_kinds:
  assumes "cstep s a = Some t"
  obtains
    (still) "\<And>i. i < length (cpeers s) \<Longrightarrow> steady (cpeers s ! i) (cpeers t ! i)" "capplied t = capplied s"
  | (commit) i k rf' ms where "a = Tick i (CommitAt k)" "i < length (cpeers s)" "commitAt (cpeers s ! i) k = Inr (rf', ms)"
      "cpeers t = (cpeers s)[i := rf']" "capplied t = capplied s @ map (Pair i) ms"
  | (handle) src to ch args rf' reply sp ms where "(src, to, ch, args) \<in> aes (cnet s)" "to < length (cpeers s)"
      "AppendEntries (cpeers s ! to) args = Inr (rf', reply, sp, ms)" "cpeers t = (cpeers s)[to := rf']"
      "capplied t = capplied s @ map (Pair to) ms" "writers s a = {}"
proof -
  have one: thesis if "cpeers t = (cpeers s)[i := rf']" "steady (cpeers s ! i) rf'" "capplied t = capplied s" for i rf'
  proof (rule still)
    show "steady (cpeers s ! j) (cpeers t ! j)" if "j < length (cpeers s)" for j
      using \<open>cpeers t = _\<close> \<open>steady _ rf'\<close> that by (cases "i = j") (auto simp: steady_def)
  qed (rule that(3))
  have none: thesis if "cpeers t = cpeers s" "capplied t = capplied s"
    by (rule still) (simp_all add: that steady_def)
  show thesis
  proof (cases a)
    case (Tick i rt)
    let ?u = "s\<lparr>croutines := remove1 (i, rt) (croutines s)\<rparr>"
    obtain r where r: "i < length (cpeers s)" "run_tick (cpeers s ! i) (cfresh s) rt = Some r" "t = put_result ?u i r"
      using assms Tick by (auto split: if_splits)
    show thesis
    proof (cases r)
      case (Inl e)
      then show thesis using none r(3) by (simp add: put_result_def)
    next
      case (Inr eff)
      obtain rf' rts pkts ms where eff: "eff = (rf', rts, pkts, ms)" using prod_cases4 by blast
      have t: "cpeers t = (cpeers s)[i := rf']" "capplied t = capplied s @ map (Pair i) ms"
        using r(3) by (simp_all add: Inr eff put_result_def put_effect_def)
      show thesis
      proof (cases "\<exists>k. rt = CommitAt k")
        case True
        then obtain k where k: "rt = CommitAt k" by blast
        then have "commitAt (cpeers s ! i) k = Inr (rf', ms)" using r(2) by (auto simp: Inr eff bind_result_Inr_iff)
        then show thesis using commit [of i k rf' ms] Tick k r(1) t by simp
      next
        case False
        then have "steady (cpeers s ! i) rf' \<and> ms = []" using run_tick_steady [OF r(2) [unfolded Inr eff]] by blast
        then show thesis using one [OF t(1)] t(2) by simp
      qed
    qed
  next
    case (Input i rt inp)
    obtain rf' rts pkts ms where r: "run_input (cpeers s ! i) rt inp = Some (rf', rts, pkts, ms)"
      "t = put_effect (s\<lparr>croutines := remove1 (i, rt) (croutines s),
            cnet := (case taken_packet i rt inp of None \<Rightarrow> cnet s | Some p \<Rightarrow> remove1 p (cnet s))\<rparr>) i (rf', rts, pkts, ms)"
      using assms Input by (auto split: if_splits)
    then show thesis using one [of i rf'] run_input_steady [OF r(1)] by (simp add: put_effect_def)
  next
    case (DeliverCall p)
    let ?i = "packet_to p"
    obtain r where r: "p \<in> set (cnet s)" "?i < length (cpeers s)" "deliver_call (cpeers s ! ?i) p = Some r"
      "t = put_result (s\<lparr>cnet := remove1 p (cnet s)\<rparr>) ?i r"
      using assms DeliverCall by (auto split: if_splits)
    show thesis
    proof (cases r)
      case (Inl e)
      then show thesis using none r(4) by (simp add: put_result_def)
    next
      case (Inr eff)
      obtain rf' rts pkts ms where eff: "eff = (rf', rts, pkts, ms)" using prod_cases4 by blast
      have t: "cpeers t = (cpeers s)[?i := rf']" "capplied t = capplied s @ map (Pair ?i) ms"
        using r(4) by (simp_all add: Inr eff put_result_def put_effect_def)
      show thesis
      proof (cases p)
        case (RVCall src to ch args)
        obtain rf0 reply sp where v: "RequestVote (cpeers s ! to) args = (rf0, reply, sp)" using prod_cases3 by blast
        then have "rf' = rf0" "ms = []" using r(3) RVCall by (auto simp: Inr eff split: if_splits)
        then show thesis using one [OF t(1)] t(2) RequestVote_returns(6,7) [OF v] RVCall by (simp add: steady_def)
      next
        case (AECall src to ch args)
        then obtain reply sp where "AppendEntries (cpeers s ! to) args = Inr (rf', reply, sp, ms)"
          using r(3) by (auto simp: Inr eff bind_result_Inr_iff split: if_splits)
        then show thesis using handle [of src to ch args rf' reply sp ms] AECall r(1,2) t DeliverCall by (auto simp: aes_def)
      qed (use r(3) in auto)
    qed
  next
    case (Lose p)
    then show thesis using assms none by (auto split: if_splits)
  next
    case (ClientStart i command)
    then show thesis using assms none by (auto split: if_splits)
  next
    case (KillPeer i)
    then show thesis
      using assms one [of i "raft_Kill (cpeers s ! i)"] by (auto simp: raft_Kill_def steady_def split: if_splits)
  qed
qed

lemma creach_commit_nonneg:
  "creach n zero s W \<Longrightarrow> i < n \<Longrightarrow> 0 \<le> commitIndex (cpeers s ! i) \<and> 0 \<le> lastApplied (cpeers s ! i)"
proof (induction arbitrary: i rule: creach.induct)
  case start
  then show ?case by (simp add: cluster_init_def raft_Make_def)
next
  case (step s W a t)
  have sh: "shape n zero s" "shape n zero t" using creach_shape [OF step.hyps(1)] creach_shape [OF creach.step [OF step.hyps]] by blast+
  have len: "length (cpeers s) = n" using sh(1) by (simp add: shape_def)
  note ih = step.IH [OF step.prems]
  from step.hyps(2) show ?case
  proof (cases rule: commit_kinds)
    case still
    then show ?thesis using ih step.prems len by (simp add: steady_def)
  next
    case (commit j k rf' ms)
    have "\<exists>c l. rf' = (cpeers s ! j)\<lparr>commitIndex := c, lastApplied := l\<rparr> \<and> commitIndex (cpeers s ! j) \<le> c"
      by (rule commitAt_frame [OF commit(3)])
    moreover have "me (cpeers s ! j) < numPeers (cpeers s ! j)" using sh(1) commit(2) len by (simp add: shape_def peer_shape_def)
    from commitAt_returns [OF commit(3) this]
    have "rf' = cpeers s ! j \<or> lastApplied rf' = max (lastApplied (cpeers s ! j)) (commitIndex rf')"
      by (elim disjE conjE) (simp, metis Raft.select_convs(7) Raft.surjective Raft.update_convs(7))
    ultimately show ?thesis using step.IH [of j] ih commit(2,4) len by (cases "j = i") auto
  next
    case (handle src to ch args rf' reply sp ms)
    have shp: "log_ok (rlog (cpeers s ! to))" "ae_args_ok args"
      using sh(1) handle(1,2) by (auto simp: shape_def peer_shape_def call_shape_def log_shape_def)
    have "0 < length (rlog rf')"
      using sh(2) handle(2,4) len log_ok_length [OF log_shape_ok] by (fastforce simp: shape_def peer_shape_def)
    then have "0 \<le> commitIndex rf' \<and> 0 \<le> lastApplied rf'"
      using AppendEntries_commits [OF shp handle(3)] step.IH [of to] handle(2) len min_f64_nonneg [of "LeaderCommit args" "int (length (rlog rf')) - 1"]
      by auto
    then show ?thesis using ih handle(2,4) by (cases "to = i") auto
  qed
qed

subsection \<open>What has been stored\<close>

lemma accepted_has:
  assumes m: "matching zero s W H" and logs: "writers_ok zero s W H" and sh: "shape n zero s"
    and c: "(src, to, ch, args) \<in> aes (cnet s)" "to < length (cpeers s)"
    and ret: "AppendEntries (cpeers s ! to) args = Inr (rf', reply, sp, ms)" "Success reply"
  defines "k \<equiv> nat (PrevLogIndex args) + length (Entries args)"
  shows "aeTerm args \<in> fst ` W" "k < length (H (aeTerm args))"
    "take (Suc k) (rlog rf') = take (Suc k) (H (aeTerm args))" "currentTerm rf' = aeTerm args"
proof -
  let ?xs = "rlog (cpeers s ! to)" and ?p = "nat (PrevLogIndex args)" and ?u = "aeTerm args"
  obtain l where l: "?u \<in> fst ` W" "sent_upto H args l" using writers_okD(3) [OF logs c(1)] by blast
  define ys where "ys = take l (H ?u)"
  have sent: "sent_from args ys" "l \<le> length (H ?u)" using l(2) by (simp_all add: sent_upto_def ys_def)
  have shp: "log_shape zero ?xs (currentTerm (cpeers s ! to))" "ae_args_ok args"
    using sh c by (auto simp: shape_def peer_shape_def call_shape_def)
  note r = AppendEntries_returns [OF log_shape_ok [OF shp(1)] shp(2) ret(1)]
  have acc: "ae_accepts (cpeers s ! to) args" using r(3) ret(2) by simp
  have p: "?p < length ?xs" "?p < length ys" "Entries args = drop (Suc ?p) ys" "eTerm (?xs ! ?p) = eTerm (ys ! ?p)"
    using acc sent(1) shp(2) by (auto simp: ae_accepts_def sent_from_def ae_args_ok_def)
  have k: "Suc k = length ys" using p(2,3) by (simp add: k_def)
  have "anchored W H ys" using writers_okD(1) [OF logs l(1)] by (simp add: ys_def anchored_def)
  moreover have "hd ?xs = hd ys"
    using shp(1) writers_okD(2) [OF logs l(1)] p(2) by (simp add: log_shape_def ys_def)
  moreover have "anchored W H ?xs" using matchingD(1) [OF m c(2)] .
  ultimately have "take (Suc k) (rlog rf') = ys"
    using merge_has [of W H ?xs ys ?p] p r(1) acc k by simp
  moreover have "take (Suc k) (H ?u) = ys" using sent(2) k by (simp add: ys_def)
  ultimately show "take (Suc k) (rlog rf') = take (Suc k) (H ?u)" by simp
  show "?u \<in> fst ` W" by (rule l(1))
  show "k < length (H ?u)" using k sent(2) by (simp add: ys_def)
  show "currentTerm rf' = ?u" using acc r(2) by (simp add: ae_accepts_def)
qed

lemma hreach_stored:
  "hreach n zero s W N K H E \<Longrightarrow> sound N \<Longrightarrow> Stored u v k \<in> K \<Longrightarrow>
     u \<in> fst ` W \<and> v < n \<and> k < length (H u) \<and> u \<le> currentTerm (cpeers s ! v) \<and>
     (\<forall>j \<le> k. eTerm (H u ! j) = u \<longrightarrow> unbroken W H u j (currentTerm (cpeers s ! v)) \<longrightarrow>
        take (Suc j) (rlog (cpeers s ! v)) = take (Suc j) (H u))"
proof (induction arbitrary: u v k rule: hreach.induct)
  case (step s W N K H E a t)
  note s = step.hyps(1) sound_mono [OF step.prems(1)]
  note t = hreach.step [OF step.hyps] step.prems(1)
  let ?W = "W \<union> writers s a" and ?H = "histories s a t H"
  have sh: "shape n zero s" "shape n zero t" by (rule hreach_shape [OF s(1)], rule hreach_shape [OF t(1)])
  have len: "length (cpeers s) = n" using sh(1) by (simp add: shape_def)
  have m: "matching zero s W H" "matching zero t ?W ?H" using hreach_matching [OF s] hreach_matching [OF t] by blast+
  have logs: "writers_ok zero s W H" by (rule hreach_logs [OF s])
  note grow = histories_grow [OF m(1) hreach_one_writer [OF t] step.hyps(2)]
  have tm: "currentTerm (cpeers s ! i) \<le> currentTerm (cpeers t ! i)" if "i < n" for i
    by (rule raft_terms_never_decrease [OF hreach_creach [OF s(1)] step.hyps(2) that])
  show ?case
  proof (cases "Stored u v k \<in> K")
    case True
    have o: "u \<in> fst ` W" "v < n" "k < length (H u)" "u \<le> currentTerm (cpeers s ! v)"
      "\<And>j. j \<le> k \<Longrightarrow> eTerm (H u ! j) = u \<Longrightarrow> unbroken W H u j (currentTerm (cpeers s ! v)) \<Longrightarrow>
        take (Suc j) (rlog (cpeers s ! v)) = take (Suc j) (H u)"
      using step.IH [OF s(2) True] by blast+
    obtain es where es: "?H u = H u @ es" using grow [OF o(1)] by blast
    have "take (Suc j) (rlog (cpeers t ! v)) = take (Suc j) (?H u)"
      if j: "j \<le> k" "eTerm (?H u ! j) = u" "unbroken ?W ?H u j (currentTerm (cpeers t ! v))" for j
    proof -
      have e: "j < length (H u)" "eTerm (H u ! j) = u" using j(1,2) o(3) by (simp_all add: es nth_append)
      have un: "unbroken W H u j x" if "x \<le> currentTerm (cpeers t ! v)" for x
        by (rule unbroken_back [OF j(3) that _ o(1) e grow]) simp_all
      have "take (Suc j) (rlog (cpeers s ! v)) = take (Suc j) (H u)" by (rule o(5) [OF j(1) e(2) un [OF tm [OF o(2)]]])
      from keeps_entry [OF m(1) logs sh(1) step.hyps(2) o(2,1,4) e(1) this un [OF order.refl]]
      show ?thesis using e(1) by (simp add: es)
    qed
    moreover have "u \<le> currentTerm (cpeers t ! v)" using o(2,4) tm [of v] by simp
    moreover have "u \<in> fst ` ?W" "k < length (?H u)" using o(1,3) by (auto simp: es)
    ultimately show ?thesis using o(2) by blast
  next
    case False
    then have "Stored u v k \<in> facts s K a" using step.prems(2) by blast
    from this step.hyps(2) show ?thesis
    proof (cases rule: facts_cases)
      case (call src to ch args rf' reply sp ms)
      then have f: "u = aeTerm args" "v = to" "k = nat (PrevLogIndex args) + length (Entries args)" by simp_all
      note h = accepted_has [OF m(1) logs sh(1) call(2-5)]
      have ws: "writers s a = {}" using call(1) by simp
      have eq: "take (Suc k) (rlog (cpeers t ! v)) = take (Suc k) (H u)" using h(3) call(3,6) f by simp
      have "currentTerm (cpeers t ! v) = u" using h(4) call(3,6) f by simp
      then show ?thesis using h(1,2) f ws call(3) len take_Suc_le [OF eq] by auto
    next
      case (commit i q rf' ms)
      let ?rf = "cpeers s ! i"
      have i: "i < n" "me ?rf < numPeers ?rf" using commit(2) len sh(1) by (simp_all add: shape_def peer_shape_def)
      have c: "commitIndex ?rf < q" "q < int (length (rlog ?rf))" "eTerm (rlog ?rf ! nat q) = currentTerm ?rf"
        using commitAt_returns [OF commit(3) i(2)] commit(4) by (auto split: if_splits)
      have rf': "rlog rf' = rlog ?rf" "currentTerm rf' = currentTerm ?rf" using commitAt_frame [OF commit(3)] by auto
      have f: "u = currentTerm ?rf" "v = i" "k = nat q" using commit(6) rf'(2) by (auto split: if_splits)
      have q: "0 < k" "k < length (rlog ?rf)" using c(1,2) f(3) creach_commit_nonneg [OF hreach_creach [OF s(1)] i(1)] by linarith+
      have a: "u \<in> fst ` W" "take (Suc k) (rlog ?rf) = take (Suc k) (H u)"
        using anchoredD [OF matchingD(1) [OF m(1) commit(2)] q] c(3) f by simp_all
      have ws: "writers s a = {}" using commit(1) by simp
      have "k < length (H u)" using take_Suc_nth [OF a(2) [symmetric] q(2)] by simp
      moreover have "rlog (cpeers t ! v) = rlog ?rf" "currentTerm (cpeers t ! v) = u" using commit(2,5) f rf' by simp_all
      ultimately show ?thesis using a ws f(2) i(1) take_Suc_le [OF a(2)] by auto
    qed
  qed
qed simp

subsection \<open>Votes that were given in time\<close>

lemma hreach_early:
  "hreach n zero s W N K H E \<Longrightarrow> (\<forall>(u, v, c) \<in> E. Voted u v c \<in> N) \<and> (\<forall>u v c. Voted u v c \<in> N \<longrightarrow> u \<notin> fst ` W \<longrightarrow> (u, v, c) \<in> E)"
  by (induction rule: hreach.induct) (simp, auto simp: image_Un)

lemma hreach_majority:
  "hreach n zero s W N K H E \<Longrightarrow> sound N \<Longrightarrow> Won u i \<in> N \<Longrightarrow> \<exists>Q. majority n Q \<and> (\<forall>v \<in> Q. (u, v, int i) \<in> E)"
proof (induction rule: hreach.induct)
  case (step s W N K H E a t)
  note s = step.hyps(1) sound_mono [OF step.prems(1)]
  note t = hreach.step [OF step.hyps] step.prems(1)
  have old: ?case if "Won u i \<in> N" using step.IH [OF s(2) that] by blast
  show ?case
  proof (cases "Won u i \<in> N")
    case False
    then have new: "Won u i \<in> memos s a" using step.prems(2) by blast
    obtain Q where Q: "majority n Q" "\<forall>v \<in> Q. Voted u v (int i) \<in> N \<union> memos s a"
      using hreach_elections(3) [OF t] step.prems(2) unfolding leaders_ok_def by blast
    have "u \<notin> fst ` (W \<union> writers s a)"
    proof
      assume "u \<in> fst ` (W \<union> writers s a)"
      then obtain q where q: "(u, q) \<in> W \<union> writers s a" by (metis fst_conv imageE surj_pair)
      then have "Won u q \<in> N \<union> memos s a" by (rule hreach_won [OF t])
      then have "q = i" using winners_agree [OF hreach_elections(3) [OF t] soundD(1) [OF t(2)]] step.prems(2) by blast
      moreover have "writers s a = {}" using new by (cases "(s, a)" rule: memos.cases) (auto split: if_splits)
      ultimately have "(u, i) \<in> W" using q by simp
      then show False using hreach_won [OF s] False by blast
    qed
    then have "(u, v, int i) \<in> E \<union> {(u, v, c). Voted u v c \<in> memos s a \<and> u \<notin> fst ` W}" if "v \<in> Q" for v
      using conjunct2 [OF hreach_early [OF t(1)], rule_format, of u v "int i"] Q(2) that by simp
    then show ?thesis using Q(1) by blast
  qed (rule old)
qed simp

text \<open>A log with an entry of term \<open>t\<close> at index \<open>j\<close> grants a vote only to logs that end at least there.\<close>

lemma log_ends_after:
  assumes "log_shape zero lg w" "j < length lg" "eTerm (lg ! j) = t"
  shows "t < eTerm (lg ! (length lg - 1)) \<or> t = eTerm (lg ! (length lg - 1)) \<and> j \<le> length lg - 1"
  using assms sorted_nth_mono [of "map eTerm lg" j "length lg - 1"] by (auto simp: log_shape_def)

lemma candidate_has:
  assumes "isCandUpToDate rf a" "log_shape zero (rlog rf) w" "j < length (rlog rf)" "eTerm (rlog rf ! j) = t"
  shows "t < rvLastLogTerm a \<or> t = rvLastLogTerm a \<and> int j \<le> rvLastLogIndex a"
  using assms(1) log_ends_after [OF assms(2-4)] assms(3) by (auto simp: isCandUpToDate_def Let_def split: if_splits)

lemma hreach_votes:
  "hreach n zero s W N K H E \<Longrightarrow> sound N \<Longrightarrow> (u, v, c) \<in> E \<Longrightarrow> Stored t v k \<in> K \<Longrightarrow> j \<le> k \<Longrightarrow> eTerm (H t ! j) = t \<Longrightarrow>
     t < u \<Longrightarrow> unbroken W H t j (u - 1) \<Longrightarrow>
     \<exists>ch i a. c = int i \<and> Asked ch i a \<in> N \<and> rvTerm a = u \<and> (t < rvLastLogTerm a \<or> t = rvLastLogTerm a \<and> int j \<le> rvLastLogIndex a)"
proof (induction arbitrary: u v c t k j rule: hreach.induct)
  case (step s W N K H E a s')
  note s = step.hyps(1) sound_mono [OF step.prems(1)]
  note s' = hreach.step [OF step.hyps] step.prems(1)
  let ?W = "W \<union> writers s a" and ?H = "histories s a s' H"
  have sh: "shape n zero s" by (rule hreach_shape [OF s(1)])
  have len: "length (cpeers s) = n" using sh by (simp add: shape_def)
  note grow = histories_grow [OF hreach_matching [OF s] hreach_one_writer [OF s'] step.hyps(2)]
  show ?case
  proof (cases "Stored t v k \<in> K")
    case False
    then have new: "Stored t v k \<in> facts s K a" using step.prems(3) by blast
    have E: "(u, v, c) \<in> E"
      using step.prems(2) new by (cases "(s, K, a)" rule: facts.cases) auto
    then have "Voted u v c \<in> N" using hreach_early [OF s(1)] by blast
    then have v: "v < n" "u \<le> currentTerm (cpeers s ! v)" using ereach_voted [OF hreach_ereach [OF s(1)]] by blast+
    from new step.hyps(2) have "currentTerm (cpeers s ! v) \<le> t"
    proof (cases rule: facts_cases)
      case (call src to ch args rf' reply sp ms)
      have shp: "log_ok (rlog (cpeers s ! to))" "ae_args_ok args"
        using sh call(2,3) by (auto simp: shape_def peer_shape_def call_shape_def log_shape_def)
      have "ae_accepts (cpeers s ! to) args" using AppendEntries_returns(3) [OF shp call(4)] call(5) by simp
      then show ?thesis using call(7) by (simp add: ae_accepts_def)
    next
      case (commit i q rf' ms)
      have "currentTerm rf' = currentTerm (cpeers s ! i)" using commitAt_frame [OF commit(3)] by auto
      then show ?thesis using commit(6) by (auto split: if_splits)
    qed
    then show ?thesis using v(2) step.prems(6) by simp
  next
    case True
    have st: "t \<in> fst ` W" "v < n" "k < length (H t)" "t \<le> currentTerm (cpeers s ! v)"
      "\<And>j. j \<le> k \<Longrightarrow> eTerm (H t ! j) = t \<Longrightarrow> unbroken W H t j (currentTerm (cpeers s ! v)) \<Longrightarrow>
        take (Suc j) (rlog (cpeers s ! v)) = take (Suc j) (H t)"
      using hreach_stored [OF s True] by blast+
    obtain es where es: "?H t = H t @ es" using grow [OF st(1)] by blast
    have e: "j < length (H t)" "eTerm (H t ! j) = t" using step.prems(4,5) st(3) by (simp_all add: es nth_append)
    have un: "unbroken W H t j (u - 1)"
      by (rule unbroken_back [OF step.prems(7) order.refl _ st(1) e grow]) simp_all
    show ?thesis
    proof (cases "(u, v, c) \<in> E")
      case old: True
      from step.IH [OF s(2) this True step.prems(4) e(2) step.prems(6) un] show ?thesis by blast
    next
      case False
      then have new: "Voted u v c \<in> memos s a" "u \<notin> fst ` W" using step.prems(2) by auto
      let ?rf = "cpeers s ! v"
      have lg: "log_shape zero (rlog ?rf) (currentTerm ?rf)" using sh st(2) by (simp add: shape_def peer_shape_def)
      have has: "j < length (rlog ?rf) \<and> eTerm (rlog ?rf ! j) = t" if "currentTerm ?rf \<le> u"
      proof -
        have "unbroken W H t j (currentTerm ?rf)"
          unfolding unbroken_def
        proof (intro ballI impI)
          fix w assume w: "w \<in> fst ` W" "t < w" "w \<le> currentTerm ?rf"
          then have "w \<noteq> u" using new(2) by blast
          then have "w \<le> u - 1" using w(3) that by simp
          then show "take (Suc j) (H w) = take (Suc j) (H t)" using un w(1,2) unfolding unbroken_def by blast
        qed
        then have "take (Suc j) (rlog ?rf) = take (Suc j) (H t)" by (rule st(5) [OF step.prems(4) e(2)])
        then show ?thesis using take_Suc_nth [OF _ e(1) order.refl] e(2) by metis
      qed
      from step.hyps(2) show ?thesis
      proof (cases rule: estep_kinds)
        case calm
        then show ?thesis using new(1) by (auto simp: calm_step_def)
      next
        case (ask i rf0 args)
        then have i: "i = v" "u = currentTerm ?rf" "c = int v" using new(1) by auto
        let ?lg = "rlog ?rf"
        have h: "j < length ?lg" "eTerm (?lg ! j) = t" using has i(2) by simp_all
        have ne: "nat (int (length ?lg) - 1) = length ?lg - 1" by simp
        have last: "rvLastLogTerm args = eTerm (?lg ! (length ?lg - 1))" "rvLastLogIndex args = eIndex (?lg ! (length ?lg - 1))"
          using ask(8) i(1) h(1) by (auto simp: startElection_begin_def Let_def bind_result_Inr_iff slice_get_Inr_iff ne)
        have "rvLastLogIndex args = int (length ?lg) - 1"
          using last(2) log_ok_nth [OF log_shape_ok [OF lg], of "length ?lg - 1"] h(1) by simp
        then have "t < rvLastLogTerm args \<or> t = rvLastLogTerm args \<and> int j \<le> rvLastLogIndex args"
          using log_ends_after [OF lg h] last(1) h(1) by auto
        moreover have "Asked (cfresh s) v args \<in> N \<union> memos s a" using ask(7) i(1) by simp
        ultimately show ?thesis using i ask(2) by blast
      next
        case (grant src to ch args rf' reply sp)
        then have g: "to = v" "u = rvTerm args" "c = CandidateId args" using new(1) by auto
        note R = RequestVote_returns [OF grant(10)]
        have up: "currentTerm ?rf \<le> u" "isCandUpToDate ?rf args" using R(1) grant(5) g(1,2) by auto
        have "t < rvLastLogTerm args \<or> t = rvLastLogTerm args \<and> int j \<le> rvLastLogIndex args"
          using candidate_has [OF up(2) lg] has [OF up(1)] by blast
        moreover have "Asked ch src args \<in> N" using network_okD(1) [OF hreach_elections(2) [OF s] grant(2)] by blast
        moreover have "CandidateId args = int src" using elections_okD(1) [OF hreach_elections(1) [OF s] \<open>Asked ch src args \<in> N\<close>] by blast
        ultimately show ?thesis using g(2,3) by blast
      next
        case (count i ch reply)
        then show ?thesis using new(1) by (simp split: if_splits)
      qed
    qed
  qed
qed simp

subsection \<open>Later leaders\<close>

lemma hreach_committed:
  "hreach n zero s W N K H E \<Longrightarrow> sound N \<Longrightarrow> no_overcount K \<Longrightarrow> Committed t i k \<in> K \<Longrightarrow>
     t \<in> fst ` W \<and> 0 < k \<and> k < length (H t) \<and> eTerm (H t ! k) = t \<and> (\<exists>Q. majority n Q \<and> (\<forall>v \<in> Q. \<exists>l \<ge> k. Stored t v l \<in> K))"
proof (induction rule: hreach.induct)
  case (step s W N K H E a s')
  note s = step.hyps(1) sound_mono [OF step.prems(1)]
  note s' = hreach.step [OF step.hyps] step.prems(1)
  let ?K = "K \<union> facts s K a" and ?H = "histories s a s' H"
  have sh: "shape n zero s" by (rule hreach_shape [OF s(1)])
  have len: "length (cpeers s) = n" using sh by (simp add: shape_def)
  have m: "matching zero s W H" by (rule hreach_matching [OF s])
  have no: "no_overcount K" using step.prems(2) by (simp add: no_overcount_def)
  show ?case
  proof (cases "Committed t i k \<in> K")
    case True
    obtain Q where o: "t \<in> fst ` W" "0 < k" "k < length (H t)" "eTerm (H t ! k) = t" "majority n Q" "\<forall>v \<in> Q. \<exists>l \<ge> k. Stored t v l \<in> K"
      using step.IH [OF s(2) no True] by blast
    obtain es where "?H t = H t @ es" using histories_grow [OF m hreach_one_writer [OF s'] step.hyps(2) o(1)] by blast
    then have "t \<in> fst ` (W \<union> writers s a) \<and> 0 < k \<and> k < length (?H t) \<and> eTerm (?H t ! k) = t" using o(1-4) by (auto simp: nth_append)
    moreover have "\<forall>v \<in> Q. \<exists>l \<ge> k. Stored t v l \<in> ?K" using o(6) by blast
    ultimately show ?thesis using o(5) by blast
  next
    case False
    then have "Committed t i k \<in> facts s K a" using step.prems(3) by blast
    from this step.hyps(2) show ?thesis
    proof (cases rule: facts_cases)
      case (commit j q rf' ms)
      let ?rf = "cpeers s ! j"
      have j: "j < n" "me ?rf = j" "numPeers ?rf = n" using commit(2) len sh by (simp_all add: shape_def peer_shape_def)
      have c: "commitIndex ?rf < q" "q < int (length (rlog ?rf))" "eTerm (rlog ?rf ! nat q) = currentTerm ?rf" "majority n (acked ?rf q)"
        using commitAt_returns [OF commit(3)] commit(4) j by (auto split: if_splits)
      have tm: "currentTerm rf' = currentTerm ?rf" using commitAt_frame [OF commit(3)] by auto
      have f: "counts_true K ?rf q" "t = currentTerm ?rf" "i = j" "k = nat q" using commit(6) tm by (auto split: if_splits)
      have k: "0 < k" "k < length (rlog ?rf)" using c(1,2) f(4) creach_commit_nonneg [OF hreach_creach [OF s(1)] j(1)] by linarith+
      have a: "t \<in> fst ` W" "take (Suc k) (rlog ?rf) = take (Suc k) (H t)"
        using anchoredD [OF matchingD(1) [OF m commit(2)] k] c(3) f by simp_all
      have h: "k < length (H t)" "H t ! k = rlog ?rf ! k" using take_Suc_nth [OF a(2) [symmetric] k(2)] by simp_all
      have ws: "writers s a = {}" using commit(1) by simp
      have "\<exists>l \<ge> k. Stored t v l \<in> ?K" if v: "v \<in> acked ?rf q" for v
      proof (cases "v = j")
        case True
        have "a = Tick j (CommitAt q)" by (rule commit(1))
        then have "Stored t j k \<in> facts s K a" using commit(3,4) f tm by simp
        then show ?thesis using True by blast
      next
        case False
        then have "stored K t v k" using v f j by (auto simp: acked_def counts_true_def)
        then obtain x where "x \<in> K" "stores t v k x" by (auto simp: stored_def)
        then show ?thesis by (cases x) auto
      qed
      then show ?thesis using a(1) k(1) h c(3,4) f(2,4) ws by auto
    qed auto
  qed
qed simp

lemma hreach_complete:
  assumes h: "hreach n zero s W N K H E" and sd: "sound N" and no: "no_overcount K" and c: "Committed t i k \<in> K"
  shows "(u, p) \<in> W \<Longrightarrow> t < u \<Longrightarrow> take (Suc k) (H u) = take (Suc k) (H t)"
proof (induction "nat (u - t)" arbitrary: u p rule: less_induct)
  case less
  have ih: "take (Suc k) (H w) = take (Suc k) (H t)" if "w \<in> fst ` W" "t < w" "w < u" for w
  proof -
    note w = that
    obtain q where "(w, q) \<in> W" using w(1) by force
    moreover have "nat (w - t) < nat (u - t)" using w(2,3) by simp
    ultimately show ?thesis using less.hyps w(2) by blast
  qed
  have logs: "writers_ok zero s W H" by (rule hreach_logs [OF h sd])
  obtain Q where C: "t \<in> fst ` W" "0 < k" "k < length (H t)" "eTerm (H t ! k) = t" "majority n Q" "\<forall>v \<in> Q. \<exists>l \<ge> k. Stored t v l \<in> K"
    using hreach_committed [OF h sd no c] by blast
  obtain R where R: "majority n R" "\<forall>v \<in> R. (u, v, int p) \<in> E"
    using hreach_majority [OF h sd hreach_won [OF h sd less.prems(1)]] by blast
  obtain v where v: "v \<in> Q" "v \<in> R" by (rule maj.common_member [OF C(5) R(1)])
  then obtain l where l: "k \<le> l" "Stored t v l \<in> K" using C(6) by blast
  have "unbroken W H t k (u - 1)" unfolding unbroken_def using ih by simp
  from hreach_votes [OF h sd _ l(2,1) C(4) less.prems(2) this] R(2) v(2)
  obtain ch a where a: "Asked ch p a \<in> N" "rvTerm a = u" "t < rvLastLogTerm a \<or> t = rvLastLogTerm a \<and> int k \<le> rvLastLogIndex a"
    by fastforce
  obtain dh b where b: "Asked dh p b \<in> N" "based (H u) u b" using hreach_based [OF h sd less.prems(1)] by blast
  have "dh = ch" using soundD(2) [OF sd] a(1,2) b unfolding one_election_def based_def by metis
  then have "b = a" using elections_okD(2) [OF hreach_elections(1) [OF h sd]] a(1) b(1) by blast
  then have B: "based (H u) u a" using b(2) by simp
  let ?x = "nat (rvLastLogIndex a)"
  have u: "u \<in> fst ` W" using less.prems(1) by force
  have lu: "log_shape zero (H u) u" and lt: "log_shape zero (H t) t" using writers_okD(2) [OF logs] u C(1) by blast+
  have t0: "0 \<le> t"
  proof -
    have "H t ! k \<in> set (H t)" using C(3) by simp
    then show ?thesis using log_shape_terms_ok [OF lt] C(4) by (auto simp: terms_ok_def)
  qed
  have x: "?x < length (H u)" "eTerm (H u ! ?x) = rvLastLogTerm a" "0 < rvLastLogIndex a \<Longrightarrow> rvLastLogTerm a < u"
    using B by (simp_all add: based_def)
  have pos: "0 < ?x"
  proof (rule ccontr)
    assume z: "\<not> 0 < ?x"
    have "H u ! 0 = hd (H u)" using x(1) by (intro hd_conv_nth [symmetric]) auto
    then have "rvLastLogTerm a = 0" using x(2) z lu by (simp add: log_shape_def)
    then show False using a(3) t0 z C(2) B by (auto simp: based_def)
  qed
  have A: "rvLastLogTerm a \<in> fst ` W" "take (Suc ?x) (H u) = take (Suc ?x) (H (rvLastLogTerm a))"
    using anchoredD [OF writers_okD(1) [OF logs u] pos x(1)] x(2) by simp_all
  from a(3) show ?case
  proof
    assume tau: "t < rvLastLogTerm a"
    have eq: "take (Suc k) (H (rvLastLogTerm a)) = take (Suc k) (H t)" by (rule ih [OF A(1) tau x(3)]) (use pos in simp)
    have "k \<le> ?x"
    proof (rule ccontr)
      assume "\<not> k \<le> ?x"
      then have "?x < length (H t) \<and> H u ! ?x = H t ! ?x"
        using take_Suc_nth [OF eq C(3), of ?x] take_Suc_nth [OF A(2) [symmetric] x(1) order.refl] C(3) by simp
      moreover have "\<forall>e \<in> set (H t). eTerm e \<le> t" using lt by (simp add: log_shape_def)
      ultimately have "rvLastLogTerm a \<le> t" using x(2) by (metis nth_mem)
      then show False using tau by simp
    qed
    then show ?thesis using take_Suc_le [OF A(2)] eq by metis
  next
    assume e: "t = rvLastLogTerm a \<and> int k \<le> rvLastLogIndex a"
    then have "k \<le> ?x" by linarith
    from take_Suc_le [OF A(2) this] show ?thesis using e by simp
  qed
qed

end
