(* ===== verification/Raft_Machine.thy ===== *)
theory Raft_Machine
  imports Raft_Completeness
begin

section \<open>Raft: what is applied\<close>

text \<open>
  The commit index of every peer, and that of every call under way, is covered by a commit of a leader, and up to there the log of
  the peer is that of the leader that committed. So every message applied, by a leader in \<^verbatim>\<open>commitAt\<close> or by a follower in
  \<^verbatim>\<open>AppendEntries\<close>, is one of an entry below such a commit (\<open>hreach_machine\<close>).
\<close>

subsection \<open>Lengths\<close>

text \<open>A log grows in a step that uses up a fresh number, so the number of steps bounds it.\<close>

lemma put_result_fresh:
  "cfresh s \<le> cfresh (put_result s i r) \<and> (cpeers (put_result s i r) = cpeers s \<or> cfresh (put_result s i r) = Suc (cfresh s))"
  by (cases r) (auto simp: put_result_def put_effect_def split: prod.splits)

lemma put_effect_fresh: "cfresh (put_effect s i eff) = Suc (cfresh s)"
  by (simp add: put_effect_def split: prod.splits)

lemma cstep_fresh:
  assumes "cstep s a = Some t"
  shows "cfresh s \<le> cfresh t \<and> (cpeers t = cpeers s \<or> cfresh t = Suc (cfresh s) \<or> (\<exists>i. a = KillPeer i))"
proof (cases a)
  case (Tick i rt)
  then obtain r where "t = put_result (s\<lparr>croutines := remove1 (i, rt) (croutines s)\<rparr>) i r" using assms by (auto split: if_splits)
  then show ?thesis using put_result_fresh [of "s\<lparr>croutines := remove1 (i, rt) (croutines s)\<rparr>" i r] by auto
next
  case (Input i rt inp)
  then show ?thesis using assms by (auto simp: put_effect_fresh split: if_splits)
next
  case (DeliverCall p)
  then obtain r where "t = put_result (s\<lparr>cnet := remove1 p (cnet s)\<rparr>) (packet_to p) r" using assms by (auto split: if_splits)
  then show ?thesis using put_result_fresh [of "s\<lparr>cnet := remove1 p (cnet s)\<rparr>" "packet_to p" r] by auto
next
  case (Lose p)
  then show ?thesis using assms by (auto split: if_splits)
next
  case (ClientStart i command)
  then show ?thesis using assms by (auto split: if_splits)
next
  case (KillPeer i)
  then show ?thesis using assms by (auto split: if_splits)
qed

lemma anchored_length:
  assumes "anchored W H lg" "\<And>u. u \<in> fst ` W \<Longrightarrow> length (H u) \<le> Suc c"
  shows "length lg \<le> Suc c"
proof (cases "length lg \<le> 1")
  case False
  let ?k = "length lg - 1"
  have k: "0 < ?k" "?k < length lg" using False by simp_all
  have "length (take (Suc ?k) lg) = length (take (Suc ?k) (H (eTerm (lg ! ?k))))" using anchoredD(2) [OF assms(1) k] by (rule arg_cong)
  then have "length lg \<le> length (H (eTerm (lg ! ?k)))" using False by simp
  then show ?thesis using assms(2) [OF anchoredD(1) [OF assms(1) k]] by simp
qed simp

lemma hreach_length:
  "hreach n zero s W N K H E \<Longrightarrow> sound N \<Longrightarrow> u \<in> fst ` W \<Longrightarrow> length (H u) \<le> Suc (cfresh s)"
proof (induction arbitrary: u rule: hreach.induct)
  case (step s W N K H E a t)
  note s = step.hyps(1) sound_mono [OF step.prems(1)]
  have m: "matching zero s W H" by (rule hreach_matching [OF s])
  note fresh = cstep_fresh [OF step.hyps(2)]
  have logs: "length (rlog (cpeers s ! i)) \<le> Suc (cfresh s)" if "i < length (cpeers s)" for i
    by (rule anchored_length [OF matchingD(1) [OF m that] step.IH [OF s(2)]])
  show ?case
  proof (cases "u \<in> fst ` writers s a")
    case False
    then have "u \<in> fst ` W" "histories s a t H u = H u" using step.prems(2) by (auto simp: histories_def)
    then show ?thesis using step.IH [OF s(2)] fresh by fastforce
  next
    case True
    then obtain i where w: "writers s a = {(u, i)}" by (cases s a rule: writers_cases) auto
    from step.hyps(2) show ?thesis
    proof (cases rule: cstep_kinds)
      case (append j command)
      have "rlog (cpeers t ! j) \<noteq> rlog (cpeers s ! j)" using append(1,2) by (simp add: raft_Start_def)
      then have "cpeers t \<noteq> cpeers s" by auto
      moreover have "a \<noteq> KillPeer l" for l using w by auto
      ultimately have "cfresh t = Suc (cfresh s)" using fresh by blast
      moreover have "i = j" "u = currentTerm (cpeers s ! j)" using w append(4) by auto
      ultimately show ?thesis using logs [OF append(1)] w append(1,2) by (simp add: raft_Start_def)
    next
      case (send j ch)
      then have "i = j" using w by auto
      then show ?thesis using logs [OF send(1)] w send(2) fresh by simp
    qed (use w in simp_all)
  qed
qed simp

subsection \<open>What is committed agrees\<close>

lemma committed_agrees:
  assumes "hreach n zero s W N K H E" "sound N" "no_overcount K" "Committed t i k \<in> K" "u \<in> fst ` W" "t \<le> u" "j \<le> k"
  shows "take (Suc j) (H u) = take (Suc j) (H t)"
proof (cases "t = u")
  case False
  obtain p where "(u, p) \<in> W" using assms(5) by force
  then have "take (Suc k) (H u) = take (Suc k) (H t)" using hreach_complete [OF assms(1-4)] False assms(6) by simp
  then show ?thesis using take_Suc_le assms(7) by blast
qed simp

text \<open>
  The index \<open>c\<close> is covered, by a commit of term \<open>t\<close> at an index not below it; \<open>u\<close> is the term in which this is known.
\<close>

definition covers :: "fact set \<Rightarrow> int \<Rightarrow> int \<Rightarrow> int \<Rightarrow> bool" where
  "covers K u c t \<longleftrightarrow> t \<le> u \<and> (\<exists>i k. Committed t i k \<in> K \<and> c \<le> int k)"

definition commit_ok :: "fact set \<Rightarrow> (int \<Rightarrow> 'c LogEntry list) \<Rightarrow> 'c Raft \<Rightarrow> bool" where
  "commit_ok K H rf \<longleftrightarrow> commitIndex rf = 0 \<or>
     (\<exists>t. covers K (currentTerm rf) (commitIndex rf) t \<and>
        take (Suc (nat (commitIndex rf))) (rlog rf) = take (Suc (nat (commitIndex rf))) (H t))"

definition call_ok :: "fact set \<Rightarrow> 'c AppendEntriesArgs \<Rightarrow> bool" where
  "call_ok K args \<longleftrightarrow> LeaderCommit args \<le> 0 \<or>
     LeaderCommit args \<le> int (nat (PrevLogIndex args) + length (Entries args)) \<and> (\<exists>t. covers K (aeTerm args) (LeaderCommit args) t)"

definition applied_ok :: "fact set \<Rightarrow> (int \<Rightarrow> 'c LogEntry list) \<Rightarrow> 'c ApplyMsg \<Rightarrow> bool" where
  "applied_ok K H x \<longleftrightarrow> (\<exists>t i k q. Committed t i k \<in> K \<and> 0 < q \<and> q \<le> k \<and> x = apply_msg (H t ! q))"

lemma covers_mono: "covers K u c t \<Longrightarrow> K \<subseteq> K' \<Longrightarrow> u \<le> u' \<Longrightarrow> c' \<le> c \<Longrightarrow> covers K' u' c' t"
  unfolding covers_def by (meson order_trans subsetD)

text \<open>The messages of a loop that applies up to a covered index.\<close>

lemma apply_loop_ok:
  assumes "apply_loop lg i c = Inr ms" "0 \<le> i" "x \<in> set ms" "c = 0 \<or> (covers K u c t \<and> take (Suc (nat c)) lg = take (Suc (nat c)) (H t))"
  shows "applied_ok K H x"
proof -
  have ms: "ms = map apply_msg (take (nat (c - i)) (drop (Suc (nat i)) lg))" by (rule apply_loop_Inr [OF assms(1,2)])
  then obtain l where l: "l < nat (c - i)" "Suc (nat i) + l < length lg" "x = apply_msg (lg ! (Suc (nat i) + l))"
    using assms(3) by (auto simp: in_set_conv_nth)
  let ?q = "Suc (nat i) + l"
  have q: "?q \<le> nat c" "0 < c" using l(1) assms(2) by linarith+
  then have c: "covers K u c t" "take (Suc (nat c)) lg = take (Suc (nat c)) (H t)" using assms(4) by auto
  have "lg ! ?q = take (Suc (nat c)) lg ! ?q" using q(1) by simp
  also have "\<dots> = H t ! ?q" using q(1) unfolding c(2) by simp
  finally have "x = apply_msg (H t ! ?q)" using l(3) by simp
  moreover obtain j k where "Committed t j k \<in> K" "c \<le> int k" using c(1) by (auto simp: covers_def)
  moreover have "?q \<le> k" using q(1) \<open>c \<le> int k\<close> by linarith
  ultimately show ?thesis unfolding applied_ok_def by blast
qed

lemma applied_ok_grows:
  assumes "applied_ok K H x" "K \<subseteq> K'" "\<And>t i k. Committed t i k \<in> K \<Longrightarrow> k < length (H t) \<and> (\<exists>es. H' t = H t @ es)"
  shows "applied_ok K' H' x"
proof -
  obtain t i k q where a: "Committed t i k \<in> K" "0 < q" "q \<le> k" "x = apply_msg (H t ! q)" using assms(1) by (auto simp: applied_ok_def)
  have "H' t ! q = H t ! q" using assms(3) [OF a(1)] a(3) by (auto simp: nth_append)
  then show ?thesis unfolding applied_ok_def using a assms(2) by (metis subsetD)
qed

subsection \<open>Every step keeps it\<close>

lemma commit_ok_kept:
  assumes h: "hreach n zero s W N K H E" and sd: "sound (N \<union> memos s a)" and no: "no_overcount K" and st: "cstep s a = Some t"
    and v: "v < n" and ok: "commit_ok K H (cpeers s ! v)" and c: "commitIndex (cpeers t ! v) = commitIndex (cpeers s ! v)"
  shows "commit_ok (K \<union> facts s K a) (histories s a t H) (cpeers t ! v)"
proof (cases "commitIndex (cpeers s ! v) = 0")
  case False
  let ?c = "commitIndex (cpeers s ! v)" and ?H = "histories s a t H"
  let ?k = "nat ?c"
  note s = h sound_mono [OF sd]
  note t = hreach.step [OF h st] sd
  have m: "matching zero s W H" by (rule hreach_matching [OF s])
  obtain w where w: "covers K (currentTerm (cpeers s ! v)) ?c w" "take (Suc ?k) (rlog (cpeers s ! v)) = take (Suc ?k) (H w)"
    using ok False by (auto simp: commit_ok_def)
  then obtain i k where k: "Committed w i k \<in> K" "?c \<le> int k" "w \<le> currentTerm (cpeers s ! v)" by (auto simp: covers_def)
  have q: "?k \<le> k" using k(2) by linarith
  have d: "w \<in> fst ` W" "k < length (H w)" using hreach_committed [OF s no k(1)] by blast+
  obtain es where es: "?H w = H w @ es" using histories_grow [OF m hreach_one_writer [OF t] st d(1)] by blast
  have tm: "currentTerm (cpeers s ! v) \<le> currentTerm (cpeers t ! v)"
    by (rule raft_terms_never_decrease [OF hreach_creach [OF h] st v])
  have "unbroken W H w ?k u" for u
    unfolding unbroken_def using committed_agrees [OF s no k(1) _ _ q] by simp
  from keeps_entry [OF m hreach_logs [OF s] hreach_shape [OF h] st v d(1) k(3) _ w(2) this]
  have "take (Suc ?k) (rlog (cpeers t ! v)) = take (Suc ?k) (?H w)" using q d(2) by (simp add: es)
  moreover have "covers (K \<union> facts s K a) (currentTerm (cpeers t ! v)) ?c w" using covers_mono [OF w(1) _ tm] by simp
  ultimately show ?thesis unfolding commit_ok_def c by blast
qed (simp add: commit_ok_def c)

text \<open>A leader that moves its commit index commits there.\<close>

lemma commit_ok_commitAt:
  assumes h: "hreach n zero s W N K H E" and sd: "sound (N \<union> memos s a)" and no: "no_overcount (K \<union> facts s K a)" and st: "cstep s a = Some t"
    and a: "a = Tick i (CommitAt k)" and i: "i < length (cpeers s)" and r: "commitAt (cpeers s ! i) k = Inr (rf', ms)" "cpeers t = (cpeers s)[i := rf']"
    and c: "commitIndex rf' \<noteq> commitIndex (cpeers s ! i)"
  shows "commit_ok (K \<union> facts s K a) (histories s a t H) rf'"
proof -
  let ?rf = "cpeers s ! i" and ?K = "K \<union> facts s K a" and ?H = "histories s a t H"
  note s = h sound_mono [OF sd]
  note t = hreach.step [OF h st] sd
  have sh: "shape n zero s" by (rule hreach_shape [OF h])
  have j: "i < n" "me ?rf < numPeers ?rf" using i sh by (simp_all add: shape_def peer_shape_def)
  have q: "commitIndex ?rf < k" "k < int (length (rlog ?rf))" "eTerm (rlog ?rf ! nat k) = currentTerm ?rf" "commitIndex rf' = k"
    using commitAt_returns [OF r(1) j(2)] c by (auto split: if_splits)
  have rf': "rlog rf' = rlog ?rf" "currentTerm rf' = currentTerm ?rf" using commitAt_frame [OF r(1)] by auto
  have k: "0 < nat k" "nat k < length (rlog rf')"
    unfolding rf'(1) using q(1,2) creach_commit_nonneg [OF hreach_creach [OF h] j(1)] by linarith+
  have "matching zero t (W \<union> writers s a) ?H" by (rule hreach_matching [OF t])
  then have "anchored (W \<union> writers s a) ?H rf'_log" if "rf'_log = rlog rf'" for rf'_log
    using matchingD(1) [of zero t _ ?H i] r(2) i that by simp
  from anchoredD(2) [OF this [OF refl] k] have "take (Suc (nat k)) (rlog rf') = take (Suc (nat k)) (?H (currentTerm rf'))"
    using q(3) rf' by simp
  moreover have "counts_true K ?rf k"
    using no a r(1) c by (auto simp: no_overcount_def split: if_splits)
  then have "Committed (currentTerm rf') i (nat k) \<in> ?K" using a r(1) c by simp
  then have "covers ?K (currentTerm rf') k (currentTerm rf')" unfolding covers_def using q(1) by force
  ultimately show ?thesis unfolding commit_ok_def q(4) by blast
qed

text \<open>A follower that moves its commit index does so up to what the leader knew to be committed, and has.\<close>

lemma commit_ok_AppendEntries:
  assumes h: "hreach n zero s W N K H E" and sd: "sound N" and no: "no_overcount K" and len: "cfresh s < 2 ^ 53"
    and c: "(src, to, ch, args) \<in> aes (cnet s)" "to < length (cpeers s)"
    and r: "AppendEntries (cpeers s ! to) args = Inr (rf', reply, sp, ms)" and ch: "commitIndex rf' \<noteq> commitIndex (cpeers s ! to)"
    and ok: "call_ok K args" and size: "length (rlog rf') \<le> 2 ^ 53"
  shows "commit_ok K H rf'" "apply_loop (rlog rf') (commitIndex (cpeers s ! to)) (commitIndex rf') = Inr ms"
proof -
  let ?rf = "cpeers s ! to" and ?u = "aeTerm args" and ?l = "nat (PrevLogIndex args) + length (Entries args)"
  have sh: "shape n zero s" by (rule hreach_shape [OF h])
  have to: "to < n" using c(2) sh by (simp add: shape_def)
  have m: "matching zero s W H" and logs: "writers_ok zero s W H" by (rule hreach_matching [OF h sd], rule hreach_logs [OF h sd])
  have shp: "log_ok (rlog ?rf)" "ae_args_ok args"
    using sh c by (auto simp: shape_def peer_shape_def call_shape_def log_shape_def)
  have a: "ae_accepts ?rf args" "commitIndex ?rf < LeaderCommit args"
    "commitIndex rf' = min_f64 (LeaderCommit args) (int (length (rlog rf')) - 1)"
    "apply_loop (rlog rf') (commitIndex ?rf) (commitIndex rf') = Inr ms"
    using AppendEntries_commits [OF shp r] ch by auto
  show "apply_loop (rlog rf') (commitIndex ?rf) (commitIndex rf') = Inr ms" by (rule a(4))
  have "Success reply" using AppendEntries_returns(3) [OF shp r] a(1) by simp
  note has = accepted_has [OF m logs sh c r this]
  have "0 \<le> commitIndex ?rf" using creach_commit_nonneg [OF hreach_creach [OF h] to] by simp
  then have lc: "0 < LeaderCommit args" using a(2) by simp
  then obtain t where t: "LeaderCommit args \<le> int ?l" "covers K ?u (LeaderCommit args) t" using ok by (auto simp: call_ok_def)
  then obtain i k where k: "Committed t i k \<in> K" "LeaderCommit args \<le> int k" "t \<le> ?u" by (auto simp: covers_def)
  have d: "t \<in> fst ` W" "k < length (H t)" using hreach_committed [OF h sd no k(1)] by blast+
  have bound: "length (H u) \<le> 2 ^ 53" if "u \<in> fst ` W" for u using hreach_length [OF h sd that] len by simp
  have l: "?l < length (rlog rf')" using take_Suc_nth [OF has(3,2) order.refl] by simp
  have "int (length (H t)) \<le> 9007199254740992" "int (length (rlog rf')) \<le> 9007199254740992"
    using bound [OF d(1)] size by simp_all
  then have "\<bar>LeaderCommit args\<bar> \<le> 9007199254740992" "\<bar>int (length (rlog rf')) - 1\<bar> \<le> 9007199254740992"
    using lc k(2) d(2) l by linarith+
  then have ci: "commitIndex rf' = min (LeaderCommit args) (int (length (rlog rf')) - 1)"
    unfolding a(3) by (intro min_f64_exact) simp_all
  then have cl: "commitIndex rf' = LeaderCommit args" using t(1) l by simp
  let ?c = "nat (commitIndex rf')"
  have "?c \<le> ?l" using t(1) unfolding cl by linarith
  then have "take (Suc ?c) (rlog rf') = take (Suc ?c) (H ?u)" by (rule take_Suc_le [OF has(3)])
  also have "\<dots> = take (Suc ?c) (H t)" by (rule committed_agrees [OF h sd no k(1) has(1) k(3)]) (use k(2) cl in simp)
  finally show "commit_ok K H rf'" unfolding commit_ok_def has(4) using t(2) cl by auto
qed

lemma hreach_call_ok:
  assumes h: "hreach n zero s W N K H E" and sd: "sound (N \<union> memos s a)" and no: "no_overcount K" and st: "cstep s a = Some t"
    and peers: "\<And>v. v < n \<Longrightarrow> commit_ok K H (cpeers s ! v)" and calls: "\<forall>(src, to, ch, args) \<in> aes (cnet s). call_ok K args"
    and c: "(src, to, ch, args) \<in> aes (cnet t)"
  shows "call_ok (K \<union> facts s K a) args"
proof -
  have mono: "call_ok (K \<union> facts s K a) args" if "call_ok K args"
    using that covers_mono [of K "aeTerm args" "LeaderCommit args" _ "K \<union> facts s K a"] unfolding call_ok_def by blast
  show ?thesis
  proof (cases "(src, to, ch, args) \<in> aes (cnet s)")
    case True
    then show ?thesis using calls mono by blast
  next
    case False
    obtain i ms where i: "i < length (cpeers s)" "raft_replicate (cpeers s ! i) = Inr ms" "(to, args) \<in> set ms"
      using st by (cases rule: cstep_kinds) (use False c in auto)
    let ?rf = "cpeers s ! i"
    have sh: "shape n zero s" by (rule hreach_shape [OF h])
    have one: "replicate_one ?rf to = Inr args" using raft_replicate_mem [OF i(2,3)] by blast
    note a = replicate_one_args [OF one]
    have "i < n" using i(1) sh by (simp add: shape_def)
    have "LeaderCommit args \<le> int (nat (PrevLogIndex args) + length (Entries args)) \<and> (\<exists>t. covers K (aeTerm args) (LeaderCommit args) t)"
      if pos: "0 < commitIndex ?rf"
    proof -
      obtain w where w: "covers K (currentTerm ?rf) (commitIndex ?rf) w"
        "take (Suc (nat (commitIndex ?rf))) (rlog ?rf) = take (Suc (nat (commitIndex ?rf))) (H w)"
        using peers [OF \<open>i < n\<close>] pos by (auto simp: commit_ok_def)
      then obtain j k where k: "Committed w j k \<in> K" "commitIndex ?rf \<le> int k" by (auto simp: covers_def)
      have "k < length (H w)" using hreach_committed [OF h sound_mono [OF sd] no k(1)] by blast
      then have "nat (commitIndex ?rf) < length (rlog ?rf)" using take_Suc_nth [OF w(2), of "nat (commitIndex ?rf)"] k(2) by linarith
      then show ?thesis using w(1) a(1,2,4,5,7) by auto
    qed
    then have "call_ok K args" unfolding call_ok_def a(7) by (cases "0 < commitIndex ?rf") auto
    then show ?thesis by (rule mono)
  qed
qed

lemma hreach_machine:
  "hreach n zero s W N K H E \<Longrightarrow> sound N \<Longrightarrow> no_overcount K \<Longrightarrow> cfresh s < 2 ^ 53 \<Longrightarrow>
     (\<forall>v < n. commit_ok K H (cpeers s ! v)) \<and> (\<forall>(src, to, ch, args) \<in> aes (cnet s). call_ok K args) \<and>
     (\<forall>(i, x) \<in> set (capplied s). applied_ok K H x)"
proof (induction rule: hreach.induct)
  case start
  show ?case by (simp add: commit_ok_def cluster_init_def raft_Make_def aes_def)
next
  case (step s W N K H E a t)
  note s = step.hyps(1) sound_mono [OF step.prems(1)]
  note t = hreach.step [OF step.hyps] step.prems(1)
  let ?W = "W \<union> writers s a" and ?K = "K \<union> facts s K a" and ?H = "histories s a t H"
  have no: "no_overcount K" using step.prems(2) by (simp add: no_overcount_def)
  have len: "cfresh s < 2 ^ 53" using step.prems(3) cstep_fresh [OF step.hyps(2)] by simp
  have ih: "\<And>v. v < n \<Longrightarrow> commit_ok K H (cpeers s ! v)" "\<forall>(src, to, ch, args) \<in> aes (cnet s). call_ok K args"
    "\<And>i x. (i, x) \<in> set (capplied s) \<Longrightarrow> applied_ok K H x"
    using step.IH [OF s(2) no len] by blast+
  have sh: "shape n zero s" "shape n zero t" by (rule hreach_shape [OF s(1)], rule hreach_shape [OF t(1)])
  have n: "length (cpeers s) = n" "length (cpeers t) = n" using sh by (simp_all add: shape_def)
  have m: "matching zero s W H" "matching zero t ?W ?H" by (rule hreach_matching [OF s], rule hreach_matching [OF t])
  note kept = commit_ok_kept [OF s(1) step.prems(1) no step.hyps(2) _ ih(1)]
  have calls: "\<forall>(src, to, ch, args) \<in> aes (cnet t). call_ok ?K args"
    using hreach_call_ok [OF s(1) step.prems(1) no step.hyps(2) ih(1,2)] by blast
  have grow: "k < length (H u) \<and> (\<exists>es. ?H u = H u @ es)" if "Committed u i k \<in> K" for u i k
    using hreach_committed [OF s no that] histories_grow [OF m(1) hreach_one_writer [OF t] step.hyps(2)] by blast
  have old: "applied_ok ?K ?H x" if "(i, x) \<in> set (capplied s)" for i x
    by (rule applied_ok_grows [OF ih(3) [OF that] _ grow]) simp
  from step.hyps(2) show ?case
  proof (cases rule: commit_kinds)
    case still
    then have "commit_ok ?K ?H (cpeers t ! v)" if "v < n" for v using kept [OF that that] that n by (simp add: steady_def)
    then show ?thesis using calls old still(2) by auto
  next
    case (commit i k rf' ms)
    let ?rf = "cpeers s ! i"
    have i: "i < n" "me ?rf < numPeers ?rf" using commit(2) n sh(1) by (simp_all add: shape_def peer_shape_def)
    have rf': "commit_ok ?K ?H rf'"
    proof (cases "commitIndex rf' = commitIndex ?rf")
      case True
      then show ?thesis using kept [OF i(1) i(1)] commit(2,4) by simp
    next
      case False
      then show ?thesis by (rule commit_ok_commitAt [OF s(1) step.prems(1,2) step.hyps(2) commit(1-4)])
    qed
    have "commit_ok ?K ?H (cpeers t ! v)" if "v < n" for v
      using rf' kept [OF that that] commit(2,4) that n by (cases "v = i") auto
    moreover have "applied_ok ?K ?H x" if x: "x \<in> set ms" for x
    proof -
      have "apply_loop (rlog rf') (lastApplied ?rf) (commitIndex rf') = Inr ms"
        using commitAt_returns [OF commit(3) i(2)] commitAt_frame [OF commit(3)] x by auto
      from apply_loop_ok [OF this _ x] rf' show ?thesis
        using creach_commit_nonneg [OF hreach_creach [OF s(1)] i(1)] unfolding commit_ok_def by blast
    qed
    ultimately show ?thesis using calls old commit(5) by auto
  next
    case (handle src to ch args rf' reply sp ms)
    let ?rf = "cpeers s ! to"
    have to: "to < n" using handle(2) n by simp
    have H: "?H = H" using handle(6) by (rule histories_simps)
    have size: "length (rlog rf') \<le> 2 ^ 53"
    proof -
      have "anchored ?W ?H (rlog rf')" using matchingD(1) [OF m(2), of to] handle(2,4) n by simp
      from anchored_length [OF this hreach_length [OF t]] show ?thesis using step.prems(3) by simp
    qed
    have new: "commit_ok ?K ?H rf' \<and> (\<forall>x \<in> set ms. applied_ok ?K ?H x)"
    proof (cases "commitIndex rf' = commitIndex ?rf")
      case True
      have "log_ok (rlog ?rf)" "ae_args_ok args"
        using sh(1) handle(1,2) by (auto simp: shape_def peer_shape_def call_shape_def log_shape_def)
      from AppendEntries_commits [OF this handle(3)]
      consider "ms = []" | "apply_loop (rlog rf') (commitIndex ?rf) (commitIndex rf') = Inr ms" by blast
      then have "ms = []" by cases (simp_all add: True apply_loop_none)
      then show ?thesis using kept [OF to to] True handle(2,4) by simp
    next
      case False
      have "call_ok K args" using ih(2) handle(1) by blast
      note c = commit_ok_AppendEntries [OF s no len handle(1-3) False this size]
      have "commit_ok ?K ?H rf'" unfolding H using c(1) covers_mono [of K _ _ _ ?K] unfolding commit_ok_def by blast
      moreover have "applied_ok ?K ?H x" if x: "x \<in> set ms" for x
        using apply_loop_ok [OF c(2) _ x] creach_commit_nonneg [OF hreach_creach [OF s(1)] to] calculation
        unfolding commit_ok_def by blast
      ultimately show ?thesis by blast
    qed
    then have "commit_ok ?K ?H (cpeers t ! v)" if "v < n" for v
      using kept [OF that that] handle(2,4) that n by (cases "v = to") auto
    then show ?thesis using calls old new handle(5) by auto
  qed
qed

end
