(* ===== verification/Raft_Applied.thy ===== *)
theory Raft_Applied
  imports Raft_Machine
begin

section \<open>Raft: no two commands at one index\<close>

text \<open>
  State-machine safety: in a run whose elections are sound and whose leaders count no peer that has not stored the entries
  in their term, all \<^verbatim>\<open>ApplyMsg\<close>s of an index are equal, at all peers. It follows from what \<open>Raft_Machine\<close> says of applied
  messages. The runs at the end show that the condition on counting holds in ordinary runs, and that without it the property fails.
\<close>

subsection \<open>The property\<close>

lemma applied_pair:
  assumes h: "hreach n zero s W N K H E" "sound N" and no: "no_overcount K" and xy: "applied_ok K H x" "applied_ok K H y"
    and eq: "CommandIndex x = CommandIndex y"
  shows "x = y"
proof -
  have entry: "CommandIndex (apply_msg (H t ! q)) = int q" if "Committed t i k \<in> K" "q \<le> k" for t i k q
  proof -
    have d: "t \<in> fst ` W" "k < length (H t)" using hreach_committed [OF h no that(1)] by blast+
    show ?thesis
      using log_ok_nth [OF log_shape_ok [OF writers_okD(2) [OF hreach_logs [OF h] d(1)]], of q] that(2) d(2)
      by (simp add: apply_msg_def)
  qed
  have le: "H t ! q = H u ! q" if "Committed t i k \<in> K" "Committed u j l \<in> K" "q \<le> k" "t \<le> u" for t u i j k l q
  proof -
    have d: "u \<in> fst ` W" "k < length (H t)" using hreach_committed [OF h no that(1)] hreach_committed [OF h no that(2)] by blast+
    have "take (Suc q) (H u) = take (Suc q) (H t)" by (rule committed_agrees [OF h no that(1) d(1) that(4,3)])
    then show ?thesis using take_Suc_nth [of q "H u" "H t" q] d(2) that(3) by simp
  qed
  obtain t i k q where x: "Committed t i k \<in> K" "q \<le> k" "x = apply_msg (H t ! q)" using xy(1) by (auto simp: applied_ok_def)
  obtain u j l r where y: "Committed u j l \<in> K" "r \<le> l" "y = apply_msg (H u ! r)" using xy(2) by (auto simp: applied_ok_def)
  have "r = q" using eq entry [OF x(1,2)] entry [OF y(1,2)] x(3) y(3) by simp
  then have "H t ! q = H u ! q" using le [OF x(1) y(1) x(2)] le [OF y(1) x(1), of q] y(2) by (metis linear)
  then show ?thesis using x(3) y(3) \<open>r = q\<close> by simp
qed

text \<open>
  C36: State-machine safety. Take any run of the group, with calls lost, delayed and reordered and peers killed, in which no peer
  votes for two candidates in a term, no peer holds two elections in a term, votes count only for the term they were given in, \<^verbatim>\<open>Start\<close> does
  not append after the lead is lost, and whenever a leader moves its commit index, the peers it counts have accepted calls of
  its term that reach that index. If two messages that peers (or one peer, twice) sent on their \<^verbatim>\<open>applyCh\<close> have the same
  \<^verbatim>\<open>CommandIndex\<close>, they are the same message, with the same command. The run has fewer than 2 ^ 53 steps with a result,
  because \<^verbatim>\<open>AppendEntries\<close> takes the minimum of two indices in \<^verbatim>\<open>float64\<close>.
\<close>

theorem raft_state_machine_safety:
  assumes "kreach n zero s W N K"
    and "one_vote N" "one_election N" "fresh_votes N" "no_strays N" "no_overcount K" "cfresh s < 2 ^ 53"
    and "(i, x) \<in> set (capplied s)" "(j, y) \<in> set (capplied s)" "CommandIndex x = CommandIndex y"
  shows "x = y"
proof -
  obtain H E where h: "hreach n zero s W N K H E" using kreach_hreach [OF assms(1)] by blast
  have sd: "sound N" using assms(2-5) by (simp add: sound_def)
  have "applied_ok K H x" "applied_ok K H y" using hreach_machine [OF h sd assms(6,7)] assms(8,9) by auto
  then show ?thesis by (rule applied_pair [OF h sd assms(6) _ _ assms(10)])
qed

subsection \<open>Runs\<close>

fun is_overcount :: "fact \<Rightarrow> bool" where
  "is_overcount (Overcounted _ _ _) \<longleftrightarrow> True"
| "is_overcount _ \<longleftrightarrow> False"

lemma no_overcount_code [code]: "no_overcount K \<longleftrightarrow> (\<forall>f \<in> K. \<not> is_overcount f)"
proof
  assume o: "no_overcount K"
  show "\<forall>f \<in> K. \<not> is_overcount f"
  proof
    fix f assume "f \<in> K"
    then show "\<not> is_overcount f" using o by (cases f) (auto simp: no_overcount_def)
  qed
qed (fastforce simp: no_overcount_def)

fun all_facts :: "'c cluster \<Rightarrow> fact set \<Rightarrow> 'c act list \<Rightarrow> fact set" where
  "all_facts s K [] = K"
| "all_facts s K (a # as) = (case cstep s a of None \<Rightarrow> K | Some t \<Rightarrow> all_facts t (K \<union> facts s K a) as)"

lemma csteps_kreach:
  "csteps s as = Some t \<Longrightarrow> kreach n zero s W N K \<Longrightarrow>
     kreach n zero t (W \<union> all_writers s as) (N \<union> all_memos s as) (all_facts s K as)"
proof (induction as arbitrary: s W N K)
  case (Cons a as)
  then obtain u where u: "cstep s a = Some u" "csteps u as = Some t" by (auto split: option.splits)
  show ?case using Cons.IH [OF u(2) kreach.step [OF Cons.prems(2) u(1)]] u(1) by (simp add: Un_assoc)
qed simp

definition facts_outcome :: "nat \<Rightarrow> (nat cluster \<Rightarrow> memo set \<Rightarrow> fact set \<Rightarrow> 'r) \<Rightarrow> script list \<Rightarrow> 'r option" where
  "facts_outcome n f xs =
     map_option (\<lambda>(s, as). f s (all_memos (cluster_init n 0) as) (all_facts (cluster_init n 0) {} as)) (play (cluster_init n 0) xs)"

lemma facts_outcome_reach:
  assumes "facts_outcome n f xs = Some r"
  obtains s W N K where "kreach n 0 s W N K" "f s N K = r"
proof -
  obtain s as where s: "play (cluster_init n 0) xs = Some (s, as)"
    "f s (all_memos (cluster_init n 0) as) (all_facts (cluster_init n 0) {} as) = r"
    using assms by (auto simp: facts_outcome_def)
  show thesis using that [OF csteps_kreach [OF play_csteps [OF s(1)] kreach.start]] s(2) by simp
qed

text \<open>
  \<open>run_reapplied\<close> meets all conditions. In \<open>run_old_refusal\<close> peer 2 refuses two heartbeats of peer 0 in term 1; the second reply is read only when
  peer 0 leads again, in term 4, by the \<^verbatim>\<open>handleReply\<close> of term 1, which is still there. It moves \<^verbatim>\<open>nextIndex\<close> back, peer 0 sends peer 2 an entry that
  it has, and the reply gives the length of the log of peer 2, which ends with an entry of its own, of term 3. Peer 0 takes that for its next
  entry, and commits and applies it with only itself having it. Then peer 2 leads with the vote of peer 1, and applies its own entry.
\<close>

definition run_old_refusal :: "script list" where
  "run_old_refusal = elected0 @ [Call 0 1, Vote 0, Miss 0 2, Cmd 0 7, T 0 (StartAppend 7)] @ lead 0 14 @ beat 0 14 @ beat 0 14 @
     [Call 0 2, Call 0 2, Miss 0 1, Miss 0 1, Ack 0, Upd 0, T 0 (HandleCheck 14)] @ beat 0 14 @ [Miss 0 1, Call 0 2] @
     round_of 2 @ campaign 2 35 @ [Miss 2 1, Call 2 0, T 0 FolEnter, T 0 FolCheck, Vote 2, T 2 (ElectCheck 35)] @ retry 2 35 @
     campaign 2 45 @ [Miss 2 1, Call 2 0, Vote 2, Cmd 2 8, T 2 (StartAppend 8)] @
     round_of 0 @ campaign 0 53 @ [Call 0 1, Vote 0, Miss 0 2] @ lead 0 57 @ [Ack 0, Upd 0, T 0 (HandleCheck 14)] @ beat 0 57 @
     [Call 0 2, T 2 FolEnter, T 2 FolCheck, Ack 0, Upd 0, T 0 (HandleCheck 14), Ack 0, Upd 0,
      Cmd 0 9, T 0 (StartAppend 9), T 0 (CommitAt 2), Miss 0 1, Out 1] @
     round_of 2 @ campaign 2 80 @ [Miss 2 0, Call 2 1, T 1 FolEnter, T 1 FolCheck, Vote 2, T 2 (ElectCheck 80)] @ retry 2 80 @
     campaign 2 90 @ [Miss 2 0, Call 2 1, Vote 2] @ lead 2 94 @ [Cmd 2 5, T 2 (StartAppend 5)] @ beat 2 94 @
     [Miss 2 1, Call 2 0, Ack 2, Upd 2, T 2 (HandleCheck 94)] @ beat 2 94 @ [Miss 2 1, Call 2 0, Ack 2, Upd 2, T 2 (CommitAt 3)]"

definition messages :: "nat cluster \<Rightarrow> (nat \<times> int \<times> nat) list" where
  "messages s = map (\<lambda>(i, x). (i, CommandIndex x, aCommand x)) (capplied s)"

lemma applied_run:
  obtains s W N K x y where "kreach 3 (0 :: nat) s W N K" "one_vote N" "one_election N" "fresh_votes N" "no_strays N" "no_overcount K"
    "cfresh s < 2 ^ 53" "(0, x) \<in> set (capplied s)" "(1, y) \<in> set (capplied s)" "CommandIndex x = 1" "CommandIndex y = 1"
proof -
  have "facts_outcome 3 (\<lambda>s N K. (one_vote N, one_election N, fresh_votes N, no_strays N, no_overcount K, cfresh s < 100, messages s))
      run_reapplied = Some (True, True, True, True, True, True, [(0, 1, 7), (1, 1, 7), (1, 1, 7), (1, 2, 8)])" by code_simp
  then obtain s W N K where s: "kreach 3 (0 :: nat) s W N K"
    "(one_vote N, one_election N, fresh_votes N, no_strays N, no_overcount K, cfresh s < 100, messages s) =
     (True, True, True, True, True, True, [(0, 1, 7), (1, 1, 7), (1, 1, 7), (1, 2, 8)])" by (rule facts_outcome_reach)
  have x: "(0, 1, 7) \<in> set (messages s)" "(1, 1, 7) \<in> set (messages s)" using s(2) by simp_all
  obtain x y where "(0, x) \<in> set (capplied s)" "(1, y) \<in> set (capplied s)" "CommandIndex x = 1" "CommandIndex y = 1"
    using x by (auto simp: messages_def)
  then show thesis using s by (intro that [of s W N K x y]) simp_all
qed

theorem raft_state_machine_safety_witness:
  "\<exists>s W N K x. kreach 3 (0 :: nat) s W N K \<and> no_overcount K \<and> CommandIndex x = 1 \<and>
     (0, x) \<in> set (capplied s) \<and> (1, x) \<in> set (capplied s)"
proof -
  obtain s W N K x y where s: "kreach 3 (0 :: nat) s W N K" "one_vote N" "one_election N" "fresh_votes N" "no_strays N" "no_overcount K"
    "cfresh s < 2 ^ 53" "(0, x) \<in> set (capplied s)" "(1, y) \<in> set (capplied s)" "CommandIndex x = 1" "CommandIndex y = 1"
    by (rule applied_run)
  have "x = y" by (rule raft_state_machine_safety [OF s(1-9)]) (simp add: s(10,11))
  then show ?thesis using s by blast
qed

theorem raft_overcount_splits:
  "\<exists>s W N K. kreach 3 (0 :: nat) s W N K \<and> one_vote N \<and> one_election N \<and> fresh_votes N \<and> no_strays N \<and> cfresh s < 2 ^ 53 \<and>
     messages s = [(0, 1, 7), (0, 2, 9), (2, 1, 7), (2, 2, 8), (2, 3, 5)]"
proof -
  have "facts_outcome 3 (\<lambda>s N K. (one_vote N, one_election N, fresh_votes N, no_strays N, cfresh s < 200, messages s)) run_old_refusal =
    Some (True, True, True, True, True, [(0, 1, 7), (0, 2, 9), (2, 1, 7), (2, 2, 8), (2, 3, 5)])" by code_simp
  then obtain s W N K where "kreach 3 (0 :: nat) s W N K"
    "(one_vote N, one_election N, fresh_votes N, no_strays N, cfresh s < 200, messages s) =
     (True, True, True, True, True, [(0, 1, 7), (0, 2, 9), (2, 1, 7), (2, 2, 8), (2, 3, 5)])" by (rule facts_outcome_reach)
  then show ?thesis by (intro exI [of _ s] exI [of _ W] exI [of _ N] exI [of _ K]) simp
qed

end
