(* ===== verification/Labrpc.thy ===== *)
theory Labrpc
  imports Go_Strings
begin

section \<open>Labrpc: the simulated network\<close>

text \<open>
  \<^verbatim>\<open>raft-demo/src/labrpc/labrpc.go\<close>. The tables of the network and of a server are records; a
  server is an object, so the network maps names to addresses of a store of servers and
  \<^verbatim>\<open>isServerDead\<close> compares addresses. \<^verbatim>\<open>processReq\<close> is split where other goroutines may run: the look-up, the decision
  to drop the request, the call of the handler, the waiting with its look every 100 ms, the
  reply and the timer that sends a delayed reply. Random numbers are arguments, delays are steps of other
  goroutines in between. A handler, called by reflection in the code, is an argument, as are the encoder
  and the decoder; requests and replies are encoded byte strings. Names of ends are strings as in \<^verbatim>\<open>config.go\<close>;
  names of servers are numbers.
\<close>

subsection \<open>Services and servers\<close>

record Service =
  svc_name :: string
  methods :: "string set"

record LabServer =
  services :: "string \<rightharpoonup> Service"
  scount :: int

record reqMsg =
  endname :: string
  svcMeth :: string
  args :: string

record replyMsg =
  rep_ok :: bool
  reply :: string

definition MakeServer :: LabServer where
  "MakeServer = \<lparr>services = Map.empty, scount = 0\<rparr>"

definition AddService :: "LabServer \<Rightarrow> Service \<Rightarrow> LabServer" where
  "AddService rs svc = rs\<lparr>services := (services rs)(svc_name svc \<mapsto> svc)\<rparr>"

text \<open>What \<^verbatim>\<open>MakeService\<close> asks of a method by reflection; the receiver counts as the first argument.\<close>

record Method =
  m_name :: string
  PkgPath :: string
  NumIn :: nat
  In2_is_ptr :: bool
  NumOut :: nat

definition is_handler :: "Method \<Rightarrow> bool" where
  "is_handler m \<longleftrightarrow> \<not> (PkgPath m \<noteq> [] \<or> NumIn m \<noteq> 3 \<or> \<not> In2_is_ptr m \<or> NumOut m \<noteq> 0)"

definition MakeService :: "string \<Rightarrow> Method list \<Rightarrow> Service" where
  "MakeService name ms = \<lparr>svc_name = name, methods = m_name ` set (filter is_handler ms)\<rparr>"

text \<open>\<open>handle\<close> is the handler: it turns the encoded argument into the encoded reply.\<close>

definition svc_dispatch :: "(string \<Rightarrow> string \<Rightarrow> string) \<Rightarrow> Service \<Rightarrow> string \<Rightarrow> reqMsg \<Rightarrow> replyMsg result" where
  "svc_dispatch handle svc methname req =
     (if methname \<in> methods svc then Inr \<lparr>rep_ok = True, reply = handle methname (args req)\<rparr>
      else Inl (LogFatal ''labrpc.Service.dispatch(): unknown method''))"

text \<open>\<^verbatim>\<open>strings.LastIndex\<close> gives -1 where there is no dot, and \<^verbatim>\<open>svcMeth[:dot]\<close> then panics.\<close>

definition split_method :: "string \<Rightarrow> (string \<times> string) result" where
  "split_method s =
     (let dot = last_index CHR ''.'' s
      in if dot < 0 then Inl IndexOutOfRange else Inr (take (nat dot) s, drop (nat dot + 1) s))"

definition srv_dispatch :: "(string \<Rightarrow> string \<Rightarrow> string \<Rightarrow> string) \<Rightarrow> LabServer \<Rightarrow> reqMsg \<Rightarrow> (LabServer \<times> replyMsg) result" where
  "srv_dispatch handle rs req =
     (let rs1 = rs\<lparr>scount := scount rs + 1\<rparr>
      in bind_result (split_method (svcMeth req)) (\<lambda>(serviceName, methodName).
         case services rs1 serviceName of
           Some service \<Rightarrow>
             bind_result (svc_dispatch (handle serviceName) service methodName req) (\<lambda>r. Inr (rs1, r))
         | None \<Rightarrow> Inl (LogFatal ''labrpc.Server.dispatch(): unknown service'')))"

subsection \<open>The network\<close>

record Network =
  reliable :: bool
  longDelays :: bool
  longReordering :: bool
  ends :: "string set"
  enabled :: "string \<rightharpoonup> bool"
  servers :: "nat \<rightharpoonup> nat option"
  connections :: "string \<rightharpoonup> nat option"
  closed :: bool
  ncount :: "32 word"
  nbytes :: goint

definition MakeNetwork :: Network where
  "MakeNetwork = \<lparr>reliable = True, longDelays = False, longReordering = False, ends = {}, enabled = Map.empty,
     servers = Map.empty, connections = Map.empty, closed = False, ncount = 0, nbytes = 0\<rparr>"

definition Cleanup :: "Network \<Rightarrow> Network result" where
  "Cleanup rn = (if closed rn then Inl (PanicErr ''close of closed channel'') else Inr (rn\<lparr>closed := True\<rparr>))"

definition Reliable :: "Network \<Rightarrow> bool \<Rightarrow> Network" where
  "Reliable rn yes = rn\<lparr>reliable := yes\<rparr>"

definition LongReordering :: "Network \<Rightarrow> bool \<Rightarrow> Network" where
  "LongReordering rn yes = rn\<lparr>longReordering := yes\<rparr>"

definition LongDelays :: "Network \<Rightarrow> bool \<Rightarrow> Network" where
  "LongDelays rn yes = rn\<lparr>longDelays := yes\<rparr>"

definition MakeEnd :: "Network \<Rightarrow> string \<Rightarrow> Network result" where
  "MakeEnd rn name =
     (if name \<in> ends rn then Inl (LogFatal ''MakeEnd: already exists'')
      else Inr (rn\<lparr>ends := insert name (ends rn), enabled := (enabled rn)(name \<mapsto> False),
                   connections := (connections rn)(name \<mapsto> None)\<rparr>))"

definition AddServer :: "Network \<Rightarrow> nat \<Rightarrow> nat \<Rightarrow> Network" where
  "AddServer rn name rs = rn\<lparr>servers := (servers rn)(name \<mapsto> Some rs)\<rparr>"

definition DeleteServer :: "Network \<Rightarrow> nat \<Rightarrow> Network" where
  "DeleteServer rn name = rn\<lparr>servers := (servers rn)(name \<mapsto> None)\<rparr>"

definition Connect :: "Network \<Rightarrow> string \<Rightarrow> nat \<Rightarrow> Network" where
  "Connect rn name servername = rn\<lparr>connections := (connections rn)(name \<mapsto> Some servername)\<rparr>"

definition Enable :: "Network \<Rightarrow> string \<Rightarrow> bool \<Rightarrow> Network" where
  "Enable rn name b = rn\<lparr>enabled := (enabled rn)(name \<mapsto> b)\<rparr>"

definition GetTotalCount :: "Network \<Rightarrow> int" where
  "GetTotalCount rn = sint (ncount rn)"

definition GetTotalBytes :: "Network \<Rightarrow> goint" where
  "GetTotalBytes rn = nbytes rn"

definition GetCount :: "Network \<Rightarrow> (nat \<Rightarrow> LabServer) \<Rightarrow> nat \<Rightarrow> int result" where
  "GetCount rn store name =
     (case map_get None (servers rn) name of None \<Rightarrow> Inl NilDereference | Some a \<Rightarrow> Inr (scount (store a)))"

text \<open>Counting a request when the goroutine of the network takes it.\<close>

definition take_req :: "Network \<Rightarrow> reqMsg \<Rightarrow> Network" where
  "take_req rn req = rn\<lparr>ncount := ncount rn + 1, nbytes := nbytes rn + of_nat (length (args req))\<rparr>"

definition readEndnameInfo :: "Network \<Rightarrow> string \<Rightarrow> bool \<times> nat option \<times> nat option \<times> bool \<times> bool" where
  "readEndnameInfo rn name =
     (let servername = map_get None (connections rn) name
      in (map_get False (enabled rn) name, servername,
          (case servername of None \<Rightarrow> None | Some s \<Rightarrow> map_get None (servers rn) s), reliable rn, longReordering rn))"

definition isServerDead :: "Network \<Rightarrow> string \<Rightarrow> nat \<Rightarrow> nat \<Rightarrow> bool" where
  "isServerDead rn name servername server \<longleftrightarrow>
     map_get False (enabled rn) name = False \<or> map_get None (servers rn) servername \<noteq> Some server"

subsection \<open>One request\<close>

text \<open>The two halves of \<^verbatim>\<open>Call\<close>: the request, and what is made of the answer; \<open>None\<close> is the result false.\<close>

definition Call_request :: "('a \<Rightarrow> string) \<Rightarrow> string \<Rightarrow> string \<Rightarrow> 'a \<Rightarrow> reqMsg" where
  "Call_request encode name meth x = \<lparr>endname = name, svcMeth = meth, args = encode x\<rparr>"

definition Call_finish :: "(string \<Rightarrow> 'r option) \<Rightarrow> replyMsg \<Rightarrow> 'r option result" where
  "Call_finish decode rep =
     (if rep_ok rep then
        (case decode (reply rep) of
           None \<Rightarrow> Inl (LogFatal ''ClientEnd.Call(): decode reply'')
         | Some v \<Rightarrow> Inr (Some v))
      else Inr None)"

text \<open>
  The points a request goes through. \<open>Ready\<close>: the look-up found a server; \<open>Running\<close>: the
  handler has been started and is waited for; \<open>Returned\<close>: it has returned a reply; \<open>Delayed\<close>: a timer will send
  the reply; \<open>Failing\<close>: a timer will send the answer that there is no reply; \<open>Answered\<close>: the caller has
  the answer.
\<close>

datatype req_state =
    Sent reqMsg
  | Ready reqMsg nat nat bool bool
  | Running reqMsg nat nat bool bool
  | Returned reqMsg nat nat bool bool replyMsg
  | Delayed replyMsg
  | Failing
  | Answered replyMsg

definition no_reply :: replyMsg where
  "no_reply = \<lparr>rep_ok = False, reply = []\<rparr>"

text \<open>The look-up.\<close>

definition processReq_look :: "Network \<Rightarrow> reqMsg \<Rightarrow> req_state" where
  "processReq_look rn req =
     (case readEndnameInfo rn (endname req) of
        (True, Some servername, Some server, rel, longre) \<Rightarrow> Ready req servername server rel longre
      | _ \<Rightarrow> Failing)"

text \<open>The decision to drop the request, with the random number the code draws.\<close>

definition processReq_drop :: "bool \<Rightarrow> nat \<Rightarrow> bool" where
  "processReq_drop rel rnd \<longleftrightarrow> \<not> rel \<and> rnd mod 1000 < 100"

text \<open>
  The last part, when the handler has returned or the server was found dead while it ran; \<open>rnd\<close> and \<open>rnd'\<close> are
  the random numbers for dropping and for delaying the reply. The bytes of a reply are counted when it
  is sent.
\<close>

definition send_reply :: "Network \<Rightarrow> replyMsg \<Rightarrow> Network" where
  "send_reply rn rep = rn\<lparr>nbytes := nbytes rn + of_nat (length (reply rep))\<rparr>"

definition processReq_reply :: "Network \<Rightarrow> reqMsg \<Rightarrow> nat \<Rightarrow> nat \<Rightarrow> bool \<Rightarrow> bool \<Rightarrow> replyMsg option \<Rightarrow> nat \<Rightarrow> nat \<Rightarrow> Network \<times> req_state" where
  "processReq_reply rn req servername server rel longre r rnd rnd' =
     (let serverDead = isServerDead rn (endname req) servername server
      in case r of
           None \<Rightarrow> (rn, Answered no_reply)
         | Some rep \<Rightarrow>
             if serverDead then (rn, Answered no_reply)
             else if \<not> rel \<and> rnd mod 1000 < 100 then (rn, Answered no_reply)
             else if longre \<and> rnd' mod 900 < 600 then (rn, Delayed rep)
             else (send_reply rn rep, Answered rep))"

subsection \<open>All requests\<close>

text \<open>
  The network with its servers and the calls that have been made, in order; \<open>orphans\<close> are the calls whose handler
  nobody waits for any more. A call that is dispatched at its server is added to \<open>runs\<close>, which no step reads. A
  handler is any function, another one each time it runs, as the state of its object changes.
\<close>

record netsys =
  net :: Network
  store :: "nat \<Rightarrow> LabServer"
  reqs :: "req_state list"
  orphans :: "(nat \<times> reqMsg \<times> nat) list"
  runs :: "nat list"

inductive net_step :: "netsys \<Rightarrow> netsys \<Rightarrow> bool" where
  call: "net_step s (s\<lparr>net := take_req (net s) req, reqs := reqs s @ [Sent req]\<rparr>)"
| call_closed: "closed (net s) \<Longrightarrow> net_step s (s\<lparr>reqs := reqs s @ [Answered no_reply]\<rparr>)"
| look: "k < length (reqs s) \<Longrightarrow> reqs s ! k = Sent req \<Longrightarrow>
    net_step s (s\<lparr>reqs := (reqs s)[k := processReq_look (net s) req]\<rparr>)"
| drop_req: "k < length (reqs s) \<Longrightarrow> reqs s ! k = Ready req sn sv rel lr \<Longrightarrow> processReq_drop rel rnd \<Longrightarrow>
    net_step s (s\<lparr>reqs := (reqs s)[k := Answered no_reply]\<rparr>)"
| run: "k < length (reqs s) \<Longrightarrow> reqs s ! k = Ready req sn sv rel lr \<Longrightarrow> \<not> processReq_drop rel rnd \<Longrightarrow>
    net_step s (s\<lparr>reqs := (reqs s)[k := Running req sn sv rel lr]\<rparr>)"
| returned: "k < length (reqs s) \<Longrightarrow> reqs s ! k = Running req sn sv rel lr \<Longrightarrow>
    srv_dispatch handle (store s sv) req = Inr (rs, r) \<Longrightarrow>
    net_step s (s\<lparr>store := (store s)(sv := rs), reqs := (reqs s)[k := Returned req sn sv rel lr r], runs := runs s @ [k]\<rparr>)"
| dead: "k < length (reqs s) \<Longrightarrow> reqs s ! k = Running req sn sv rel lr \<Longrightarrow> isServerDead (net s) (endname req) sn sv \<Longrightarrow>
    processReq_reply (net s) req sn sv rel lr None rnd rnd' = (rn, q) \<Longrightarrow>
    net_step s (s\<lparr>net := rn, reqs := (reqs s)[k := q], orphans := orphans s @ [(k, req, sv)]\<rparr>)"
| orphan: "(k, req, sv) \<in> set (orphans s) \<Longrightarrow> srv_dispatch handle (store s sv) req = Inr (rs, r) \<Longrightarrow>
    net_step s (s\<lparr>store := (store s)(sv := rs), orphans := remove1 (k, req, sv) (orphans s), runs := runs s @ [k]\<rparr>)"
| answer: "k < length (reqs s) \<Longrightarrow> reqs s ! k = Returned req sn sv rel lr rep \<Longrightarrow>
    processReq_reply (net s) req sn sv rel lr (Some rep) rnd rnd' = (rn, q) \<Longrightarrow>
    net_step s (s\<lparr>net := rn, reqs := (reqs s)[k := q]\<rparr>)"
| late: "k < length (reqs s) \<Longrightarrow> reqs s ! k = Delayed rep \<Longrightarrow>
    net_step s (s\<lparr>net := send_reply (net s) rep, reqs := (reqs s)[k := Answered rep]\<rparr>)"
| fail: "k < length (reqs s) \<Longrightarrow> reqs s ! k = Failing \<Longrightarrow>
    net_step s (s\<lparr>reqs := (reqs s)[k := Answered no_reply]\<rparr>)"
| change: "rn \<in> {Reliable (net s) b, LongReordering (net s) b, LongDelays (net s) b, Enable (net s) e b, Connect (net s) e v,
      AddServer (net s) v a, DeleteServer (net s) v} \<Longrightarrow>
    net_step s (s\<lparr>net := rn\<rparr>)"
| new_end: "MakeEnd (net s) e = Inr rn \<or> Cleanup (net s) = Inr rn \<Longrightarrow> net_step s (s\<lparr>net := rn\<rparr>)"

inductive net_reach :: "netsys \<Rightarrow> bool" where
  start: "net_reach \<lparr>net = MakeNetwork, store = st, reqs = [], orphans = [], runs = []\<rparr>"
| step: "net_reach s \<Longrightarrow> net_step s t \<Longrightarrow> net_reach t"

subsection \<open>What a caller can rely on\<close>

fun handled :: "req_state \<Rightarrow> bool" where
  "handled (Returned _ _ _ _ _ _) = True"
| "handled (Delayed _) = True"
| "handled (Answered r) = rep_ok r"
| "handled _ = False"

fun pending :: "req_state \<Rightarrow> bool" where
  "pending (Sent _) = True"
| "pending (Ready _ _ _ _ _) = True"
| "pending (Running _ _ _ _ _) = True"
| "pending _ = False"

definition net_inv :: "netsys \<Rightarrow> bool" where
  "net_inv s \<longleftrightarrow> distinct (runs s @ map fst (orphans s)) \<and>
     (\<forall>k < length (reqs s). handled (reqs s ! k) \<longrightarrow> k \<in> set (runs s)) \<and>
     (\<forall>k \<in> set (runs s @ map fst (orphans s)). k < length (reqs s) \<and> \<not> pending (reqs s ! k)) \<and>
     (\<forall>k \<in> set (map fst (orphans s)). \<not> handled (reqs s ! k))"

lemma net_invD:
  assumes "net_inv s" "k < length (reqs s)"
  shows "handled (reqs s ! k) \<Longrightarrow> k \<in> set (runs s)"
    "pending (reqs s ! k) \<Longrightarrow> k \<notin> set (runs s) \<and> k \<notin> fst ` set (orphans s)"
    "handled (reqs s ! k) \<Longrightarrow> k \<notin> fst ` set (orphans s)"
  using assms by (auto simp: net_inv_def)

lemma no_reply_ok [simp]: "rep_ok no_reply = False"
  by (simp add: no_reply_def)

lemma processReq_look_handled [simp]: "\<not> handled (processReq_look rn req)"
  by (auto simp: processReq_look_def split: prod.splits option.splits bool.splits)

lemma processReq_reply_None [simp]: "processReq_reply rn req sn sv rel lr None rnd rnd' = (rn, Answered no_reply)"
  by (simp add: processReq_reply_def)

lemma processReq_reply_Some:
  assumes "processReq_reply rn req sn sv rel lr (Some rep) rnd rnd' = (rn', q)"
  shows "q = Answered no_reply \<or> q \<in> {Answered rep, Delayed rep} \<and> \<not> isServerDead rn (endname req) sn sv"
  using assms by (auto simp: processReq_reply_def Let_def split: if_splits)

lemma remove1_fst:
  assumes "distinct (map fst xs)" "(k, v) \<in> set xs"
  shows "fst ` set xs = insert k (fst ` set (remove1 (k, v) xs)) \<and> distinct (k # map fst (remove1 (k, v) xs))"
  using assms
proof (induction xs)
  case (Cons x xs)
  show ?case
  proof (cases "x = (k, v)")
    case True
    then show ?thesis using Cons.prems(1) by auto
  next
    case False
    then have "fst x \<noteq> k" using Cons.prems by (auto simp: image_iff)
    moreover have "fst ` set (remove1 (k, v) xs) \<subseteq> fst ` set xs" using set_remove1_subset by fastforce
    ultimately show ?thesis using Cons False by auto
  qed
qed simp

lemma net_step_inv:
  assumes "net_step s t" "net_inv s"
  shows "net_inv t"
  using assms
proof (induction rule: net_step.induct)
  case (look k s req)
  then have "k \<notin> set (runs s)" "k \<notin> fst ` set (orphans s)" using net_invD(2) by fastforce+
  then show ?case using look by (auto simp: net_inv_def nth_list_update image_iff)
next
  case (run k s req sn sv rel lr rnd)
  then have "k \<notin> set (runs s)" "k \<notin> fst ` set (orphans s)" using net_invD(2) by fastforce+
  then show ?case using run by (auto simp: net_inv_def nth_list_update image_iff)
next
  case (returned k s req sn sv rel lr handle rs r)
  then have "k \<notin> set (runs s)" "k \<notin> fst ` set (orphans s)" using net_invD(2) by fastforce+
  then show ?case using returned by (auto simp: net_inv_def nth_list_update)
next
  case (dead k s req sn sv rel lr rnd rnd' rn q)
  then have "k \<notin> set (runs s)" "k \<notin> fst ` set (orphans s)" using net_invD(2) by fastforce+
  then show ?case using dead by (auto simp: net_inv_def nth_list_update)
next
  case (orphan k req sv s handle rs r)
  have d: "distinct (map fst (orphans s))" using orphan by (simp add: net_inv_def)
  note m = remove1_fst [OF d orphan(1)]
  then show ?case using orphan(3) by (auto simp: net_inv_def)
next
  case (answer k s req sn sv rel lr rep rnd rnd' rn q)
  then have "k \<in> set (runs s)" "k \<notin> fst ` set (orphans s)" using net_invD [OF answer(4,1)] by simp_all
  then show ?case using answer processReq_reply_Some [OF answer(3)] by (auto simp: net_inv_def nth_list_update)
next
  case (late k s rep)
  then have "k \<in> set (runs s)" "k \<notin> fst ` set (orphans s)" using net_invD [OF late(3,1)] by simp_all
  then show ?case using late by (auto simp: net_inv_def nth_list_update)
qed (auto simp: net_inv_def nth_list_update nth_append less_Suc_eq)

lemma net_reach_inv: "net_reach s \<Longrightarrow> net_inv s"
proof (induction rule: net_reach.induct)
  case (start st)
  then show ?case by (simp add: net_inv_def)
next
  case (step s t)
  then show ?case using net_step_inv by blast
qed

lemma count_list_distinct: "distinct xs \<Longrightarrow> count_list xs x = (if x \<in> set xs then 1 else 0)"
  by (induction xs) auto

text \<open>
  C32: At most once. However calls, drops, removals, delays and handlers interleave, a call is dispatched to a
  handler at most once, also when nobody waits for it any more, and a caller with a positive reply
  knows that it was dispatched exactly once.
\<close>

theorem labrpc_at_most_once:
  assumes "net_reach s"
  shows "count_list (runs s) k \<le> 1 \<and>
    (k < length (reqs s) \<and> reqs s ! k = Answered r \<and> rep_ok r \<longrightarrow> count_list (runs s) k = 1)"
proof -
  have "distinct (runs s)" using net_reach_inv [OF assms] by (simp add: net_inv_def)
  moreover have "k \<in> set (runs s)" if "k < length (reqs s)" "reqs s ! k = Answered r" "rep_ok r"
    using net_invD(1) [OF net_reach_inv [OF assms] that(1)] that(2,3) by simp
  ultimately show ?thesis by (simp add: count_list_distinct)
qed

text \<open>
  The check that the network makes: in the step in which a call gets a positive reply, or has it scheduled, the handler has
  returned exactly this reply, the end of the caller is enabled, and the server that ran the handler is still the one
  registered under its name.
\<close>

lemma checked_reply_is_live:
  assumes "processReq_reply rn req sn sv rel lr (Some rep) rnd rnd' = (rn', q)" "q \<in> {Answered r, Delayed r}" "rep_ok r"
  shows "rep = r" "map_get False (enabled rn) (endname req)" "map_get None (servers rn) sn = Some sv"
  using processReq_reply_Some [OF assms(1)] assms(2,3) by (auto simp: isServerDead_def)

text \<open>A run with the states it has gone through, the last one first.\<close>

inductive net_run :: "netsys list \<Rightarrow> bool" where
  start: "net_run [\<lparr>net = MakeNetwork, store = st, reqs = [], orphans = [], runs = []\<rparr>]"
| step: "net_run (s # ss) \<Longrightarrow> net_step s t \<Longrightarrow> net_run (t # s # ss)"

lemma net_reach_run: "net_reach s \<Longrightarrow> \<exists>ss. net_run (s # ss)"
  by (induction rule: net_reach.induct) (blast intro: net_run.intros)+

definition was_sent :: "netsys list \<Rightarrow> nat \<Rightarrow> reqMsg \<Rightarrow> bool" where
  "was_sent ss k req \<longleftrightarrow> (\<exists>v \<in> set ss. k < length (reqs v) \<and> reqs v ! k = Sent req)"

definition live_in :: "netsys \<Rightarrow> nat \<Rightarrow> reqMsg \<Rightarrow> replyMsg \<Rightarrow> bool" where
  "live_in u k req r \<longleftrightarrow> k < length (reqs u) \<and> (\<exists>sn sv rel lr. reqs u ! k = Returned req sn sv rel lr r \<and>
     map_get False (enabled (net u)) (endname req) \<and> map_get None (servers (net u)) sn = Some sv)"

definition was_live :: "netsys list \<Rightarrow> nat \<Rightarrow> replyMsg \<Rightarrow> bool" where
  "was_live ss k r \<longleftrightarrow> (\<exists>u \<in> set ss. \<exists>req. live_in u k req r \<and> was_sent ss k req)"

fun history_ok :: "netsys list \<Rightarrow> nat \<Rightarrow> req_state \<Rightarrow> bool" where
  "history_ok ss k (Ready req _ _ _ _) = was_sent ss k req"
| "history_ok ss k (Running req _ _ _ _) = was_sent ss k req"
| "history_ok ss k (Returned req _ _ _ _ _) = was_sent ss k req"
| "history_ok ss k (Delayed r) = (rep_ok r \<longrightarrow> was_live ss k r)"
| "history_ok ss k (Answered r) = (rep_ok r \<longrightarrow> was_live ss k r)"
| "history_ok ss k _ = True"

lemma was_sent_longer: "was_sent ss k req \<Longrightarrow> was_sent (s # ss) k req"
  by (auto simp: was_sent_def)

lemma was_live_longer: "was_live ss k r \<Longrightarrow> was_live (s # ss) k r"
  unfolding was_live_def using was_sent_longer by (meson list.set_intros(2))

lemma history_ok_longer: "history_ok ss k q \<Longrightarrow> history_ok (s # ss) k q"
  by (cases q) (auto intro: was_sent_longer was_live_longer)

lemma history_ok_look: "was_sent ss k req \<Longrightarrow> history_ok ss k (processReq_look rn req)"
  by (auto simp: processReq_look_def split: prod.splits option.splits bool.splits)

lemma was_sent_now: "k < length (reqs s) \<Longrightarrow> reqs s ! k = Sent req \<Longrightarrow> was_sent (s # ss) k req"
  by (auto simp: was_sent_def)

lemma net_step_history:
  assumes "net_step s t" "k < length (reqs t)" "\<And>j. j < length (reqs s) \<Longrightarrow> history_ok ss j (reqs s ! j)"
  shows "history_ok (s # ss) k (reqs t ! k)"
proof -
  note old = history_ok_longer [OF assms(3)]
  show ?thesis
    using assms(1)
  proof cases
    case (look j req)
    then show ?thesis using old assms(2) history_ok_look [OF was_sent_now [OF look(2,3)]] by (auto simp: nth_list_update)
  next
    case (run j req sn sv rel lr rnd)
    then show ?thesis using old assms(2) old [of j] by (auto simp: nth_list_update)
  next
    case (returned j req sn sv rel lr handle rs r)
    then show ?thesis using old assms(2) old [of j] by (auto simp: nth_list_update)
  next
    case (answer j req sn sv rel lr rep rnd rnd' rn q)
    have sent: "was_sent (s # ss) j req" using old [OF answer(2)] answer(3) by simp
    have "history_ok (s # ss) j q"
    proof (cases "q = Answered no_reply \<or> \<not> rep_ok rep")
      case True
      then show ?thesis using processReq_reply_Some [OF answer(4)] by auto
    next
      case False
      then have q: "q \<in> {Answered rep, Delayed rep}" "rep_ok rep" using processReq_reply_Some [OF answer(4)] by auto
      note c = checked_reply_is_live [OF answer(4) q]
      have "live_in s j req rep" unfolding live_in_def using c(2,3) answer(2,3) by blast
      then have "was_live (s # ss) j rep" unfolding was_live_def using sent by auto
      then show ?thesis using q by auto
    qed
    then show ?thesis using answer(1,2) old assms(2) by (auto simp: nth_list_update)
  next
    case (late j rep)
    then show ?thesis using old assms(2) old [of j] by (auto simp: nth_list_update)
  qed (use old assms(2) in \<open>auto simp: nth_list_update nth_append less_Suc_eq\<close>)
qed

lemma net_run_history: "net_run run \<Longrightarrow> k < length (reqs (hd run)) \<Longrightarrow> history_ok (tl run) k (reqs (hd run) ! k)"
proof (induction arbitrary: k rule: net_run.induct)
  case (step s ss t)
  then show ?case using net_step_history [OF step(2)] by simp
qed simp

text \<open>
  Positive replies. When a caller has got a positive reply, then at an earlier moment of the run the handler had returned
  exactly this reply to exactly the request the caller had sent, the end of the caller was enabled, and the server that ran
  the handler was the one registered under its name. This is the moment of the network's check; a reply that is scheduled then may
  reach the caller after the server has been removed (\<open>labrpc_late_reply_from_deleted_server\<close>).
\<close>

theorem labrpc_ok_reply_was_live:
  assumes "net_run (t # ss)" "k < length (reqs t)" "reqs t ! k = Answered r" "rep_ok r"
  shows "\<exists>s \<in> set ss. \<exists>req sn sv rel lr. k < length (reqs s) \<and> reqs s ! k = Returned req sn sv rel lr r \<and>
     map_get False (enabled (net s)) (endname req) \<and> map_get None (servers (net s)) sn = Some sv \<and>
     (\<exists>v \<in> set ss. k < length (reqs v) \<and> reqs v ! k = Sent req)"
proof -
  have "history_ok ss k (reqs t ! k)" using net_run_history [OF assms(1), of k] assms(2) by simp
  then have "was_live ss k r" using assms(3,4) by simp
  then show ?thesis unfolding was_live_def live_in_def was_sent_def by blast
qed

text \<open>One call over one end to one server, from the start to its answer.\<close>

definition echo_server :: LabServer where
  "echo_server = AddService MakeServer (MakeService ''Raft''
     [\<lparr>m_name = ''Kill'', PkgPath = [], NumIn = 1, In2_is_ptr = False, NumOut = 0\<rparr>,
      \<lparr>m_name = ''RequestVote'', PkgPath = [], NumIn = 3, In2_is_ptr = True, NumOut = 0\<rparr>])"

definition echo_net :: "bool \<Rightarrow> Network" where
  "echo_net b = MakeNetwork\<lparr>longReordering := b, ends := {''e''}, enabled := [''e'' \<mapsto> True], connections := [''e'' \<mapsto> Some 0], servers := [0 \<mapsto> Some 5]\<rparr>"

definition echo_req :: reqMsg where
  "echo_req = \<lparr>endname = ''e'', svcMeth = ''Raft.RequestVote'', args = ''abc''\<rparr>"

definition echo_state :: "Network \<Rightarrow> req_state list \<Rightarrow> (nat \<Rightarrow> LabServer) \<Rightarrow> nat list \<Rightarrow> netsys" where
  "echo_state rn rs st ks = \<lparr>net = rn, store = st, reqs = rs, orphans = [], runs = ks\<rparr>"

definition echo_reply :: replyMsg where
  "echo_reply = \<lparr>rep_ok = True, reply = ''abc''\<rparr>"

abbreviation echo_store :: "nat \<Rightarrow> LabServer" where
  "echo_store \<equiv> (\<lambda>_. echo_server)"

lemma echo_net_reach: "net_reach (echo_state (echo_net b) [] echo_store [])"
proof -
  let ?n1 = "MakeNetwork\<lparr>ends := {''e''}, enabled := [''e'' \<mapsto> False], connections := [''e'' \<mapsto> None]\<rparr>"
  let ?n2 = "AddServer ?n1 0 5" let ?n3 = "Connect ?n2 ''e'' 0" let ?n4 = "LongReordering (Enable ?n3 ''e'' True) b"
  have "net_reach (echo_state MakeNetwork [] echo_store [])" unfolding echo_state_def by (rule net_reach.start)
  moreover have "net_step (echo_state MakeNetwork [] echo_store []) (echo_state ?n1 [] echo_store [])"
    using net_step.new_end [of "echo_state MakeNetwork [] echo_store []" "''e''" ?n1]
    by (simp add: echo_state_def MakeEnd_def MakeNetwork_def)
  moreover have "net_step (echo_state n [] echo_store []) (echo_state rn [] echo_store [])"
    if "rn \<in> {LongReordering n b, Enable n ''e'' True, Connect n ''e'' 0, AddServer n 0 5}" for n rn
    using net_step.change [of rn "echo_state n [] echo_store []" b "''e''" 0 5] net_step.change [of rn "echo_state n [] echo_store []" True "''e''" 0 5]
      that by (auto simp: echo_state_def)
  ultimately have "net_reach (echo_state ?n4 [] echo_store [])" by (meson insertI1 insertI2 net_reach.step)
  then show ?thesis by (simp add: echo_net_def LongReordering_def Enable_def Connect_def AddServer_def MakeNetwork_def)
qed

definition echo_used :: "bool \<Rightarrow> Network" where
  "echo_used b = take_req (echo_net b) echo_req"

lemma echo_returned_reach:
  "\<exists>st. net_reach (echo_state (echo_used b) [Returned echo_req 0 5 True b echo_reply] st [0])"
proof -
  let ?ready = "Ready echo_req 0 5 True b" and ?running = "Running echo_req 0 5 True b"
  have "net_step (echo_state (echo_net b) [] echo_store []) (echo_state (echo_used b) [Sent echo_req] echo_store [])"
    using net_step.call [of "echo_state (echo_net b) [] echo_store []" echo_req] by (simp add: echo_state_def echo_used_def)
  moreover have "processReq_look (echo_used b) echo_req = ?ready"
    by (simp add: processReq_look_def readEndnameInfo_def Let_def echo_used_def take_req_def echo_net_def echo_req_def MakeNetwork_def)
  then have "net_step (echo_state (echo_used b) [Sent echo_req] echo_store []) (echo_state (echo_used b) [?ready] echo_store [])"
    using net_step.look [of 0 "echo_state (echo_used b) [Sent echo_req] echo_store []" echo_req] by (simp add: echo_state_def)
  moreover have "net_step (echo_state (echo_used b) [?ready] echo_store []) (echo_state (echo_used b) [?running] echo_store [])"
    using net_step.run [of 0 "echo_state (echo_used b) [?ready] echo_store []" echo_req 0 5 True b 0]
    by (simp add: echo_state_def processReq_drop_def)
  moreover have "srv_dispatch (\<lambda>_ _ x. x) echo_server echo_req = Inr (echo_server\<lparr>scount := 1\<rparr>, echo_reply)"
    by (simp add: srv_dispatch_def split_method_def svc_dispatch_def echo_server_def AddService_def MakeService_def MakeServer_def is_handler_def
        echo_req_def echo_reply_def Let_def)
  then have "net_step (echo_state (echo_used b) [?running] echo_store [])
      (echo_state (echo_used b) [Returned echo_req 0 5 True b echo_reply] (echo_store(5 := echo_server\<lparr>scount := 1\<rparr>)) [0])"
    using net_step.returned [of 0 "echo_state (echo_used b) [?running] echo_store []" echo_req 0 5 True b "\<lambda>_ _ x. x"
        "echo_server\<lparr>scount := 1\<rparr>" echo_reply]
    by (simp add: echo_state_def)
  ultimately show ?thesis using echo_net_reach by (meson net_reach.step)
qed

lemma echo_answer:
  "\<exists>rn. net_step (echo_state (echo_used False) [Returned echo_req 0 5 True False echo_reply] st [0])
     (echo_state rn [Answered echo_reply] st [0])"
proof -
  let ?s = "echo_state (echo_used False) [Returned echo_req 0 5 True False echo_reply] st [0]"
  obtain rn where "processReq_reply (echo_used False) echo_req 0 5 True False (Some echo_reply) 0 0 = (rn, Answered echo_reply)"
    by (simp add: processReq_reply_def isServerDead_def echo_used_def take_req_def echo_net_def echo_req_def MakeNetwork_def)
  then show ?thesis
    using net_step.answer [of 0 ?s echo_req 0 5 True False echo_reply 0 0 rn "Answered echo_reply"] by (auto simp: echo_state_def)
qed

theorem labrpc_at_most_once_witness:
  "\<exists>s. net_reach s \<and> reqs s = [Answered echo_reply] \<and> rep_ok echo_reply \<and> count_list (runs s) 0 = 1"
proof -
  obtain st where "net_reach (echo_state (echo_used False) [Returned echo_req 0 5 True False echo_reply] st [0])"
    using echo_returned_reach [of False] by blast
  then obtain rn where r: "net_reach (echo_state rn [Answered echo_reply] st [0])"
    using echo_answer net_reach.step by blast
  have "count_list (runs (echo_state rn [Answered echo_reply] st [0])) 0 = 1"
    using labrpc_at_most_once [OF r, of 0 echo_reply] by (simp add: echo_state_def echo_reply_def)
  then show ?thesis using r by (intro exI [of _ "echo_state rn [Answered echo_reply] st [0]"]) (simp add: echo_state_def echo_reply_def)
qed

theorem labrpc_ok_reply_was_live_witness:
  "\<exists>t ss s req sn sv rel lr. net_run (t # ss) \<and> reqs t = [Answered echo_reply] \<and> rep_ok echo_reply \<and>
     s \<in> set ss \<and> reqs s ! 0 = Returned req sn sv rel lr echo_reply \<and> map_get None (servers (net s)) sn = Some sv"
proof -
  obtain st where "net_reach (echo_state (echo_used False) [Returned echo_req 0 5 True False echo_reply] st [0])"
    using echo_returned_reach [of False] by blast
  then obtain rn where r: "net_reach (echo_state rn [Answered echo_reply] st [0])"
    using echo_answer net_reach.step by blast
  obtain ss where ss: "net_run (echo_state rn [Answered echo_reply] st [0] # ss)" using net_reach_run [OF r] by blast
  have "\<exists>s \<in> set ss. \<exists>req sn sv rel lr. 0 < length (reqs s) \<and> reqs s ! 0 = Returned req sn sv rel lr echo_reply \<and>
     map_get False (enabled (net s)) (endname req) \<and> map_get None (servers (net s)) sn = Some sv \<and>
     (\<exists>v \<in> set ss. 0 < length (reqs v) \<and> reqs v ! 0 = Sent req)"
    by (rule labrpc_ok_reply_was_live [OF ss]) (simp_all add: echo_state_def echo_reply_def)
  then show ?thesis
    using ss by (elim bexE exE conjE, intro exI conjI) (assumption | simp add: echo_state_def echo_reply_def)+
qed

text \<open>
  With long reordering a caller can get a positive reply after \<^verbatim>\<open>DeleteServer\<close>: the reply was scheduled while the
  server was alive, and the timer that sends it does not look again.
\<close>

theorem labrpc_late_reply_from_deleted_server:
  "\<exists>s t. net_reach s \<and> servers (net s) 0 = Some None \<and> reqs s = [Delayed echo_reply] \<and>
     net_step s t \<and> servers (net t) 0 = Some None \<and> reqs t = [Answered echo_reply] \<and> rep_ok echo_reply"
proof -
  obtain st where r: "net_reach (echo_state (echo_used True) [Returned echo_req 0 5 True True echo_reply] st [0])"
    (is "net_reach ?s1") using echo_returned_reach [of True] by blast
  let ?s2 = "echo_state (echo_used True) [Delayed echo_reply] st [0]"
  let ?s3 = "echo_state (DeleteServer (echo_used True) 0) [Delayed echo_reply] st [0]"
  let ?s4 = "echo_state (send_reply (DeleteServer (echo_used True) 0) echo_reply) [Answered echo_reply] st [0]"
  have "processReq_reply (echo_used True) echo_req 0 5 True True (Some echo_reply) 0 0 = (echo_used True, Delayed echo_reply)"
    by (simp add: processReq_reply_def isServerDead_def echo_used_def take_req_def echo_net_def echo_req_def MakeNetwork_def)
  then have "net_step ?s1 ?s2"
    using net_step.answer [of 0 ?s1 echo_req 0 5 True True echo_reply 0 0 "echo_used True" "Delayed echo_reply"]
    by (simp add: echo_state_def)
  moreover have "net_step ?s2 ?s3"
    using net_step.change [of "DeleteServer (echo_used True) 0" ?s2 True "[]" 0 0] by (simp add: echo_state_def)
  moreover have "net_step ?s3 ?s4" using net_step.late [of 0 ?s3 echo_reply] by (simp add: echo_state_def)
  ultimately have "net_reach ?s3" "net_step ?s3 ?s4" using r net_reach.step by blast+
  then show ?thesis
    by (intro exI [of _ ?s3] exI [of _ ?s4]) (simp add: echo_state_def DeleteServer_def send_reply_def echo_reply_def)
qed

end
