(* ===== verification/Raft_Config.thy ===== *)
theory Raft_Config
  imports Raft_Peer Labrpc
begin

section \<open>Raft: the harness around the peers\<close>

text \<open>
  \<^verbatim>\<open>raft-demo/src/raft/config.go\<close>: the object that creates the peers, attaches them to the network of \<open>Labrpc\<close> and
  detaches them, watches what they apply, and answers the questions of the tests. The random
  names of the ends are an argument; a log of applied commands is a map. While the harness asks, the peers go on running, so
  what a question sees of the peers and the logs at its successive looks is an argument; where the
  code looks until a time limit is reached, it is a list that ends there. A \<^verbatim>\<open>t.Fatalf\<close> or \<^verbatim>\<open>log.Fatalf\<close> is a failure.
  Times are not modelled.
\<close>

subsection \<open>State\<close>

record 'c config =
  cfg_n :: nat
  connected :: "bool list"
  endnames :: "string list list"
  clogs :: "(int \<rightharpoonup> 'c) list"
  maxIndex :: int
  rpcs0 :: int
  cmds0 :: int
  bytes0 :: goint
  maxIndex0 :: int

subsection \<open>Attaching and detaching\<close>

text \<open>The network part of \<^verbatim>\<open>start1\<close>: new ends for peer \<open>i\<close>, each connected to its server, and the server itself.\<close>

fun start_ends :: "Network \<Rightarrow> (string \<times> nat) list \<Rightarrow> Network result" where
  "start_ends rn [] = Inr rn"
| "start_ends rn ((name, j) # rest) =
     bind_result (MakeEnd rn name) (\<lambda>rn1. start_ends (Connect rn1 name j) rest)"

definition start1_net :: "'c config \<Rightarrow> Network \<Rightarrow> nat \<Rightarrow> Network result" where
  "start1_net cfg rn i =
     bind_result (start_ends rn (zip (endnames cfg ! i) [0..<cfg_n cfg])) (\<lambda>rn1. Inr (AddServer rn1 i i))"

text \<open>
  The peer part: the peer itself and the server that gets its calls. The exported methods of \<^verbatim>\<open>Raft\<close> are those
  reflection finds.
\<close>

definition raft_methods :: "Method list" where
  "raft_methods =
     [\<lparr>m_name = ''AppendEntries'', PkgPath = [], NumIn = 3, In2_is_ptr = True, NumOut = 0\<rparr>,
      \<lparr>m_name = ''GetState'', PkgPath = [], NumIn = 1, In2_is_ptr = False, NumOut = 2\<rparr>,
      \<lparr>m_name = ''Kill'', PkgPath = [], NumIn = 1, In2_is_ptr = False, NumOut = 0\<rparr>,
      \<lparr>m_name = ''RequestVote'', PkgPath = [], NumIn = 3, In2_is_ptr = True, NumOut = 0\<rparr>,
      \<lparr>m_name = ''Start'', PkgPath = [], NumIn = 2, In2_is_ptr = False, NumOut = 3\<rparr>]"

definition start1_peer :: "nat \<Rightarrow> nat \<Rightarrow> 'c \<Rightarrow> 'c Raft \<times> LabServer" where
  "start1_peer n i zero = (raft_Make n i zero, AddService MakeServer (MakeService ''Raft'' raft_methods))"

fun start_all :: "'c config \<Rightarrow> Network \<Rightarrow> nat list \<Rightarrow> Network result" where
  "start_all cfg rn [] = Inr rn"
| "start_all cfg rn (i # is) = bind_result (start1_net cfg rn i) (\<lambda>rn1. start_all cfg rn1 is)"

fun set_ends :: "bool list \<Rightarrow> bool \<Rightarrow> Network \<Rightarrow> (nat \<times> string) list \<Rightarrow> Network" where
  "set_ends ok b rn [] = rn"
| "set_ends ok b rn ((j, name) # rest) = set_ends ok b (if ok ! j then Enable rn name b else rn) rest"

definition outgoing :: "'c config \<Rightarrow> nat \<Rightarrow> (nat \<times> string) list" where
  "outgoing cfg i = map (\<lambda>j. (j, endnames cfg ! i ! j)) [0..<cfg_n cfg]"

definition incoming :: "'c config \<Rightarrow> nat \<Rightarrow> (nat \<times> string) list" where
  "incoming cfg i = map (\<lambda>j. (j, endnames cfg ! j ! i)) [0..<cfg_n cfg]"

definition cfg_connect :: "'c config \<Rightarrow> Network \<Rightarrow> nat \<Rightarrow> 'c config \<times> Network" where
  "cfg_connect cfg rn i =
     (let cfg1 = cfg\<lparr>connected := (connected cfg)[i := True]\<rparr>;
          rn1 = set_ends (connected cfg1) True rn (outgoing cfg1 i)
      in (cfg1, set_ends (connected cfg1) True rn1 (incoming cfg1 i)))"

definition cfg_disconnect :: "'c config \<Rightarrow> Network \<Rightarrow> nat \<Rightarrow> 'c config \<times> Network" where
  "cfg_disconnect cfg rn i =
     (let cfg1 = cfg\<lparr>connected := (connected cfg)[i := False]\<rparr>;
          rn1 = set_ends (replicate (cfg_n cfg1) True) False rn (outgoing cfg1 i)
      in (cfg1, set_ends (replicate (cfg_n cfg1) True) False rn1 (incoming cfg1 i)))"

text \<open>\<^verbatim>\<open>make_config\<close>: all flags are off and all logs empty; the peers are started, then all are connected.\<close>

definition blank_config :: "nat \<Rightarrow> string list list \<Rightarrow> 'c config" where
  "blank_config n names =
     \<lparr>cfg_n = n, connected = replicate n False, endnames = names, clogs = replicate n Map.empty, maxIndex = 0,
      rpcs0 = 0, cmds0 = 0, bytes0 = 0, maxIndex0 = 0\<rparr>"

definition setunreliable :: "Network \<Rightarrow> bool \<Rightarrow> Network" where
  "setunreliable rn unrel = Reliable rn (\<not> unrel)"

definition setlongreordering :: "Network \<Rightarrow> bool \<Rightarrow> Network" where
  "setlongreordering rn longrel = LongReordering rn longrel"

definition make_config :: "nat \<Rightarrow> string list list \<Rightarrow> bool \<Rightarrow> ('c config \<times> Network) result" where
  "make_config n names unreliable =
     (let cfg = blank_config n names
      in bind_result (start_all cfg (LongDelays (setunreliable MakeNetwork unreliable) True) [0..<n]) (\<lambda>rn.
           Inr (foldl (\<lambda>(c, r) i. cfg_connect c r i) (cfg, rn) [0..<n])))"

text \<open>\<^verbatim>\<open>cleanup\<close> kills the peers and closes the network.\<close>

definition cfg_cleanup :: "'c Raft list \<Rightarrow> Network \<Rightarrow> ('c Raft list \<times> Network) result" where
  "cfg_cleanup rafts rn = bind_result (Cleanup rn) (\<lambda>rn1. Inr (map raft_Kill rafts, rn1))"

subsection \<open>Statistics\<close>

definition cfg_begin :: "'c config \<Rightarrow> Network \<Rightarrow> 'c config" where
  "cfg_begin cfg rn =
     cfg\<lparr>rpcs0 := GetTotalCount rn, bytes0 := GetTotalBytes rn, cmds0 := 0, maxIndex0 := maxIndex cfg\<rparr>"

text \<open>The numbers \<^verbatim>\<open>end\<close> prints: peers, calls, bytes and agreements.\<close>

definition cfg_end :: "'c config \<Rightarrow> Network \<Rightarrow> nat \<times> int \<times> goint \<times> int" where
  "cfg_end cfg rn = (cfg_n cfg, GetTotalCount rn - rpcs0 cfg, GetTotalBytes rn - bytes0 cfg, maxIndex cfg - maxIndex0 cfg)"

subsection \<open>Watching what is applied\<close>

text \<open>
  One message of peer \<open>i\<close> on its \<^verbatim>\<open>applyCh\<close>. The first component of the code's error is that another peer has applied
  a different command at the index, the second that the index before is missing.
\<close>

definition apply_check :: "'c config \<Rightarrow> nat \<Rightarrow> 'c ApplyMsg \<Rightarrow> 'c config result" where
  "apply_check cfg i m =
     (if \<not> CommandValid m then Inr cfg
      else
        let v = aCommand m; k = CommandIndex m;
            clash = list_ex (\<lambda>lg. case lg k of None \<Rightarrow> False | Some old \<Rightarrow> old \<noteq> v) (clogs cfg);
            prevok = ((clogs cfg ! i) (k - 1) \<noteq> None);
            cfg1 = cfg\<lparr>clogs := (clogs cfg)[i := (clogs cfg ! i)(k \<mapsto> v)],
                       maxIndex := (if k > maxIndex cfg then k else maxIndex cfg)\<rparr>
        in if clash \<or> k > 1 \<and> \<not> prevok then Inl (LogFatal ''apply error'') else Inr cfg1)"

fun apply_checks :: "'c config \<Rightarrow> (nat \<times> 'c ApplyMsg) list \<Rightarrow> 'c config result" where
  "apply_checks cfg [] = Inr cfg"
| "apply_checks cfg ((i, m) # ms) = bind_result (apply_check cfg i m) (\<lambda>cfg1. apply_checks cfg1 ms)"

subsection \<open>Questions of the tests\<close>

text \<open>
  One round of \<^verbatim>\<open>checkOneLeader\<close>: \<open>states\<close> is what \<^verbatim>\<open>GetState\<close> answers, \<open>order\<close> the order in which the
  terms are visited. The result is the leader, if there is one.
\<close>

fun collect_leaders :: "bool list \<Rightarrow> (int \<times> bool) list \<Rightarrow> nat list \<Rightarrow> (int \<rightharpoonup> nat list) \<Rightarrow> (int \<rightharpoonup> nat list)" where
  "collect_leaders conn states [] leaders = leaders"
| "collect_leaders conn states (i # is) leaders =
     collect_leaders conn states is
       (if conn ! i \<and> snd (states ! i)
        then leaders(fst (states ! i) \<mapsto> map_get [] leaders (fst (states ! i)) @ [i]) else leaders)"

fun last_term :: "(int \<rightharpoonup> nat list) \<Rightarrow> int list \<Rightarrow> int \<Rightarrow> int result" where
  "last_term leaders [] l = Inr l"
| "last_term leaders (term # ts) l =
     (if length (map_get [] leaders term) > 1 then Inl (LogFatal ''term has more than one leader'')
      else last_term leaders ts (if term > l then term else l))"

definition leader_round :: "'c config \<Rightarrow> (int \<times> bool) list \<Rightarrow> int list \<Rightarrow> nat option result" where
  "leader_round cfg states order =
     (let leaders = collect_leaders (connected cfg) states [0..<cfg_n cfg] Map.empty
      in bind_result (last_term leaders order (- 1)) (\<lambda>lastTermWithLeader.
           if leaders \<noteq> Map.empty then
             bind_result (slice_get (map_get [] leaders lastTermWithLeader) 0) (\<lambda>l. Inr (Some l))
           else Inr None))"

text \<open>The ten rounds; \<open>obs k\<close> is what round \<open>k\<close> sees.\<close>

fun leader_rounds :: "'c config \<Rightarrow> ((int \<times> bool) list \<times> int list) list \<Rightarrow> nat result" where
  "leader_rounds cfg [] = Inl (LogFatal ''expected one leader, got none'')"
| "leader_rounds cfg ((states, order) # rs) =
     bind_result (leader_round cfg states order) (\<lambda>l. case l of Some i \<Rightarrow> Inr i | None \<Rightarrow> leader_rounds cfg rs)"

definition checkOneLeader :: "'c config \<Rightarrow> (nat \<Rightarrow> (int \<times> bool) list \<times> int list) \<Rightarrow> nat result" where
  "checkOneLeader cfg obs = leader_rounds cfg (map obs [0..<10])"

fun checkTerms_loop :: "bool list \<Rightarrow> (int \<times> bool) list \<Rightarrow> nat list \<Rightarrow> int \<Rightarrow> int result" where
  "checkTerms_loop conn states [] term = Inr term"
| "checkTerms_loop conn states (i # is) term =
     (if conn ! i then
        let xterm = fst (states ! i)
        in if term = - 1 then checkTerms_loop conn states is xterm
           else if term \<noteq> xterm then Inl (LogFatal ''servers disagree on term'')
           else checkTerms_loop conn states is term
      else checkTerms_loop conn states is term)"

definition checkTerms :: "'c config \<Rightarrow> (int \<times> bool) list \<Rightarrow> int result" where
  "checkTerms cfg states = checkTerms_loop (connected cfg) states [0..<cfg_n cfg] (- 1)"

definition checkNoLeader :: "'c config \<Rightarrow> (int \<times> bool) list \<Rightarrow> unit result" where
  "checkNoLeader cfg states =
     (if list_ex (\<lambda>i. connected cfg ! i \<and> snd (states ! i)) [0..<cfg_n cfg]
      then Inl (LogFatal ''expected no leader'') else Inr ())"

fun nCommitted_loop :: "(int \<rightharpoonup> 'c) list \<Rightarrow> int \<Rightarrow> nat \<Rightarrow> 'c option \<Rightarrow> (nat \<times> 'c option) result" where
  "nCommitted_loop [] index count cmd = Inr (count, cmd)"
| "nCommitted_loop (lg # lgs) index count cmd =
     (case lg index of
        None \<Rightarrow> nCommitted_loop lgs index count cmd
      | Some cmd1 \<Rightarrow>
          if count > 0 \<and> cmd \<noteq> Some cmd1 then Inl (LogFatal ''committed values do not match'')
          else nCommitted_loop lgs index (count + 1) (Some cmd1))"

definition nCommitted :: "'c config \<Rightarrow> int \<Rightarrow> (nat \<times> 'c option) result" where
  "nCommitted cfg index = nCommitted_loop (clogs cfg) index 0 None"

text \<open>
  \<^verbatim>\<open>wait\<close>: \<open>obs k\<close> is what look \<open>k\<close> finds, the logs and the terms of the peers. The result \<open>None\<close> is the -1 that says
  that someone has moved on.
\<close>

fun wait_loop :: "(nat \<Rightarrow> 'c config \<times> int list) \<Rightarrow> int \<Rightarrow> nat \<Rightarrow> int \<Rightarrow> nat list \<Rightarrow> bool result" where
  "wait_loop obs index n startTerm [] = Inr False"
| "wait_loop obs index n startTerm (k # ks) =
     bind_result (nCommitted (fst (obs k)) index) (\<lambda>(nd, _).
       if nd \<ge> n then Inr False
       else if startTerm > - 1 \<and> list_ex (\<lambda>t. t > startTerm) (snd (obs k)) then Inr True
       else wait_loop obs index n startTerm ks)"

definition cfg_wait :: "(nat \<Rightarrow> 'c config \<times> int list) \<Rightarrow> int \<Rightarrow> nat \<Rightarrow> int \<Rightarrow> 'c option option result" where
  "cfg_wait obs index n startTerm =
     bind_result (wait_loop obs index n startTerm [0..<30]) (\<lambda>moved.
       if moved then Inr None
       else bind_result (nCommitted (fst (obs 30)) index) (\<lambda>(nd, cmd).
         if nd < n then Inl (LogFatal ''too few decided'') else Inr (Some cmd)))"

text \<open>
  \<^verbatim>\<open>one\<close>: the scan for a leader, where \<open>start i\<close> is what \<^verbatim>\<open>Start\<close> of peer \<open>i\<close> answers; the looks at the logs for two seconds;
  and the attempts for ten seconds, each with its scan and its looks.
\<close>

fun one_scan :: "'c config \<Rightarrow> (nat \<Rightarrow> int \<times> bool) \<Rightarrow> nat \<Rightarrow> nat \<Rightarrow> nat \<times> int" where
  "one_scan cfg start 0 starts = (starts, - 1)"
| "one_scan cfg start (Suc si) starts =
     (let starts1 = (starts + 1) mod cfg_n cfg
      in if connected cfg ! starts1 \<and> snd (start starts1) then (starts1, fst (start starts1))
         else one_scan cfg start si starts1)"

fun one_poll :: "'c config list \<Rightarrow> int \<Rightarrow> nat \<Rightarrow> 'c \<Rightarrow> bool result" where
  "one_poll [] index expectedServers cmd = Inr False"
| "one_poll (cfg # cfgs) index expectedServers cmd =
     bind_result (nCommitted cfg index) (\<lambda>(nd, cmd1).
       if nd > 0 \<and> nd \<ge> expectedServers \<and> cmd1 = Some cmd then Inr True
       else one_poll cfgs index expectedServers cmd)"

fun one_loop :: "('c config \<times> (nat \<Rightarrow> int \<times> bool) \<times> 'c config list) list \<Rightarrow> 'c \<Rightarrow> nat \<Rightarrow> bool \<Rightarrow> nat \<Rightarrow> int result" where
  "one_loop [] cmd expectedServers retry starts = Inl (LogFatal ''failed to reach agreement'')"
| "one_loop ((cfg, start, polls) # rounds) cmd expectedServers retry starts =
     (case one_scan cfg start (cfg_n cfg) starts of (starts1, index) \<Rightarrow>
        if index \<noteq> - 1 then
          bind_result (one_poll polls index expectedServers cmd) (\<lambda>agreed.
            if agreed then Inr index
            else if \<not> retry then Inl (LogFatal ''failed to reach agreement'')
            else one_loop rounds cmd expectedServers retry starts1)
        else one_loop rounds cmd expectedServers retry starts1)"

definition cfg_one :: "('c config \<times> (nat \<Rightarrow> int \<times> bool) \<times> 'c config list) list \<Rightarrow> 'c \<Rightarrow> nat \<Rightarrow> bool \<Rightarrow> int result" where
  "cfg_one rounds cmd expectedServers retry = one_loop rounds cmd expectedServers retry 0"

subsection \<open>What the appliers guarantee\<close>

definition applied :: "(nat \<times> 'c ApplyMsg) list \<Rightarrow> nat \<Rightarrow> int \<Rightarrow> 'c \<Rightarrow> bool" where
  "applied ms i k v \<longleftrightarrow> (\<exists>m. (i, m) \<in> set ms \<and> CommandValid m \<and> CommandIndex m = k \<and> aCommand m = v)"

definition logs_ok :: "'c config \<Rightarrow> (nat \<times> 'c ApplyMsg) list \<Rightarrow> bool" where
  "logs_ok cfg ms \<longleftrightarrow>
     (\<forall>i < length (clogs cfg). \<forall>k v. applied ms i k v \<longrightarrow> (clogs cfg ! i) k = Some v) \<and>
     (\<forall>i < length (clogs cfg). \<forall>k. (clogs cfg ! i) k \<noteq> None \<longrightarrow> 1 < k \<longrightarrow> (clogs cfg ! i) (k - 1) \<noteq> None) \<and>
     (\<forall>i < length (clogs cfg). \<forall>j < length (clogs cfg). \<forall>k v w.
        (clogs cfg ! i) k = Some v \<longrightarrow> (clogs cfg ! j) k = Some w \<longrightarrow> v = w)"

lemma logs_okD:
  assumes "logs_ok cfg ms" "i < length (clogs cfg)"
  shows "applied ms i k v \<Longrightarrow> (clogs cfg ! i) k = Some v"
    "(clogs cfg ! i) k \<noteq> None \<Longrightarrow> 1 < k \<Longrightarrow> (clogs cfg ! i) (k - 1) \<noteq> None"
    "j < length (clogs cfg) \<Longrightarrow> (clogs cfg ! i) k = Some v \<Longrightarrow> (clogs cfg ! j) k = Some w \<Longrightarrow> v = w"
  using assms unfolding logs_ok_def by blast+

lemma applied_simps [simp]:
  "\<not> applied [] i k v"
  "applied (ms @ [(j, m)]) i k v \<longleftrightarrow> applied ms i k v \<or> i = j \<and> CommandValid m \<and> CommandIndex m = k \<and> aCommand m = v"
  by (auto simp: applied_def)

lemma apply_check_ok:
  assumes "apply_check cfg i m = Inr cfg'" "logs_ok cfg ms" "i < length (clogs cfg)"
  shows "logs_ok cfg' (ms @ [(i, m)]) \<and> length (clogs cfg') = length (clogs cfg)"
proof (cases "CommandValid m")
  case False
  then show ?thesis using assms by (simp add: apply_check_def logs_ok_def)
next
  case True
  let ?k = "CommandIndex m" and ?v = "aCommand m"
  have no: "(clogs cfg ! j) ?k = Some w \<Longrightarrow> w = ?v" if "j < length (clogs cfg)" for j w
    using assms(1) True nth_mem [OF that] by (force simp: apply_check_def Let_def list_ex_iff split: if_splits option.splits)
  have prev: "1 < ?k \<longrightarrow> (clogs cfg ! i) (?k - 1) \<noteq> None"
    using assms(1) True by (auto simp: apply_check_def Let_def split: if_splits)
  have c: "clogs cfg' = (clogs cfg)[i := (clogs cfg ! i)(?k \<mapsto> ?v)]"
    using assms(1) True by (auto simp: apply_check_def Let_def split: if_splits)
  have get: "(clogs cfg' ! j) k = (if j = i \<and> k = ?k then Some ?v else (clogs cfg ! j) k)" if "j < length (clogs cfg)" for j k
    using that by (cases "j = i") (auto simp: c)
  have "(clogs cfg' ! j) k = Some v" if "j < length (clogs cfg)" "applied (ms @ [(i, m)]) j k v" for j k v
    using that logs_okD(1) [OF assms(2) that(1), of k v] no [OF that(1)] by (auto simp: get)
  moreover have "(clogs cfg' ! j) (k - 1) \<noteq> None" if "j < length (clogs cfg)" "(clogs cfg' ! j) k \<noteq> None" "1 < k" for j k
    using that logs_okD(2) [OF assms(2) that(1), of k] prev by (auto simp: get split: if_splits)
  moreover have "v = w" if "j < length (clogs cfg)" "l < length (clogs cfg)" "(clogs cfg' ! j) k = Some v" "(clogs cfg' ! l) k = Some w" for j l k v w
  proof (cases "k = ?k")
    case True
    then have "v = ?v" "w = ?v"
      using that(3,4) no [OF that(1), of v] no [OF that(2), of w] unfolding get [OF that(1)] get [OF that(2)] by (simp_all split: if_splits)
    then show ?thesis by simp
  next
    case False
    then show ?thesis using that(3,4) logs_okD(3) [OF assms(2) that(1,2), of k v w] by (simp add: get that(1,2))
  qed
  moreover have len: "length (clogs cfg') = length (clogs cfg)" by (simp add: c)
  ultimately show ?thesis unfolding logs_ok_def len by blast
qed

lemma apply_checks_ok:
  assumes "apply_checks cfg ms = Inr cfg'" "logs_ok cfg done" "\<forall>(i, m) \<in> set ms. i < length (clogs cfg)"
  shows "logs_ok cfg' (done @ ms) \<and> length (clogs cfg') = length (clogs cfg)"
  using assms
proof (induction ms arbitrary: cfg "done")
  case (Cons x ms)
  obtain i m where x: "x = (i, m)" by (cases x)
  then obtain cfg1 where c: "apply_check cfg i m = Inr cfg1" "apply_checks cfg1 ms = Inr cfg'"
    using Cons.prems(1) by (auto simp: bind_result_Inr_iff)
  have ok: "logs_ok cfg1 (done @ [(i, m)])" "length (clogs cfg1) = length (clogs cfg)"
    using apply_check_ok [OF c(1) Cons.prems(2)] Cons.prems(3) x by auto
  then show ?case using Cons.IH [OF c(2) ok(1)] Cons.prems(3) x by simp
qed simp

lemma contiguous:
  fixes k l :: int
  assumes "\<And>k. lg k \<noteq> None \<Longrightarrow> 1 < k \<Longrightarrow> lg (k - 1) \<noteq> None" "lg k \<noteq> None" "1 \<le> l" "l \<le> k"
  shows "lg l \<noteq> None"
  using assms(4,2,3)
proof (induction rule: int_le_induct)
  case (step i)
  then show ?case using assms(1) [of i] by simp
qed simp

text \<open>
  C34: The appliers of the harness are a sound check. If they have taken any sequence of applied commands of
  the peers without an error, then two peers that applied a command at the same index applied the
  same command, and a peer that applied index \<open>k\<close> has also applied every index from 1 to \<open>k\<close>.
\<close>

theorem config_appliers_sound:
  assumes "apply_checks (blank_config n names) ms = Inr cfg" "\<forall>(i, m) \<in> set ms. i < n" "i < n" "j < n"
    "applied ms i k v" "applied ms j k w"
  shows "v = w \<and> (\<forall>l. 1 \<le> l \<and> l \<le> k \<longrightarrow> (clogs cfg ! i) l \<noteq> None)"
proof -
  have "logs_ok (blank_config n names :: 'a config) []" by (auto simp: logs_ok_def blank_config_def)
  from apply_checks_ok [OF assms(1) this] have ok: "logs_ok cfg ms" "length (clogs cfg) = n"
    using assms(2) by (auto simp: blank_config_def)
  then have at: "(clogs cfg ! i) k = Some v" "(clogs cfg ! j) k = Some w" using assms(3-6) logs_okD(1) [OF ok(1)] by simp_all
  then have "v = w" using logs_okD(3) [OF ok(1)] ok(2) assms(3,4) by blast
  moreover have "(clogs cfg ! i) l \<noteq> None" if "1 \<le> l" "l \<le> k" for l
    by (rule contiguous [OF _ _ that]) (use logs_okD(2) [OF ok(1), of i] ok(2) assms(3) at in auto)
  ultimately show ?thesis by blast
qed

definition applied_msg :: "int \<Rightarrow> nat \<Rightarrow> nat ApplyMsg" where
  "applied_msg k v = \<lparr>CommandValid = True, aCommand = v, CommandIndex = k\<rparr>"

definition sample_applied :: "(nat \<times> nat ApplyMsg) list" where
  "sample_applied = [(0, applied_msg 1 7), (1, applied_msg 1 7), (0, applied_msg 2 8), (1, applied_msg 2 8)]"

theorem config_appliers_sound_witness:
  "\<exists>cfg. apply_checks (blank_config 2 []) sample_applied = Inr cfg \<and> applied sample_applied 0 2 8 \<and> applied sample_applied 1 2 8 \<and>
     (clogs cfg ! 0) 1 \<noteq> None"
proof -
  have "is_ok (apply_checks (blank_config 2 []) sample_applied)"
    by (simp add: sample_applied_def apply_check_def applied_msg_def blank_config_def Let_def numeral_2_eq_2)
  then obtain cfg where c: "apply_checks (blank_config 2 []) sample_applied = Inr cfg" by (auto simp: is_ok_iff)
  have a: "applied sample_applied 0 2 8" "applied sample_applied 1 2 8"
    unfolding applied_def by (rule exI [of _ "applied_msg 2 8"], simp add: sample_applied_def applied_msg_def)+
  have "\<forall>(i, m) \<in> set sample_applied. i < 2" by (simp add: sample_applied_def)
  from config_appliers_sound [OF c this _ _ a] have "(clogs cfg ! 0) 1 \<noteq> None" by simp
  then show ?thesis using c a by (intro exI [of _ cfg] conjI)
qed

subsection \<open>The server of a peer\<close>

lemma split_method_Inr:
  assumes "split_method s = Inr (a, b)"
  shows "s = a @ ''.'' @ b"
  using assms last_index_split [of "CHR ''.''" s] by (auto simp: split_method_def Let_def split: if_splits)

text \<open>A peer's server dispatches the two calls of the protocol; every other call ends the process.\<close>

lemma server_dispatches:
  "is_ok (srv_dispatch handle (snd (start1_peer n i zero)) req) \<longleftrightarrow>
     svcMeth req \<in> {''Raft.RequestVote'', ''Raft.AppendEntries''}"
proof
  assume "is_ok (srv_dispatch handle (snd (start1_peer n i zero)) req)"
  then obtain a b where s: "split_method (svcMeth req) = Inr (a, b)" "a = ''Raft''" "b \<in> {''RequestVote'', ''AppendEntries''}"
    by (auto simp: is_ok_iff srv_dispatch_def Let_def bind_result_Inr_iff start1_peer_def AddService_def MakeServer_def MakeService_def
        svc_dispatch_def raft_methods_def is_handler_def split: option.splits if_splits)
  then show "svcMeth req \<in> {''Raft.RequestVote'', ''Raft.AppendEntries''}" using split_method_Inr [OF s(1)] by auto
next
  assume "svcMeth req \<in> {''Raft.RequestVote'', ''Raft.AppendEntries''}"
  then show "is_ok (srv_dispatch handle (snd (start1_peer n i zero)) req)"
    by (auto simp: srv_dispatch_def split_method_def Let_def start1_peer_def AddService_def MakeServer_def MakeService_def
        svc_dispatch_def raft_methods_def is_handler_def)
qed

subsection \<open>Links between peers\<close>

abbreviation on :: "Network \<Rightarrow> string \<Rightarrow> bool" where
  "on rn name \<equiv> map_get False (enabled rn) name"

definition hits :: "bool list \<Rightarrow> (nat \<times> string) list \<Rightarrow> string \<Rightarrow> bool" where
  "hits ok l x = list_ex (\<lambda>(j, y). y = x \<and> ok ! j) l"

lemma on_Enable [simp]: "on (Enable rn name b) x = (if x = name then b else on rn x)"
  by (simp add: Enable_def)

lemma set_ends_enabled: "on (set_ends ok b rn l) x = (if hits ok l x then b else on rn x)"
proof (induction l arbitrary: rn)
  case (Cons p l)
  obtain j y where "p = (j, y)" by (cases p)
  then show ?case using Cons.IH [of "if ok ! j then Enable rn y b else rn"] by (simp add: hits_def)
qed (simp add: hits_def)

lemma set_ends_frame [simp]:
  "connections (set_ends ok b rn l) = connections rn" "servers (set_ends ok b rn l) = servers rn"
  "reliable (set_ends ok b rn l) = reliable rn" "longReordering (set_ends ok b rn l) = longReordering rn"
  by (induction ok b rn l rule: set_ends.induct) (auto simp: Enable_def)

definition names_ok :: "'c config \<Rightarrow> bool" where
  "names_ok cfg \<longleftrightarrow> length (connected cfg) = cfg_n cfg \<and>
     (\<forall>i j k l. i < cfg_n cfg \<longrightarrow> j < cfg_n cfg \<longrightarrow> k < cfg_n cfg \<longrightarrow> l < cfg_n cfg \<longrightarrow>
        endnames cfg ! i ! j = endnames cfg ! k ! l \<longrightarrow> i = k \<and> j = l)"

definition links_ok :: "'c config \<Rightarrow> Network \<Rightarrow> bool" where
  "links_ok cfg rn \<longleftrightarrow> (\<forall>i < cfg_n cfg. \<forall>j < cfg_n cfg. on rn (endnames cfg ! i ! j) = (connected cfg ! i \<and> connected cfg ! j))"

definition wired :: "'c config \<Rightarrow> Network \<Rightarrow> bool" where
  "wired cfg rn \<longleftrightarrow> (\<forall>i < cfg_n cfg. \<forall>j < cfg_n cfg. connections rn (endnames cfg ! i ! j) = Some (Some j)) \<and>
     (\<forall>j < cfg_n cfg. servers rn j = Some (Some j))"

definition cfg_inv :: "'c config \<Rightarrow> Network \<Rightarrow> bool" where
  "cfg_inv cfg rn \<longleftrightarrow> names_ok cfg \<and> links_ok cfg rn \<and> wired cfg rn"

lemma names_okD: "names_ok cfg \<Longrightarrow> i < cfg_n cfg \<Longrightarrow> j < cfg_n cfg \<Longrightarrow> k < cfg_n cfg \<Longrightarrow> l < cfg_n cfg \<Longrightarrow>
    endnames cfg ! i ! j = endnames cfg ! k ! l \<longleftrightarrow> i = k \<and> j = l"
  by (auto simp only: names_ok_def)

lemma hits_outgoing:
  assumes "names_ok cfg" "i < cfg_n cfg" "a < cfg_n cfg" "c < cfg_n cfg"
  shows "hits ok (outgoing cfg i) (endnames cfg ! a ! c) \<longleftrightarrow> a = i \<and> ok ! c"
    "hits ok (incoming cfg i) (endnames cfg ! a ! c) \<longleftrightarrow> c = i \<and> ok ! a"
proof -
  have "hits ok (outgoing cfg i) (endnames cfg ! a ! c) \<longleftrightarrow> (\<exists>j < cfg_n cfg. (i = a \<and> j = c) \<and> ok ! j)"
    "hits ok (incoming cfg i) (endnames cfg ! a ! c) \<longleftrightarrow> (\<exists>j < cfg_n cfg. (j = a \<and> i = c) \<and> ok ! j)"
    using names_okD [OF assms(1)] assms(2-4)
    by (simp_all add: hits_def list_ex_iff outgoing_def incoming_def Bex_def cong: conj_cong)
  then show "hits ok (outgoing cfg i) (endnames cfg ! a ! c) \<longleftrightarrow> a = i \<and> ok ! c"
    "hits ok (incoming cfg i) (endnames cfg ! a ! c) \<longleftrightarrow> c = i \<and> ok ! a"
    using assms(3,4) by blast+
qed

lemma set_ends_both:
  assumes "names_ok cfg" "i < cfg_n cfg" "a < cfg_n cfg" "c < cfg_n cfg"
  shows "on (set_ends ok b (set_ends ok b rn (outgoing cfg i)) (incoming cfg i)) (endnames cfg ! a ! c) =
    (if a = i \<and> ok ! c \<or> c = i \<and> ok ! a then b else on rn (endnames cfg ! a ! c))"
  unfolding set_ends_enabled hits_outgoing [OF assms] by auto

lemma cfg_connect_inv:
  assumes "cfg_inv cfg rn" "i < cfg_n cfg" "cfg_connect cfg rn i = (cfg', rn')"
  shows "cfg_inv cfg' rn'" "connected cfg' = (connected cfg)[i := True]" "cfg_n cfg' = cfg_n cfg" "endnames cfg' = endnames cfg"
    "reliable rn' = reliable rn" "longReordering rn' = longReordering rn"
proof -
  have c: "cfg' = cfg\<lparr>connected := (connected cfg)[i := True]\<rparr>" using assms(3) by (auto simp: cfg_connect_def Let_def)
  show "connected cfg' = (connected cfg)[i := True]" "cfg_n cfg' = cfg_n cfg" "endnames cfg' = endnames cfg" by (simp_all add: c)
  show "reliable rn' = reliable rn" "longReordering rn' = longReordering rn" using assms(3) by (auto simp: cfg_connect_def Let_def)
  have n: "names_ok cfg'" using assms(1) by (simp add: cfg_inv_def names_ok_def c)
  have "on rn' (endnames cfg' ! a ! b) = (connected cfg' ! a \<and> connected cfg' ! b)" if "a < cfg_n cfg" "b < cfg_n cfg" for a b
    using assms that set_ends_both [OF n, of i a b "connected cfg'" True rn]
    by (auto simp: cfg_connect_def Let_def c cfg_inv_def links_ok_def names_ok_def nth_list_update)
  moreover have "wired cfg' rn'" using assms by (auto simp: cfg_inv_def wired_def cfg_connect_def Let_def)
  ultimately show "cfg_inv cfg' rn'" using n by (simp add: cfg_inv_def links_ok_def c)
qed

lemma cfg_disconnect_inv:
  assumes "cfg_inv cfg rn" "i < cfg_n cfg" "cfg_disconnect cfg rn i = (cfg', rn')"
  shows "cfg_inv cfg' rn'" "connected cfg' = (connected cfg)[i := False]" "cfg_n cfg' = cfg_n cfg" "endnames cfg' = endnames cfg"
proof -
  have c: "cfg' = cfg\<lparr>connected := (connected cfg)[i := False]\<rparr>" using assms(3) by (auto simp: cfg_disconnect_def Let_def)
  show "connected cfg' = (connected cfg)[i := False]" "cfg_n cfg' = cfg_n cfg" "endnames cfg' = endnames cfg" by (simp_all add: c)
  have n: "names_ok cfg'" using assms(1) by (simp add: cfg_inv_def names_ok_def c)
  have "on rn' (endnames cfg' ! a ! b) = (connected cfg' ! a \<and> connected cfg' ! b)" if "a < cfg_n cfg" "b < cfg_n cfg" for a b
    using assms that set_ends_both [OF n, of i a b "replicate (cfg_n cfg) True" False rn]
    by (auto simp: cfg_disconnect_def Let_def c cfg_inv_def links_ok_def names_ok_def nth_list_update)
  moreover have "wired cfg' rn'" using assms by (auto simp: cfg_inv_def wired_def cfg_disconnect_def Let_def)
  ultimately show "cfg_inv cfg' rn'" using n by (simp add: cfg_inv_def links_ok_def c)
qed

text \<open>Starting the peers: ends of the same name would end the program, so a start that succeeds had distinct names.\<close>

lemma start_ends_Inr:
  assumes "start_ends rn l = Inr rn'"
  shows "distinct (map fst l) \<and> fst ` set l \<inter> ends rn = {} \<and> ends rn' = ends rn \<union> fst ` set l \<and> servers rn' = servers rn \<and>
    (\<forall>x. enabled rn' x = (if x \<in> fst ` set l then Some False else enabled rn x)) \<and>
    (\<forall>x. connections rn' x = (case map_of l x of None \<Rightarrow> connections rn x | Some j \<Rightarrow> Some (Some j)))"
  using assms
proof (induction rn l rule: start_ends.induct)
  case (2 rn name j rest)
  let ?rn1 = "Connect (rn\<lparr>ends := insert name (ends rn), enabled := (enabled rn)(name \<mapsto> False), connections := (connections rn)(name \<mapsto> None)\<rparr>) name j"
  have new: "name \<notin> ends rn" "start_ends ?rn1 rest = Inr rn'" using 2(2) by (auto simp: MakeEnd_def split: if_splits)
  have ih: "distinct (map fst rest) \<and> fst ` set rest \<inter> ends ?rn1 = {} \<and> ends rn' = ends ?rn1 \<union> fst ` set rest \<and> servers rn' = servers ?rn1 \<and>
    (\<forall>x. enabled rn' x = (if x \<in> fst ` set rest then Some False else enabled ?rn1 x)) \<and>
    (\<forall>x. connections rn' x = (case map_of rest x of None \<Rightarrow> connections ?rn1 x | Some j \<Rightarrow> Some (Some j)))"
    by (rule "2.IH" [OF new(2)])
  have fresh: "map_of rest name = None" using ih by (simp add: map_of_eq_None_iff Connect_def)
  show ?case using ih new(1) fresh by (auto simp: Connect_def split: option.splits)
qed (simp add: fun_eq_iff)

lemma start_all_Inr:
  assumes "start_all cfg rn is = Inr rn'" "distinct is" "\<forall>i \<in> set is. length (endnames cfg ! i) = cfg_n cfg"
  shows "(\<forall>i \<in> set is. distinct (endnames cfg ! i) \<and> set (endnames cfg ! i) \<inter> ends rn = {}) \<and>
    (\<forall>i \<in> set is. \<forall>k \<in> set is. i \<noteq> k \<longrightarrow> set (endnames cfg ! i) \<inter> set (endnames cfg ! k) = {}) \<and>
    ends rn' = ends rn \<union> (\<Union>i \<in> set is. set (endnames cfg ! i)) \<and>
    (\<forall>x. enabled rn' x = (if x \<in> (\<Union>i \<in> set is. set (endnames cfg ! i)) then Some False else enabled rn x)) \<and>
    (\<forall>i \<in> set is. \<forall>j < cfg_n cfg. connections rn' (endnames cfg ! i ! j) = Some (Some j)) \<and>
    (\<forall>x \<in> ends rn. connections rn' x = connections rn x) \<and>
    (\<forall>i. servers rn' i = (if i \<in> set is then Some (Some i) else servers rn i))"
  using assms
proof (induction "is" arbitrary: rn)
  case (Cons i "is")
  let ?row = "endnames cfg ! i"
  let ?l = "zip ?row [0..<cfg_n cfg]"
  have len: "length ?row = cfg_n cfg" using Cons.prems(3) by simp
  obtain rn1 where r1: "start_ends rn ?l = Inr rn1" "start_all cfg (AddServer rn1 i i) is = Inr rn'"
    using Cons.prems(1) by (auto simp: start1_net_def bind_result_Inr_iff)
  have l: "map fst ?l = ?row" "fst ` set ?l = set ?row" using len by (simp_all flip: set_map)
  note se = start_ends_Inr [OF r1(1), unfolded l]
  have conn: "connections rn1 (?row ! j) = Some (Some j)" if j: "j < cfg_n cfg" for j
  proof -
    have "(?row ! j, j) \<in> set ?l" using j len by (auto simp: set_zip)
    then have "map_of ?l (?row ! j) = Some j" using se l(1) by (simp add: map_of_eq_Some_iff)
    then show ?thesis using se by simp
  qed
  have old: "connections rn1 x = connections rn x" if "x \<in> ends rn" for x
  proof -
    have "map_of ?l x = None" using se that l(2) by (auto simp: map_of_eq_None_iff)
    then show ?thesis using se by simp
  qed
  have ih: "(\<forall>i \<in> set is. distinct (endnames cfg ! i) \<and> set (endnames cfg ! i) \<inter> ends rn1 = {}) \<and>
    (\<forall>i \<in> set is. \<forall>k \<in> set is. i \<noteq> k \<longrightarrow> set (endnames cfg ! i) \<inter> set (endnames cfg ! k) = {}) \<and>
    ends rn' = ends rn1 \<union> (\<Union>i \<in> set is. set (endnames cfg ! i)) \<and>
    (\<forall>x. enabled rn' x = (if x \<in> (\<Union>i \<in> set is. set (endnames cfg ! i)) then Some False else enabled rn1 x)) \<and>
    (\<forall>i \<in> set is. \<forall>j < cfg_n cfg. connections rn' (endnames cfg ! i ! j) = Some (Some j)) \<and>
    (\<forall>x \<in> ends rn1. connections rn' x = connections rn1 x) \<and>
    (\<forall>k. servers rn' k = (if k \<in> set is then Some (Some k) else ((servers rn1)(i \<mapsto> Some i)) k))"
    using Cons.IH [OF r1(2)] Cons.prems(2,3) by (simp add: AddServer_def)
  have ends1: "ends rn1 = ends rn \<union> set ?row" using se by simp
  have "?row ! j \<in> ends rn1" if "j < cfg_n cfg" for j using that len ends1 by auto
  then have "connections rn' (?row ! j) = Some (Some j)" if "j < cfg_n cfg" for j using that conn ih by simp
  moreover have "connections rn' x = connections rn x" if "x \<in> ends rn" for x using that old ih ends1 by simp
  ultimately show ?case using ih se ends1 Cons.prems(2) by (auto 4 3)
qed simp

datatype link_op = Attach nat | Detach nat

fun link_ops :: "'c config \<times> Network \<Rightarrow> link_op list \<Rightarrow> 'c config \<times> Network" where
  "link_ops (cfg, rn) [] = (cfg, rn)"
| "link_ops (cfg, rn) (Attach i # ops) = link_ops (cfg_connect cfg rn i) ops"
| "link_ops (cfg, rn) (Detach i # ops) = link_ops (cfg_disconnect cfg rn i) ops"

fun op_peer :: "link_op \<Rightarrow> nat" where
  "op_peer (Attach i) = i"
| "op_peer (Detach i) = i"

lemma link_ops_inv:
  assumes "cfg_inv cfg rn" "\<forall>x \<in> set ops. op_peer x < cfg_n cfg" "link_ops (cfg, rn) ops = (cfg', rn')"
  shows "cfg_inv cfg' rn' \<and> cfg_n cfg' = cfg_n cfg \<and> endnames cfg' = endnames cfg"
  using assms
proof (induction ops arbitrary: cfg rn)
  case (Cons x ops)
  show ?case
  proof (cases x)
    case (Attach i)
    obtain cfg1 rn1 where c: "cfg_connect cfg rn i = (cfg1, rn1)" by fastforce
    have i: "i < cfg_n cfg" using Cons.prems(2) Attach by simp
    note k = cfg_connect_inv [OF Cons.prems(1) i c]
    show ?thesis using Cons.IH [OF k(1)] Cons.prems(2,3) c k(3,4) Attach by simp
  next
    case (Detach i)
    obtain cfg1 rn1 where c: "cfg_disconnect cfg rn i = (cfg1, rn1)" by fastforce
    have i: "i < cfg_n cfg" using Cons.prems(2) Detach by simp
    note k = cfg_disconnect_inv [OF Cons.prems(1) i c]
    show ?thesis using Cons.IH [OF k(1)] Cons.prems(2,3) c k(3,4) Detach by simp
  qed
qed simp

lemma start_all_inv:
  assumes "start_all (blank_config n names) rn [0..<n] = Inr rn'" "length names = n" "\<forall>row \<in> set names. length row = n"
  shows "cfg_inv (blank_config n names) rn'"
proof -
  let ?cfg = "blank_config n names"
  have len: "length (names ! i) = n" if "i < n" for i using that assms(2,3) nth_mem by metis
  have "\<forall>i \<in> set [0..<n]. length (endnames ?cfg ! i) = cfg_n ?cfg" by (simp add: blank_config_def len)
  from start_all_Inr [OF assms(1) _ this] have st:
    "\<And>i. i < n \<Longrightarrow> distinct (names ! i)" "\<And>i k. i < n \<Longrightarrow> k < n \<Longrightarrow> i \<noteq> k \<Longrightarrow> set (names ! i) \<inter> set (names ! k) = {}"
    "\<And>i x. i < n \<Longrightarrow> x \<in> set (names ! i) \<Longrightarrow> enabled rn' x = Some False"
    "\<And>i j. i < n \<Longrightarrow> j < n \<Longrightarrow> connections rn' (names ! i ! j) = Some (Some j)" "\<And>i. i < n \<Longrightarrow> servers rn' i = Some (Some i)"
    by (auto simp: blank_config_def)
  have mem: "names ! i ! j \<in> set (names ! i)" if "i < n" "j < n" for i j using that len by simp
  have "names_ok ?cfg"
    unfolding names_ok_def
  proof (intro conjI allI impI)
    fix i j k l assume b: "i < cfg_n ?cfg" "j < cfg_n ?cfg" "k < cfg_n ?cfg" "l < cfg_n ?cfg" "endnames ?cfg ! i ! j = endnames ?cfg ! k ! l"
    then have b': "i < n" "j < n" "k < n" "l < n" "names ! i ! j = names ! k ! l" by (simp_all add: blank_config_def)
    then show "i = k" using st(2) [OF b'(1,3)] mem [OF b'(1,2)] mem [OF b'(3,4)] by auto
    then show "j = l" using b' st(1) [OF b'(1)] len [OF b'(1)] by (simp add: nth_eq_iff_index_eq)
  qed (simp add: blank_config_def)
  moreover have "links_ok ?cfg rn'" using st(3) [OF _ mem] by (simp add: links_ok_def blank_config_def map_get_def)
  moreover have "wired ?cfg rn'" using st(4,5) by (simp add: wired_def blank_config_def)
  ultimately show ?thesis by (simp add: cfg_inv_def)
qed

lemma foldl_connect_ops: "foldl (\<lambda>(c, r) i. cfg_connect c r i) (cfg, rn) is = link_ops (cfg, rn) (map Attach is)"
proof (induction "is" arbitrary: cfg rn)
  case (Cons i "is")
  then show ?case by (cases "cfg_connect cfg rn i") simp
qed simp

lemma make_config_inv:
  fixes cfg :: "'c config"
  assumes "make_config n names unreliable = Inr (cfg, rn)" "length names = n" "\<forall>row \<in> set names. length row = n"
  shows "cfg_inv cfg rn \<and> cfg_n cfg = n \<and> endnames cfg = names"
proof -
  let ?cfg = "blank_config n names :: 'c config"
  obtain rn0 where r: "start_all ?cfg (LongDelays (setunreliable MakeNetwork unreliable) True) [0..<n] = Inr rn0"
    "foldl (\<lambda>(c, r) i. cfg_connect c r i) (?cfg, rn0) [0..<n] = (cfg, rn)"
    using assms(1) by (auto simp: make_config_def Let_def bind_result_Inr_iff)
  show ?thesis
    using link_ops_inv [OF start_all_inv [OF r(1) assms(2,3)] _ r(2) [unfolded foldl_connect_ops]]
    by (auto simp: blank_config_def)
qed

text \<open>
  C33: Links follow the flags. From \<^verbatim>\<open>make_config\<close> on, after any sequence of \<^verbatim>\<open>connect\<close> and
  \<^verbatim>\<open>disconnect\<close>, the look-up for a call from peer \<open>i\<close> to peer \<open>j\<close> finds the server of \<open>j\<close> when both peers are
  connected, and fails otherwise.
\<close>

theorem config_calls_follow_links:
  assumes "make_config n names unreliable = Inr (cfg0, rn0)" "length names = n" "\<forall>row \<in> set names. length row = n"
    "link_ops (cfg0, rn0) ops = (cfg, rn)" "\<forall>x \<in> set ops. op_peer x < n" "i < n" "j < n" "endname req = names ! i ! j"
  shows "processReq_look rn req =
    (if connected cfg ! i \<and> connected cfg ! j then Ready req j j (reliable rn) (longReordering rn) else Failing)"
proof -
  have m: "cfg_inv cfg0 rn0" "cfg_n cfg0 = n" "endnames cfg0 = names" using make_config_inv [OF assms(1-3)] by simp_all
  have "cfg_inv cfg rn" "cfg_n cfg = n" "endnames cfg = names"
    using link_ops_inv [OF m(1) _ assms(4)] assms(5) m(2,3) by simp_all
  then show ?thesis
    using assms(6,7,8) by (auto simp: processReq_look_def readEndnameInfo_def Let_def cfg_inv_def links_ok_def wired_def split: bool.splits)
qed

theorem config_calls_follow_links_witness:
  "\<exists>cfg0 rn0 cfg rn. make_config 2 [[''a'', ''b''], [''c'', ''d'']] False = Inr (cfg0 :: nat config, rn0) \<and>
     link_ops (cfg0, rn0) [Detach 1] = (cfg, rn) \<and>
     processReq_look rn \<lparr>endname = ''b'', svcMeth = ''Raft.RequestVote'', args = []\<rparr> = Failing"
proof -
  let ?names = "[[''a'', ''b''], [''c'', ''d'']]" and ?req = "\<lparr>endname = ''b'', svcMeth = ''Raft.RequestVote'', args = []\<rparr>"
  have "is_ok (make_config 2 ?names False :: (nat config \<times> Network) result)"
    by (simp add: make_config_def blank_config_def start1_net_def MakeEnd_def LongDelays_def setunreliable_def Reliable_def MakeNetwork_def Connect_def
        AddServer_def Let_def numeral_2_eq_2)
  then obtain cfg0 :: "nat config" and rn0 where m: "make_config 2 ?names False = Inr (cfg0, rn0)" by (auto simp: is_ok_iff)
  obtain cfg rn where l: "link_ops (cfg0, rn0) [Detach 1] = (cfg, rn)" by fastforce
  have dims: "length ?names = 2" "\<forall>row \<in> set ?names. length row = 2" by simp_all
  have "connected cfg = (connected cfg0)[1 := False]" "length (connected cfg0) = 2"
    using l make_config_inv [OF m dims] by (auto simp: cfg_disconnect_def Let_def cfg_inv_def names_ok_def)
  then have "\<not> connected cfg ! 1" by simp
  moreover have "processReq_look rn ?req = (if connected cfg ! 0 \<and> connected cfg ! 1 then Ready ?req 1 1 (reliable rn) (longReordering rn) else Failing)"
    by (rule config_calls_follow_links [OF m dims l]) simp_all
  ultimately show ?thesis using m l by auto
qed

subsection \<open>The question for the leader\<close>

definition leads :: "'c config \<Rightarrow> (int \<times> bool) list \<Rightarrow> int \<Rightarrow> nat \<Rightarrow> bool" where
  "leads cfg states t i \<longleftrightarrow> i < cfg_n cfg \<and> connected cfg ! i \<and> states ! i = (t, True)"

lemma collect_leaders_get:
  "map_get [] (collect_leaders conn states is L) t = map_get [] L t @ filter (\<lambda>i. conn ! i \<and> states ! i = (t, True)) is"
  by (induction "is" arbitrary: L) (auto simp: prod_eq_iff)

lemma collect_leaders_empty:
  "collect_leaders conn states is L = Map.empty \<longleftrightarrow> L = Map.empty \<and> (\<forall>i \<in> set is. \<not> (conn ! i \<and> snd (states ! i)))"
  by (induction "is" arbitrary: L) auto

lemma last_term_eq:
  "last_term L order l = (if \<forall>t \<in> set order. length (map_get [] L t) \<le> 1 then Inr (foldl max l order) else Inl (LogFatal ''term has more than one leader''))"
proof (induction order arbitrary: l)
  case (Cons t order)
  have "(if t > l then t else l) = max l t" by simp
  then show ?case using Cons.IH [of "max l t"] by simp
qed simp

lemma foldl_max: "foldl max (l :: int) xs \<in> insert l (set xs)" "l \<le> foldl max l xs" "x \<in> set xs \<Longrightarrow> x \<le> foldl max l xs"
proof (induction xs arbitrary: l)
  case (Cons y xs)
  { case 1 then show ?case using Cons.IH(1) [of "max l y"] by (auto simp: max_def split: if_splits) }
  { case 2 then show ?case using Cons.IH(2) [of "max l y"] by simp }
  { case 3 then show ?case using Cons.IH(2,3) [of "max l y"] by auto }
qed auto

lemma two_members: "distinct xs \<Longrightarrow> 1 < length xs \<Longrightarrow> \<exists>i j. i \<noteq> j \<and> i \<in> set xs \<and> j \<in> set xs"
  by (cases xs; cases "tl xs") auto

lemma leader_round_cases:
  assumes "set order = {t. \<exists>i. leads cfg states t i}" "\<And>t i. leads cfg states t i \<Longrightarrow> 0 \<le> t"
  shows "case leader_round cfg states order of
      Inl e \<Rightarrow> \<exists>t i j. i \<noteq> j \<and> leads cfg states t i \<and> leads cfg states t j
    | Inr None \<Rightarrow> \<forall>t i. \<not> leads cfg states t i
    | Inr (Some l) \<Rightarrow> \<exists>t. leads cfg states t l \<and> (\<forall>u j. leads cfg states u j \<longrightarrow> j = l \<or> u < t)"
proof -
  let ?is = "[0..<cfg_n cfg]"
  let ?L = "collect_leaders (connected cfg) states ?is Map.empty"
  let ?F = "\<lambda>t. filter (\<lambda>i. connected cfg ! i \<and> states ! i = (t, True)) ?is"
  have get: "map_get [] ?L t = ?F t" for t by (simp add: collect_leaders_get)
  have mem: "i \<in> set (?F t) \<longleftrightarrow> leads cfg states t i" for i t by (auto simp: leads_def)
  show ?thesis
  proof (cases "\<forall>t \<in> set order. length (?F t) \<le> 1")
    case False
    then obtain t where t: "1 < length (?F t)" using not_le by blast
    have "distinct (?F t)" by simp
    from two_members [OF this t] have "\<exists>t i j. i \<noteq> j \<and> leads cfg states t i \<and> leads cfg states t j" unfolding mem by blast
    moreover have "last_term ?L order (- 1) = Inl (LogFatal ''term has more than one leader'')"
      using False unfolding last_term_eq get by (simp only: if_False)
    ultimately show ?thesis by (simp add: leader_round_def Let_def)
  next
    case one: True
    define m where "m = foldl max (- 1) order"
    show ?thesis
    proof (cases "?L = Map.empty")
      case True
      then have "\<forall>t i. \<not> leads cfg states t i" by (auto simp: collect_leaders_empty leads_def)
      then show ?thesis using one True by (simp add: leader_round_def last_term_eq get Let_def)
    next
      case False
      then obtain i where i: "i < cfg_n cfg" "connected cfg ! i" "snd (states ! i)" by (auto simp: collect_leaders_empty)
      then have ti: "leads cfg states (fst (states ! i)) i" by (simp add: leads_def prod_eq_iff)
      have le: "u \<le> m" if "leads cfg states u j" for u j using foldl_max(3) [of u order "- 1"] assms(1) that by (auto simp: m_def)
      have "m \<in> set order" using foldl_max(1) [of "- 1" order] le [OF ti] assms(2) [OF ti] by (auto simp: m_def)
      then obtain i where "i \<in> set (?F m)" "length (?F m) \<le> 1" using one assms(1) unfolding mem by blast
      then obtain l where l: "?F m = [l]" by (cases "?F m"; cases "tl (?F m)") auto
      then have lead: "leads cfg states m l" using mem [of l m] by simp
      have "j = l \<or> u < m" if "leads cfg states u j" for u j using le [OF that] mem [of j m] l that by auto
      moreover have "leader_round cfg states order = Inr (Some l)"
        using one False l by (simp add: leader_round_def last_term_eq get Let_def m_def [symmetric] slice_get_def)
      ultimately show ?thesis using lead by auto
    qed
  qed
qed

definition seen :: "'c config \<Rightarrow> (int \<times> bool) list \<times> int list \<Rightarrow> bool" where
  "seen cfg x \<longleftrightarrow> set (snd x) = {t. \<exists>i. leads cfg (fst x) t i} \<and> (\<forall>t i. leads cfg (fst x) t i \<longrightarrow> 0 \<le> t)"

lemma leader_rounds_cases:
  assumes "\<forall>x \<in> set rs. seen cfg x"
  shows "case leader_rounds cfg rs of
      Inl e \<Rightarrow> (\<exists>x \<in> set rs. \<exists>t i j. i \<noteq> j \<and> leads cfg (fst x) t i \<and> leads cfg (fst x) t j) \<or>
        (\<forall>x \<in> set rs. \<forall>t i. \<not> leads cfg (fst x) t i)
    | Inr l \<Rightarrow> \<exists>x \<in> set rs. \<exists>t. leads cfg (fst x) t l \<and> (\<forall>u j. leads cfg (fst x) u j \<longrightarrow> j = l \<or> u < t)"
  using assms
proof (induction rs)
  case (Cons x rs)
  obtain states order where x: "x = (states, order)" by (cases x)
  have "set order = {t. \<exists>i. leads cfg states t i}" "\<And>t i. leads cfg states t i \<Longrightarrow> 0 \<le> t" 
    using Cons.prems x unfolding seen_def by (simp, fastforce)
  note round = leader_round_cases [OF this]
  show ?case
  proof (cases "leader_round cfg states order")
    case (Inl e)
    then show ?thesis using round x by simp
  next
    case (Inr r)
    show ?thesis
    proof (cases r)
      case None
      then show ?thesis using Inr round x Cons.IH Cons.prems by (simp split: sum.splits)
    next
      case (Some l)
      then show ?thesis using Inr round x by simp
    qed
  qed
qed simp

text \<open>
  \<^verbatim>\<open>checkOneLeader\<close>, in whatever order the terms are visited: it returns a peer that in one of the ten rounds was a connected leader
  whose term was larger than that of every other connected leader. It fails only if in some round two
  connected peers claimed to lead the same term, or if in no round a connected peer was leader.
\<close>

theorem config_checks_one_leader:
  assumes "\<And>k. k < 10 \<Longrightarrow> set (snd (obs k)) = {t. \<exists>i. leads cfg (fst (obs k)) t i}"
    "\<And>k t i. k < 10 \<Longrightarrow> leads cfg (fst (obs k)) t i \<Longrightarrow> 0 \<le> t"
  shows "case checkOneLeader cfg obs of
      Inl e \<Rightarrow> (\<exists>k < 10. \<exists>t i j. i \<noteq> j \<and> leads cfg (fst (obs k)) t i \<and> leads cfg (fst (obs k)) t j) \<or>
        (\<forall>k < 10. \<forall>t i. \<not> leads cfg (fst (obs k)) t i)
    | Inr l \<Rightarrow> \<exists>k < 10. \<exists>t. leads cfg (fst (obs k)) t l \<and> (\<forall>u j. leads cfg (fst (obs k)) u j \<longrightarrow> j = l \<or> u < t)"
proof -
  have "\<forall>x \<in> set (map obs [0..<10]). seen cfg x" using assms by (auto simp: seen_def)
  moreover have "set (map obs [0..<10]) = obs ` {k. k < 10}" by (auto simp: image_iff)
  ultimately show ?thesis
    using leader_rounds_cases [of "map obs [0..<10]" cfg] unfolding checkOneLeader_def
    by (cases "leader_rounds cfg (map obs [0..<10])") auto
qed

definition leader_config :: "nat config" where
  "leader_config = (blank_config 3 [])\<lparr>connected := [True, True, False]\<rparr>"

definition leader_obs :: "nat \<Rightarrow> (int \<times> bool) list \<times> int list" where
  "leader_obs k = (if k = 0 then ([(1, False), (1, False), (2, True)], []) else ([(1, True), (2, True), (2, True)], [2, 1]))"

theorem config_checks_one_leader_witness:
  "\<exists>l. checkOneLeader leader_config leader_obs = Inr l \<and> l = 1"
proof -
  let ?cfg = leader_config
  have leads: "leads ?cfg (fst (leader_obs k)) t i \<longleftrightarrow> 0 < k \<and> (i = 0 \<and> t = 1 \<or> i = 1 \<and> t = 2)" for k t i
    by (cases "k = 0") (auto simp: leads_def leader_config_def blank_config_def leader_obs_def numeral_3_eq_3 less_Suc_eq nth_Cons' split: if_splits)
  have snd_obs: "snd (leader_obs k) = (if k = 0 then [] else [2, 1])" for k by (simp add: leader_obs_def)
  have "case checkOneLeader ?cfg leader_obs of
      Inl e \<Rightarrow> (\<exists>k < 10. \<exists>t i j. i \<noteq> j \<and> leads ?cfg (fst (leader_obs k)) t i \<and> leads ?cfg (fst (leader_obs k)) t j) \<or>
        (\<forall>k < 10. \<forall>t i. \<not> leads ?cfg (fst (leader_obs k)) t i)
    | Inr l \<Rightarrow> \<exists>k < 10. \<exists>t. leads ?cfg (fst (leader_obs k)) t l \<and>
        (\<forall>u j. leads ?cfg (fst (leader_obs k)) u j \<longrightarrow> j = l \<or> u < t)"
    by (rule config_checks_one_leader) (auto simp: leads snd_obs)
  moreover have "\<exists>k < 10. 0 < (k :: nat)" by (rule exI [of _ 1]) simp
  ultimately show ?thesis by (auto simp: leads split: sum.splits)
qed

subsection \<open>Agreement on one command\<close>

lemma nCommitted_loop_Inr:
  assumes "nCommitted_loop lgs index c cmd = Inr (nd, cmd')"
  shows "nd = c + length (filter (\<lambda>lg. lg index \<noteq> None) lgs) \<and> (c = 0 \<or> cmd' = cmd) \<and>
    (\<forall>lg \<in> set lgs. lg index = None \<or> lg index = cmd')"
  using assms
proof (induction lgs arbitrary: c cmd)
  case (Cons lg lgs)
  show ?case
  proof (cases "lg index")
    case None
    then show ?thesis using Cons.IH [of c cmd] Cons.prems by simp
  next
    case (Some v)
    then have "nCommitted_loop lgs index (c + 1) (Some v) = Inr (nd, cmd')" "c = 0 \<or> cmd = Some v"
      using Cons.prems by (auto split: if_splits)
    then show ?thesis using Cons.IH [of "c + 1" "Some v"] Some by auto
  qed
qed simp

text \<open>How many logs hold a command at an index, and that no log holds another one there.\<close>

definition holders :: "'c config \<Rightarrow> int \<Rightarrow> 'c \<Rightarrow> nat" where
  "holders cfg index v = length (filter (\<lambda>lg. lg index = Some v) (clogs cfg))"

definition unopposed :: "'c config \<Rightarrow> int \<Rightarrow> 'c \<Rightarrow> bool" where
  "unopposed cfg index v \<longleftrightarrow> (\<forall>lg \<in> set (clogs cfg). lg index \<in> {None, Some v})"

lemma nCommitted_Inr:
  assumes "nCommitted cfg index = Inr (nd, Some v)"
  shows "unopposed cfg index v \<and> nd = holders cfg index v"
proof -
  note n = nCommitted_loop_Inr [OF assms [unfolded nCommitted_def]]
  then have "filter (\<lambda>lg. lg index \<noteq> None) (clogs cfg) = filter (\<lambda>lg. lg index = Some v) (clogs cfg)"
    by (intro filter_cong) auto
  then show ?thesis using n by (simp add: holders_def unopposed_def)
qed

lemma one_poll_True:
  assumes "one_poll cfgs index expected cmd = Inr True"
  shows "\<exists>cfg \<in> set cfgs. unopposed cfg index cmd \<and> max 1 expected \<le> holders cfg index cmd"
  using assms
proof (induction cfgs)
  case (Cons cfg cfgs)
  then show ?case by (auto simp: bind_result_Inr_iff split: if_splits dest!: nCommitted_Inr)
qed simp

lemma one_scan_found:
  assumes "one_scan cfg start k starts = (starts', index)" "index \<noteq> - 1" "0 < cfg_n cfg"
  shows "starts' < cfg_n cfg \<and> connected cfg ! starts' \<and> start starts' = (index, True)"
  using assms by (induction k arbitrary: starts) (auto simp: Let_def prod_eq_iff split: if_splits)

text \<open>
  C37: When \<^verbatim>\<open>one\<close> returns an index, then in one of its attempts a connected peer said that it was leader
  and had put the command at this index, and at one look of that attempt at least \<^verbatim>\<open>expectedServers\<close> peers, and
  at least one, had applied the command at this index, and no peer had applied another one there.
\<close>

theorem config_one_agreed:
  assumes "cfg_one rounds cmd expected retry = Inr index" "\<forall>(cfg, start, polls) \<in> set rounds. 0 < cfg_n cfg"
  shows "\<exists>(cfg, start, polls) \<in> set rounds.
    (\<exists>i < cfg_n cfg. connected cfg ! i \<and> start i = (index, True)) \<and>
    (\<exists>look \<in> set polls. unopposed look index cmd \<and> max 1 expected \<le> holders look index cmd)"
proof -
  have "\<exists>(cfg, start, polls) \<in> set rounds.
    (\<exists>i < cfg_n cfg. connected cfg ! i \<and> start i = (index, True)) \<and>
    (\<exists>look \<in> set polls. unopposed look index cmd \<and> max 1 expected \<le> holders look index cmd)"
    if "one_loop rounds cmd expected retry starts = Inr index" "\<forall>(cfg, start, polls) \<in> set rounds. 0 < cfg_n cfg" for starts
    using that
  proof (induction rounds arbitrary: starts)
    case (Cons x rounds)
    obtain cfg start polls where x: "x = (cfg, start, polls)" by (cases x)
    obtain starts1 k where scan: "one_scan cfg start (cfg_n cfg) starts = (starts1, k)" by fastforce
    show ?case
    proof (cases "k \<noteq> - 1 \<and> one_poll polls k expected cmd = Inr True")
      case True
      then have "k = index" using Cons.prems(1) x scan by simp
      moreover have "0 < cfg_n cfg" using Cons.prems(2) x by simp
      ultimately show ?thesis using True one_scan_found [OF scan] one_poll_True [of polls k expected cmd] x by auto
    next
      case False
      then have "one_loop rounds cmd expected retry starts1 = Inr index"
        using Cons.prems(1) x scan by (auto simp: bind_result_Inr_iff split: if_splits)
      then show ?thesis using Cons.IH Cons.prems(2) by auto
    qed
  qed simp
  then show ?thesis using assms unfolding cfg_one_def by blast
qed

definition agreed_config :: "nat config" where
  "agreed_config = (blank_config 2 [])\<lparr>connected := [True, True], clogs := [[1 \<mapsto> 7], [1 \<mapsto> 7]]\<rparr>"

theorem config_one_agreed_witness:
  "cfg_one [(agreed_config, \<lambda>i. (1, i = 1), [blank_config 2 [], agreed_config])] 7 2 False = Inr 1 \<and>
   2 \<le> holders agreed_config 1 7"
proof -
  let ?rounds = "[(agreed_config, \<lambda>i :: nat. (1 :: int, i = 1), [blank_config 2 [], agreed_config])]"
  have one: "cfg_one ?rounds 7 2 False = Inr 1"
    by (simp add: cfg_one_def agreed_config_def blank_config_def nCommitted_def Let_def numeral_2_eq_2)
  have "\<forall>(cfg, start, polls) \<in> set ?rounds. 0 < cfg_n cfg" by (simp add: agreed_config_def blank_config_def)
  from config_one_agreed [OF one this] have "\<exists>look \<in> {blank_config 2 [], agreed_config}. 2 \<le> holders look 1 7" by auto
  moreover have "holders (blank_config 2 [] :: nat config) 1 7 = 0" by (simp add: holders_def blank_config_def)
  ultimately show ?thesis using one by auto
qed

end
