(* ===== verification/Labgob.thy ===== *)
theory Labgob
  imports Prelude
begin

section \<open>Labgob: the checks around the encoder\<close>

text \<open>
  \<^verbatim>\<open>raft-demo/src/labgob/labgob.go\<close>: the warnings that the wrapper of \<^verbatim>\<open>encoding/gob\<close> prints. Types are
  positions in a table of type descriptions, as \<^verbatim>\<open>reflect.Type\<close> values are pointers to such descriptions, so
  that types may be recursive. \<^verbatim>\<open>checkType\<close> walks over the types it reaches; the model keeps
  the calls that are still to be made as a list, which is the stack of the recursion. Field names are
  ASCII, and no field is embedded. The encoder and the decoder themselves are arguments; the mutex around the counter
  makes each access atomic.
\<close>

subsection \<open>Types and names\<close>

datatype kind =
    Struct string "(string \<times> nat) list"     \<comment> \<open>name, fields with their types\<close>
  | Slice nat | Array nat | Ptr nat
  | MapOf nat nat                             \<comment> \<open>key, element\<close>
  | Basic string
  | OtherKind

type_synonym types = "kind list"

definition kind_of :: "types \<Rightarrow> nat \<Rightarrow> kind" where
  "kind_of ts t = (if t < length ts then ts ! t else OtherKind)"

text \<open>\<^verbatim>\<open>unicode.IsUpper\<close> of the first rune; the empty name decodes to the error rune.\<close>

definition upper_first :: "string \<Rightarrow> bool" where
  "upper_first name = (case name of [] \<Rightarrow> False | c # _ \<Rightarrow> of_char c \<in> {65..90 :: nat})"

record labgob =
  errorCount :: nat
  checked :: "nat set"
  printed :: "string list"

definition lower_msg :: "string \<Rightarrow> string \<Rightarrow> string" where
  "lower_msg field tname = ''labgob error: lower-case field '' @ field @ '' of '' @ tname @ '' in RPC or persist/snapshot will break your Raft''"

subsection \<open>checkType\<close>

text \<open>What is left to do: a call on a type, or the test of a field of a struct.\<close>

datatype todo = CallType nat | TestField string string

definition testField :: "labgob \<Rightarrow> string \<Rightarrow> string \<Rightarrow> labgob" where
  "testField g field tname =
     (if upper_first field then g
      else g\<lparr>printed := printed g @ [lower_msg field tname], errorCount := errorCount g + 1\<rparr>)"

definition expand :: "kind \<Rightarrow> todo list" where
  "expand k =
     (case k of
        Struct tname fs \<Rightarrow> concat (map (\<lambda>(f, t). [TestField f tname, CallType t]) fs)
      | Slice t \<Rightarrow> [CallType t] | Array t \<Rightarrow> [CallType t] | Ptr t \<Rightarrow> [CallType t]
      | MapOf key elem \<Rightarrow> [CallType elem, CallType key]
      | _ \<Rightarrow> [])"

lemma checked_testField [simp]: "checked (testField g f n) = checked g"
  by (simp add: testField_def)

lemma expand_outside: "\<not> t < length ts \<Longrightarrow> expand (kind_of ts t) = []"
  by (simp add: kind_of_def expand_def)

function checkType :: "types \<Rightarrow> labgob \<Rightarrow> todo list \<Rightarrow> labgob" where
  "checkType ts g [] = g"
| "checkType ts g (TestField f tname # rest) = checkType ts (testField g f tname) rest"
| "checkType ts g (CallType t # rest) =
     (if t \<in> checked g then checkType ts g rest
      else checkType ts (g\<lparr>checked := insert t (checked g)\<rparr>) (expand (kind_of ts t) @ rest))"
  by pat_completeness auto

termination
proof (relation "measures [\<lambda>(ts, g, _). card ({..<length ts} - checked g), \<lambda>(_, _, todo). length todo]", goal_cases)
  case (4 ts g t rest)
  show ?case
  proof (cases "t < length ts")
    case True
    then have "card ({..<length ts} - insert t (checked g)) < card ({..<length ts} - checked g)"
      using 4 by (intro psubset_card_mono) auto
    then show ?thesis by simp
  next
    case False
    then have "{..<length ts} - insert t (checked g) = {..<length ts} - checked g" by auto
    then show ?thesis using False by (simp add: expand_outside)
  qed
qed auto

definition checkValue :: "types \<Rightarrow> labgob \<Rightarrow> nat \<Rightarrow> labgob" where
  "checkValue ts g t = checkType ts g [CallType t]"

subsection \<open>checkDefault\<close>

text \<open>
  Values, as far as the check looks at them; \<open>VBasic\<close> says whether the value is the zero of its type. A value
  that is reached through an unexported field may be looked at but not taken out: \<^verbatim>\<open>Interface\<close> panics on
  it. The flag \<open>ro\<close> of a value is handed down to its parts.
\<close>

datatype gval =
    VStruct "(string \<times> gval) list"
  | VNil
  | VPtr gval
  | VBasic string bool
  | VOther

definition warn_msg :: "string \<Rightarrow> string" where
  "warn_msg what = ''labgob warning: Decoding into a non-default variable/field '' @ what @ '' may not work''"

definition checkBasic :: "labgob \<Rightarrow> bool \<Rightarrow> string \<Rightarrow> bool \<Rightarrow> string \<Rightarrow> labgob result" where
  "checkBasic g ro tname zero name =
     (if ro then Inl (PanicErr ''reflect.Value.Interface: cannot return value obtained from unexported field or method'')
      else if zero then Inr g
      else
        let g1 = (if errorCount g < 1 then g\<lparr>printed := printed g @ [warn_msg (if name = [] then tname else name)]\<rparr> else g)
        in Inr (g1\<lparr>errorCount := errorCount g1 + 1\<rparr>))"

fun checkDefault1 :: "labgob \<Rightarrow> bool \<Rightarrow> gval \<Rightarrow> nat \<Rightarrow> string \<Rightarrow> labgob result"
  and checkFields :: "labgob \<Rightarrow> bool \<Rightarrow> (string \<times> gval) list \<Rightarrow> nat \<Rightarrow> string \<Rightarrow> labgob result" where
  "checkDefault1 g ro (VStruct fs) depth name = (if depth > 3 then Inr g else checkFields g ro fs depth name)"
| "checkDefault1 g ro VNil depth name = Inr g"
| "checkDefault1 g ro (VPtr v) depth name = (if depth > 3 then Inr g else checkDefault1 g ro v (depth + 1) name)"
| "checkDefault1 g ro (VBasic tname zero) depth name = (if depth > 3 then Inr g else checkBasic g ro tname zero name)"
| "checkDefault1 g ro VOther depth name = Inr g"
| "checkFields g ro [] depth name = Inr g"
| "checkFields g ro ((f, v) # fs) depth name =
     bind_result (checkDefault1 g (ro \<or> \<not> upper_first f) v (depth + 1) (if name \<noteq> [] then name @ ''.'' @ f else f))
       (\<lambda>g1. checkFields g1 ro fs depth name)"

text \<open>\<open>None\<close> is a nil interface.\<close>

definition checkDefault :: "labgob \<Rightarrow> gval option \<Rightarrow> labgob result" where
  "checkDefault g value = (case value of None \<Rightarrow> Inr g | Some v \<Rightarrow> checkDefault1 g False v 1 [])"

subsection \<open>The wrappers\<close>

text \<open>
  \<open>encode\<close>, \<open>decode\<close> and \<open>register\<close> are \<^verbatim>\<open>encoding/gob\<close>; \<open>t\<close> is the type of the argument, \<open>v\<close> what the
  argument of \<^verbatim>\<open>Decode\<close> holds before.
\<close>

definition lab_Encode :: "('v \<Rightarrow> 'r) \<Rightarrow> types \<Rightarrow> labgob \<Rightarrow> nat \<Rightarrow> 'v \<Rightarrow> labgob \<times> 'r" where
  "lab_Encode encode ts g t e = (checkValue ts g t, encode e)"

definition lab_EncodeValue :: "('v \<Rightarrow> 'r) \<Rightarrow> types \<Rightarrow> labgob \<Rightarrow> nat \<Rightarrow> 'v \<Rightarrow> labgob \<times> 'r" where
  "lab_EncodeValue encodeValue ts g t value = (checkValue ts g t, encodeValue value)"

definition lab_Decode :: "('b \<Rightarrow> 'r) \<Rightarrow> types \<Rightarrow> labgob \<Rightarrow> nat \<Rightarrow> gval option \<Rightarrow> 'b \<Rightarrow> (labgob \<times> 'r) result" where
  "lab_Decode decode ts g t v b =
     bind_result (checkDefault (checkValue ts g t) v) (\<lambda>g1. Inr (g1, decode b))"

definition lab_Register :: "('v \<Rightarrow> 'r) \<Rightarrow> types \<Rightarrow> labgob \<Rightarrow> nat \<Rightarrow> 'v \<Rightarrow> labgob \<times> 'r" where
  "lab_Register register ts g t value = (checkValue ts g t, register value)"

definition lab_RegisterName :: "(string \<Rightarrow> 'v \<Rightarrow> 'r) \<Rightarrow> types \<Rightarrow> labgob \<Rightarrow> nat \<Rightarrow> string \<Rightarrow> 'v \<Rightarrow> labgob \<times> 'r" where
  "lab_RegisterName registerName ts g t name value = (checkValue ts g t, registerName name value)"

subsection \<open>What checkType finds\<close>

text \<open>The types a type refers to, and the lower-case fields of a type.\<close>

definition refers :: "types \<Rightarrow> (nat \<times> nat) set" where
  "refers ts = {(t, u). CallType u \<in> set (expand (kind_of ts t))}"

definition bad_fields :: "types \<Rightarrow> nat \<Rightarrow> nat" where
  "bad_fields ts t = length (filter (\<lambda>x. case x of TestField f _ \<Rightarrow> \<not> upper_first f | _ \<Rightarrow> False) (expand (kind_of ts t)))"

definition tests :: "todo list \<Rightarrow> nat" where
  "tests todo = length (filter (\<lambda>x. case x of TestField f _ \<Rightarrow> \<not> upper_first f | _ \<Rightarrow> False) todo)"

definition calls :: "todo list \<Rightarrow> nat set" where
  "calls todo = {t. CallType t \<in> set todo}"

lemma calls_simps [simp]:
  "calls [] = {}" "calls (CallType t # rest) = insert t (calls rest)" "calls (TestField f n # rest) = calls rest"
  "calls (xs @ ys) = calls xs \<union> calls ys"
  by (auto simp: calls_def)

lemma tests_simps [simp]:
  "tests [] = 0" "tests (CallType t # rest) = tests rest"
  "tests (TestField f n # rest) = (if upper_first f then 0 else 1) + tests rest" "tests (xs @ ys) = tests xs + tests ys"
  by (auto simp: tests_def)

lemma calls_expand: "calls (expand (kind_of ts t)) = refers ts `` {t}"
  by (auto simp: calls_def refers_def)

lemma tests_expand: "tests (expand (kind_of ts t)) = bad_fields ts t"
  by (simp add: tests_def bad_fields_def)

lemma errorCount_testField [simp]: "errorCount (testField g f n) = errorCount g + (if upper_first f then 0 else 1)"
  by (simp add: testField_def)

lemma finite_calls: "finite (calls xs)"
proof (induction xs)
  case (Cons x xs)
  then show ?case by (cases x) simp_all
qed simp

lemma finite_refers: "finite (refers ts)"
proof -
  have "refers ts \<subseteq> (\<Union>t < length ts. {t} \<times> calls (expand (ts ! t)))"
    by (auto simp: refers_def kind_of_def calls_def expand_def split: if_splits)
  then show ?thesis using finite_calls by (meson finite_UN_I finite_SigmaI finite.intros finite_lessThan finite_subset)
qed

lemma stays_or_meets:
  assumes "(a, b) \<in> r\<^sup>*" "a \<in> C" "\<And>x y. (x, y) \<in> r \<Longrightarrow> x \<in> C \<Longrightarrow> y \<in> C \<union> K"
  shows "b \<in> C \<union> r\<^sup>* `` K"
  using assms(1)
proof (induction rule: rtrancl_induct)
  case base
  then show ?case using assms(2) by simp
next
  case (step x y)
  then show ?case using assms(3) [of x y] by (auto intro: rtrancl_into_rtrancl)
qed

lemma checkType_spec:
  assumes "\<And>x y. (x, y) \<in> refers ts \<Longrightarrow> x \<in> checked g \<Longrightarrow> y \<in> checked g \<union> calls todo"
  shows "checked (checkType ts g todo) = checked g \<union> (refers ts)\<^sup>* `` calls todo \<and>
    errorCount (checkType ts g todo) =
      errorCount g + tests todo + (\<Sum>u \<in> (refers ts)\<^sup>* `` calls todo - checked g. bad_fields ts u)"
  using assms
proof (induction ts g todo rule: checkType.induct)
  case (2 ts g f tname rest)
  then show ?case by simp
next
  case (3 ts g t rest)
  let ?r = "refers ts"
  show ?case
  proof (cases "t \<in> checked g")
    case True
    have closed: "y \<in> checked g \<union> calls rest" if "(x, y) \<in> ?r" "x \<in> checked g" for x y
      using "3.prems" [OF that] True by auto
    have "?r\<^sup>* `` insert t (calls rest) \<subseteq> checked g \<union> ?r\<^sup>* `` calls rest"
    proof
      fix u assume "u \<in> ?r\<^sup>* `` insert t (calls rest)"
      then consider "(t, u) \<in> ?r\<^sup>*" | "u \<in> ?r\<^sup>* `` calls rest" by blast
      then show "u \<in> checked g \<union> ?r\<^sup>* `` calls rest"
      proof cases
        case 1
        then show ?thesis by (rule stays_or_meets [OF _ True closed])
      qed simp
    qed
    then have e: "checked g \<union> ?r\<^sup>* `` insert t (calls rest) = checked g \<union> ?r\<^sup>* `` calls rest"
      "?r\<^sup>* `` insert t (calls rest) - checked g = ?r\<^sup>* `` calls rest - checked g" by auto
    show ?thesis using "3.IH"(1) [OF True] closed True by (simp add: e)
  next
    case False
    let ?g = "g\<lparr>checked := insert t (checked g)\<rparr>" and ?new = "?r `` {t} \<union> calls rest"
    have "y \<in> checked ?g \<union> calls (expand (kind_of ts t) @ rest)" if "(x, y) \<in> ?r" "x \<in> checked ?g" for x y
      using "3.prems" [OF that(1)] that by (auto simp: calls_expand)
    from "3.IH"(2) [OF False this] have ih: "checked (checkType ts g (CallType t # rest)) = insert t (checked g) \<union> ?r\<^sup>* `` ?new"
      "errorCount (checkType ts g (CallType t # rest)) =
        errorCount g + (bad_fields ts t + tests rest) + (\<Sum>u \<in> ?r\<^sup>* `` ?new - insert t (checked g). bad_fields ts u)"
      using False by (simp_all add: calls_expand tests_expand)
    have reach: "?r\<^sup>* `` insert t (calls rest) = insert t (?r\<^sup>* `` ?new)"
    proof -
      have "?r\<^sup>* `` {t} = insert t (?r\<^sup>* `` (?r `` {t}))" by (auto elim: converse_rtranclE intro: converse_rtrancl_into_rtrancl)
      then show ?thesis by blast
    qed
    have "finite (?r\<^sup>* `` ?new)"
    proof (rule finite_subset)
      show "?r\<^sup>* `` ?new \<subseteq> calls rest \<union> Range ?r" by (auto elim: rtranclE)
      show "finite (calls rest \<union> Range ?r)" using finite_calls finite_refers [of ts] finite_Range by blast
    qed
    moreover have "?r\<^sup>* `` insert t (calls rest) - checked g = insert t (?r\<^sup>* `` ?new - insert t (checked g))"
      using reach False by auto
    ultimately have "(\<Sum>u \<in> ?r\<^sup>* `` insert t (calls rest) - checked g. bad_fields ts u) =
        bad_fields ts t + (\<Sum>u \<in> ?r\<^sup>* `` ?new - insert t (checked g). bad_fields ts u)" by simp
    then show ?thesis using ih reach by auto
  qed
qed simp

text \<open>
  C35: \<^verbatim>\<open>checkType\<close> always returns, also on recursive types, and is complete: when the types checked before
  are closed under reference, which every call keeps, a call checks exactly the types that can
  be reached from its argument, and counts one error for every lower-case field of every struct
  among those that were not checked before.
\<close>

theorem labgob_checks_reachable:
  assumes "refers ts `` checked g \<subseteq> checked g"
  shows "checked (checkValue ts g t) = checked g \<union> (refers ts)\<^sup>* `` {t} \<and>
    errorCount (checkValue ts g t) = errorCount g + (\<Sum>u \<in> (refers ts)\<^sup>* `` {t} - checked g. bad_fields ts u) \<and>
    refers ts `` checked (checkValue ts g t) \<subseteq> checked (checkValue ts g t)"
proof -
  have "y \<in> checked g \<union> calls [CallType t]" if "(x, y) \<in> refers ts" "x \<in> checked g" for x y
    using assms that by blast
  from checkType_spec [OF this] have "checked (checkValue ts g t) = checked g \<union> (refers ts)\<^sup>* `` {t} \<and>
    errorCount (checkValue ts g t) = errorCount g + (\<Sum>u \<in> (refers ts)\<^sup>* `` {t} - checked g. bad_fields ts u)"
    unfolding checkValue_def by (simp del: checkType.simps)
  then show ?thesis using assms by (auto intro: rtrancl_into_rtrancl)
qed

text \<open>A list node with a lower-case field that points to the next node.\<close>

definition node_types :: types where
  "node_types = [Struct ''Node'' [(''Val'', 2), (''next'', 1)], Ptr 0, Basic ''int'']"

theorem labgob_checks_reachable_witness:
  "\<exists>g. checked g = {} \<and> 0 \<in> checked (checkValue node_types g 1) \<and> errorCount (checkValue node_types g 1) = 1"
proof -
  let ?g = "\<lparr>errorCount = 0, checked = {}, printed = []\<rparr>"
  have r: "refers node_types = {(0, 2), (0, 1), (1, 0)}"
    by (auto simp: refers_def kind_of_def node_types_def expand_def numeral_2_eq_2 less_Suc_eq split: if_splits)
  have "(refers node_types)\<^sup>* `` {1} = {0, 1, 2}"
  proof
    show "(refers node_types)\<^sup>* `` {1} \<subseteq> {0, 1, 2}" by (auto simp: r elim: rtranclE)
    have "(1, 0) \<in> (refers node_types)\<^sup>*" by (simp add: r r_into_rtrancl)
    moreover have "(0, 2) \<in> refers node_types" by (simp add: r)
    ultimately show "{0, 1, 2} \<subseteq> (refers node_types)\<^sup>* `` {1}" by (auto intro: rtrancl_into_rtrancl)
  qed
  moreover have "(\<Sum>u \<in> {0, 1, 2}. bad_fields node_types u) = 1"
    by (simp add: bad_fields_def kind_of_def node_types_def expand_def upper_first_def numeral_2_eq_2)
  ultimately show ?thesis using labgob_checks_reachable [of node_types ?g 1] by (intro exI [of _ ?g]) auto
qed

subsection \<open>What checkDefault finds\<close>

text \<open>The non-zero values that are at most three levels deep.\<close>

fun nonzero :: "nat \<Rightarrow> gval \<Rightarrow> nat" and nonzero_fields :: "nat \<Rightarrow> (string \<times> gval) list \<Rightarrow> nat" where
  "nonzero depth (VStruct fs) = (if depth > 3 then 0 else nonzero_fields (depth + 1) fs)"
| "nonzero depth VNil = 0"
| "nonzero depth (VPtr v) = (if depth > 3 then 0 else nonzero (depth + 1) v)"
| "nonzero depth (VBasic _ zero) = (if depth > 3 \<or> zero then 0 else 1)"
| "nonzero depth VOther = 0"
| "nonzero_fields depth [] = 0"
| "nonzero_fields depth (f # fs) = nonzero depth (snd f) + nonzero_fields depth fs"

text \<open>Whether some basic value at most three levels deep is read through an unexported field.\<close>

fun hidden :: "bool \<Rightarrow> nat \<Rightarrow> gval \<Rightarrow> bool" and hidden_fields :: "bool \<Rightarrow> nat \<Rightarrow> (string \<times> gval) list \<Rightarrow> bool" where
  "hidden ro depth (VStruct fs) = (depth \<le> 3 \<and> hidden_fields ro (depth + 1) fs)"
| "hidden ro depth VNil = False"
| "hidden ro depth (VPtr v) = (depth \<le> 3 \<and> hidden ro (depth + 1) v)"
| "hidden ro depth (VBasic _ _) = (depth \<le> 3 \<and> ro)"
| "hidden ro depth VOther = False"
| "hidden_fields ro depth [] = False"
| "hidden_fields ro depth (f # fs) = (hidden (ro \<or> \<not> upper_first (fst f)) depth (snd f) \<or> hidden_fields ro depth fs)"

definition counted :: "labgob \<Rightarrow> nat \<Rightarrow> bool \<Rightarrow> labgob result \<Rightarrow> bool" where
  "counted g n bad res \<longleftrightarrow> (case res of
     Inl e \<Rightarrow> bad
   | Inr g' \<Rightarrow> \<not> bad \<and> errorCount g' = errorCount g + n \<and> checked g' = checked g \<and>
       length (printed g') = length (printed g) + (if errorCount g = 0 \<and> 0 < n then 1 else 0))"

lemma counted_done [simp]: "counted g 0 False (Inr g)"
  by (simp add: counted_def)

lemma counted_bind:
  assumes "counted g n bad res" "\<And>g1. counted g1 m bad' (f g1)"
  shows "counted g (n + m) (bad \<or> bad') (bind_result res f)"
proof (cases res)
  case (Inl e)
  then show ?thesis using assms(1) by (simp add: counted_def)
next
  case (Inr g1)
  then show ?thesis using assms(1) assms(2) [of g1] by (auto simp: counted_def split: sum.splits)
qed

lemma checkDefault1_counted:
  "counted g (nonzero depth v) (hidden ro depth v) (checkDefault1 g ro v depth name)"
  "counted g (nonzero_fields (depth + 1) fs) (hidden_fields ro (depth + 1) fs) (checkFields g ro fs depth name)"
proof (induction g ro v depth name and g ro fs depth name rule: checkDefault1_checkFields.induct)
  case (4 g ro tname zero depth name)
  then show ?case by (simp add: checkBasic_def counted_def Let_def)
next
  case (7 g ro f v fs depth name)
  then show ?case using counted_bind [OF "7.IH"(1)] by simp
qed simp_all

text \<open>
  \<^verbatim>\<open>checkDefault\<close> panics exactly when it meets a basic value at most three levels deep, zero or not, behind a lower-case
  field. Otherwise it counts every non-zero value that is at most three levels deep, pointers and structs each being a level, and
  prints at most one warning: the first time anything is counted.
\<close>

theorem labgob_check_default:
  "case checkDefault g (Some v) of
     Inl e \<Rightarrow> hidden False 1 v
   | Inr g' \<Rightarrow> \<not> hidden False 1 v \<and> errorCount g' = errorCount g + nonzero 1 v \<and> checked g' = checked g \<and>
       length (printed g') = length (printed g) + (if errorCount g = 0 \<and> 0 < nonzero 1 v then 1 else 0)"
  using checkDefault1_counted(1) [of g 1 v False "[]"] unfolding checkDefault_def counted_def option.case .

end
