(* ===== verification/Spec2Isabelle.thy ===== *)
theory Spec2Isabelle
  imports Multicast_Faults Multicast_Start Tx_Runs Tx_Client Tx_Deadlock Raft_Applied Raft_Config Labgob
begin

text \<open>
  Verification of the three distributed-systems demos of the repository: a totally ordered
  multicast, distributed transactions with two-phase commit, and Raft with the network and the harness it is
  tested with. They are separate Go programs; each is a set of processes or goroutines that share no
  memory and exchange messages.

  \<^bold>\<open>How the code is read.\<close> A struct is a record, a method a function from the state before to the state after. A panic,
  \<^verbatim>\<open>log.Fatal\<close> or unrecovered error is the value \<open>Inl\<close> of the result type of \<open>Prelude\<close>; a call that waits is the value \<open>None\<close> or is split into a part
  before and a part after the wait. Go's \<^verbatim>\<open>int\<close> is a 64-bit word (\<open>goint\<close>) where sums of amounts may wrap,
  and an integer where it counts terms, indices or priorities, which grow by one per event. What iterates over
  a Go map takes the order of the iteration as an argument. Random numbers, clocks, replies of other processes and the
  contents of files are arguments. Concurrency is a step relation: a step is one critical section of one goroutine, steps of
  all goroutines interleave in every order, and a timer may fire at any step.

  \<^bold>\<open>Shared.\<close> \<open>Prelude\<close>: failures, \<open>goint\<close>, maps with Go's zero values, the detour of an integer through
  \<^verbatim>\<open>float64\<close> in \<^verbatim>\<open>math.Max\<close> (exact up to \<open>2 ^ 53\<close>, which bounds the priorities for which the multicast
  theorems are stated). \<open>Go_Heap\<close>: \<^verbatim>\<open>container/heap\<close>, with the locale \<open>heap_interface\<close> of what a heap needs of its
  element type. \<open>Go_Strings\<close>: splitting, trimming, numbers as text, reading lines.

  \<^bold>\<open>Multicast\<close> (\<^verbatim>\<open>multicast-demo/types\<close>). A node parses transactions from its input, casts them with the ISIS
  protocol (initial message, proposed priorities, agreed priority), relays what it sees for the first time, holds messages back in
  a priority queue and hands them to a ledger.
  \<open>Message_PQ\<close> (\<^verbatim>\<open>message.go\<close>, \<^verbatim>\<open>priority_queue.go\<close>) interprets the heap interface on the queue of the code.
  \<open>Multicast_App\<close> (\<^verbatim>\<open>application.go\<close>) is the ledger with everything it prints; its 64-bit balances are exact as
  long as deposits stay below \<open>2 ^ 63\<close>.
  \<open>Multicast_Isis\<close> (\<^verbatim>\<open>multicast.go\<close>) has \<^verbatim>\<open>Cast\<close>, \<^verbatim>\<open>Deliver\<close> and one round of \<^verbatim>\<open>ISIS\<close>, failures included; the round keeps the
  queue a heap. \<open>Multicast_Node\<close> (\<^verbatim>\<open>node.go\<close>, \<^verbatim>\<open>errorUtil.go\<close>) has the configuration, the names and the parsing of transactions.
  \<open>Multicast_System\<close> runs all nodes with their connections, as long as no node fails; \<open>Isis_Spec\<close> is the abstract protocol, and the
  system is shown to refine it. All of this is for groups of at least two nodes with different names (\<open>conf_ok\<close>). From it follow
  total order, integrity, equal ledgers and that a
  quiet group has delivered everything, and that no round panics. \<open>Multicast_Runs\<close> evaluates runs: the witnesses, a run in which equal
  priorities of one sender break the order, which is why total order is stated for transactions with different keys, and a
  group of one node, which delivers nothing.
  \<open>Multicast_Start\<close> (\<^verbatim>\<open>main.go\<close>, \<^verbatim>\<open>Node.Run\<close>) leads from the command line through the
  dialling goroutines to the initial node of \<open>Multicast_System\<close>, and has the accept loop and the console.
  \<open>Multicast_Faults\<close> is one node with arbitrary messages and broken connections: integrity and the heap survive all of it,
  the node itself does not: it dies of an agreement on a message whose sender it has just found to have failed.

  \<^bold>\<open>Transactions\<close> (\<^verbatim>\<open>transactions-demo\<close>). A client sends the commands of a transaction to a server, its
  coordinator, which forwards each to the branch that has the account and runs two-phase commit at the end.
  \<open>Tx_Account\<close> (\<^verbatim>\<open>server/account.go\<close>) has the locks and the tentative changes, on a model of \<^verbatim>\<open>sync.RWMutex\<close> behind the locale
  \<open>rw_mutex\<close>. \<open>Tx_Branch\<close> (\<^verbatim>\<open>ForwardCmd\<close>, \<^verbatim>\<open>Prepare\<close>, \<^verbatim>\<open>Commit\<close> of \<^verbatim>\<open>server/rpc.go\<close>) lets all transactions interleave at one
  branch: write locks exclude, no balance becomes negative, commits are isolated, exact and unlock what they should, nothing
  panics. \<open>Tx_Coord\<close> has the coordinator part of \<^verbatim>\<open>server/rpc.go\<close>, \<^verbatim>\<open>server/server.go\<close> and \<^verbatim>\<open>client/client.go\<close>. \<open>Tx_System\<close> puts clients, coordinators and branches
  together: outcomes are atomic, a commit reaches exactly the branches that commands were sent to, which a record beside
  the state keeps (\<open>txran\<close>), and each branch of the
  system is a reachable branch of \<open>Tx_Branch\<close>, so that the rules \<open>Tx_Branch\<close> relies on are kept.
  It takes a client to begin once and to have an identifier of its own. \<open>Tx_Ledger\<close> keeps the books along a run of the
  system, every deposit and withdrawal answered with OK, and shows that locks, caches and commit loops implement
  them: balances are sums of entries, and so are balance replies. \<open>Tx_Deadlock\<close>: waiting in a circle is final. \<open>Tx_Client\<close>
  has the two \<^verbatim>\<open>main\<close> functions and what a session of the client sends and prints.
  \<open>Tx_Runs\<close> and \<open>Tx_System_Runs\<close> evaluate runs, among them one in which reading a balance twice leaves a lock behind.

  \<^bold>\<open>Raft\<close> (\<^verbatim>\<open>raft-demo/src/raft\<close>). \<open>Raft_Peer\<close> has every critical section of \<^verbatim>\<open>raft.go\<close>, \<^verbatim>\<open>rpc.go\<close> and \<^verbatim>\<open>util.go\<close>; \<open>Raft_Log\<close> shows that the loops
  of \<^verbatim>\<open>AppendEntries\<close> compute the merge rule of the Raft paper and that a call of a leader makes a follower catch
  up; \<open>Raft_Quorum\<close> has the counting of votes and replicas, with the locale \<open>quorums\<close> of families of sets that meet. \<open>Raft_Cluster\<close> runs the goroutines of all
  peers over a network that delays, reorders and loses calls and replies. \<open>Raft_Safety\<close>: the shape
  of logs, growing terms, and log matching for runs in which no two peers write in one term; \<open>Raft_Leader\<close> adds for these runs that
  the log of a leader only grows and that its term's entries are its own everywhere. The code does not ensure
  that condition. \<open>Raft_Election\<close> finds what is missing: four faults of the elections, each shown by a run, and without them
  no term has two leaders and logs match. On top of that, \<open>Raft_Histories\<close>, \<open>Raft_Bases\<close>, \<open>Raft_Completeness\<close> and \<open>Raft_Machine\<close> follow what peers have
  stored and committed, up to leader completeness, and \<open>Raft_Applied\<close> concludes that no two commands are applied at one index. This takes one
  more condition, that a leader counts only peers that have stored the entries in its term; the code does not ensure it either, and a run
  in which a reply of an earlier term is used shows two peers applying different commands at one index. \<open>Raft_Runs\<close> has runs with a leader elected by an old vote, with a leader that panics, and with a command that is applied
  twice.

  \<^bold>\<open>The surroundings of Raft.\<close> \<open>Labrpc\<close> (\<^verbatim>\<open>labrpc.go\<close>): the tables of the simulated network, dispatch, and the way of a
  request with drops, delays and servers that are removed; calls are dispatched at most once, and positive replies
  are those of servers that were live when the network checked them, which need not be when they arrive. \<open>Labgob\<close> (\<^verbatim>\<open>labgob.go\<close>): the checks around the encoder; \<^verbatim>\<open>checkType\<close> ends on recursive types and finds all of
  them. \<open>Raft_Config\<close> (\<^verbatim>\<open>config.go\<close>): starting, connecting and disconnecting peers on that network, the appliers and
  the questions of the tests; calls follow the connected flags, and what the harness reports is what the logs and peers showed.

  \<^bold>\<open>Bounds and fuel.\<close> No definition has fuel. Loops are structural recursions or have a measure: the unread input for the readers
  of configuration and commands, the types not yet checked for \<^verbatim>\<open>checkType\<close>. The loops of \<^verbatim>\<open>config.go\<close> that the clock
  ends take the list of what they see before the time is up, of any length.

  \<^bold>\<open>Not modelled.\<close> Sockets, the closing of connections, \<^verbatim>\<open>net/rpc\<close> and \<^verbatim>\<open>encoding/gob\<close>, which appear as arguments or as calls that arrive later; reflection,
  which appears as descriptions of types, values and methods; time stamps and the lengths of delays. The Go memory model: unsynchronised
  map accesses of the transaction server, which race, are taken to be atomic. In particular \<open>acquire_start\<close> tests, creates and reads
  \<^verbatim>\<open>app.locks[acctName]\<close> (\<^verbatim>\<open>account.go:36-41\<close>) in one step, where two first accesses to an account could each create a lock, and
  \<open>Commit\<close> is one step, of which \<^verbatim>\<open>app.mu\<close> covers only the balances (\<^verbatim>\<open>rpc.go:274-282\<close>) and not the deletion of the cache entry
  and \<^verbatim>\<open>releaseLocks\<close>. \<open>checkType\<close> is sequential, where \<^verbatim>\<open>labgob.go:75-85\<close> releases its mutex between marking a type and checking
  its fields. A slice of entries that a Raft leader sends while its log may grow is taken as it was when it was made. \<open>nCommitted\<close> leaves out
  the test of \<^verbatim>\<open>applyErr\<close> (\<^verbatim>\<open>config.go:322-324\<close>), since \<^verbatim>\<open>log.Fatalf\<close> ends the process where it would be set. The channel \<^verbatim>\<open>entryCh\<close> of Raft only
  wakes the leader, which may wake at any time; the entry it carries is not used. \<open>Multicast_System\<close> has
  no failing nodes; \<open>Multicast_Isis\<close> and \<open>Multicast_Faults\<close> have them for one node at a time. Tests, sample data, notebooks and the Python
  generator of transactions are left out.
\<close>

end
